theory Spec2Isabelle
  imports Complex_Main
begin

section \<open>Data model (types/game.ts)\<close>

text \<open>
  The TypeScript declarations of the game are embedded as records and datatypes.
  JavaScript numbers that the program only ever uses as integers (tile values, cell values,
  coordinates, elapsed seconds, the hint counter) are \<open>int\<close>; the score, which receives
  \<open>BASE_POINTS * DIFFICULTY_MULTIPLIER\<close> with multipliers 1.5 and 2.5, is \<open>real\<close>.
  A \<open>Map<string, T>\<close> is an association list in insertion order, looked up with
  \<open>map_of\<close>; mutating an object held in the map rewrites its entry in place.
\<close>

datatype DifficultyLevel = Easy | Medium | Hard | Epic

datatype cell_type = TNumber | TOperator | TEquals | TEmpty

text \<open>\<open>value: string | number | null\<close>: \<open>None\<close> is \<open>null\<close>.\<close>

datatype cell_value = NumV int | StrV string

record CellData =
  cell_id :: string
  cell_type :: cell_type
  cell_value :: "cell_value option"
  position :: "int \<times> int"
  isFixed :: bool
  isCorrect :: "bool option"
  belongsToEquation :: "string list"

record Equation =
  eq_id :: string
  eq_cells :: "string list"
  expression :: string
  eq_result :: int
  isHorizontal :: bool
  startPosition :: "int \<times> int"
  eqIsComplete :: bool
  eqIsValid :: bool

type_synonym cell_map = "(string \<times> CellData) list"
type_synonym equation_map = "(string \<times> Equation) list"

record GameBoard =
  cells :: cell_map
  equations :: equation_map
  gridSize :: "int \<times> int"

record NumberTile =
  tile_id :: string
  tile_value :: int
  isUsed :: bool

datatype move_type = MPlace | MRemove

text \<open>
  A move's \<open>id\<close> is the text \<open>move-<Date.now()>\<close>; it and the timestamp are written
  from the clock and never read. The record keeps the clock reading once.
\<close>

record GameMove =
  move_type :: move_type
  tileId :: string
  cellId :: string
  timestamp :: int

record GameConfig =
  level :: DifficultyLevel
  equationCount :: int
  cfgGridSize :: "int \<times> int"

record GameState =
  config :: GameConfig
  board :: GameBoard
  availableNumbers :: "NumberTile list"
  currentScore :: real
  timeElapsed :: int
  isComplete :: bool
  moves :: "GameMove list"
  hints :: int

definition DIFFICULTY_CONFIG :: "DifficultyLevel \<Rightarrow> GameConfig" where
  "DIFFICULTY_CONFIG d = (case d of
      Easy \<Rightarrow> \<lparr>level = Easy, equationCount = 10, cfgGridSize = (8, 6)\<rparr>
    | Medium \<Rightarrow> \<lparr>level = Medium, equationCount = 15, cfgGridSize = (10, 8)\<rparr>
    | Hard \<Rightarrow> \<lparr>level = Hard, equationCount = 20, cfgGridSize = (12, 10)\<rparr>
    | Epic \<Rightarrow> \<lparr>level = Epic, equationCount = 25, cfgGridSize = (15, 12)\<rparr>)"

definition BASE_POINTS :: real where "BASE_POINTS = 100"
definition TIME_BONUS_MULTIPLIER :: real where "TIME_BONUS_MULTIPLIER = 10"
definition HINT_PENALTY :: real where "HINT_PENALTY = 50"

definition DIFFICULTY_MULTIPLIER :: "DifficultyLevel \<Rightarrow> real" where
  "DIFFICULTY_MULTIPLIER d = (case d of Easy \<Rightarrow> 1 | Medium \<Rightarrow> 3 / 2 | Hard \<Rightarrow> 2 | Epic \<Rightarrow> 5 / 2)"

text \<open>
  The one exception the modelled code can raise: reading a property of \<open>undefined\<close>
  (a missing map entry behind \<open>!\<close>). \<open>Unmodelled\<close> is no exception of the program: it
  marks a run that leaves the integers this embedding has (see \<open>createSimpleEquation\<close>).
\<close>

datatype error = TypeError | Unmodelled

subsection \<open>Random numbers\<close>

text \<open>
  \<open>Math.random()\<close> returns a number \<open>u\<close> with \<open>0 \<le> u < 1\<close>: a \<open>unit_draw\<close>. The code uses
  a draw in two ways only, \<open>Math.floor(Math.random() * n)\<close> and \<open>Math.random() < p\<close>.
  Products and comparisons are exact here; in double precision a product can round to the
  next number, which moves a result by at most one inside the same range \<open>0 .. n - 1\<close>.
  \<open>draw a b\<close> is the draw \<open>a / b\<close>.
\<close>

typedef unit_draw = "{u :: real. 0 \<le> u \<and> u < 1}"
  by (rule exI[of _ 0]) simp

setup_lifting type_definition_unit_draw

lift_definition random_below :: "unit_draw \<Rightarrow> int \<Rightarrow> int" is "\<lambda>u n. \<lfloor>u * real_of_int n\<rfloor>" .

lift_definition random_less :: "unit_draw \<Rightarrow> real \<Rightarrow> bool" is "\<lambda>u p. u < p" .

lift_definition draw :: "nat \<Rightarrow> nat \<Rightarrow> unit_draw" is "\<lambda>a b. if a < b then real a / real b else 0"
  by auto

section \<open>Helpers for arrays, maps and strings\<close>

text \<open>\<open>xs[i]\<close>, which is \<open>undefined\<close> out of range.\<close>

definition nth_opt :: "'a list \<Rightarrow> nat \<Rightarrow> 'a option" where
  "nth_opt xs i = (if i < length xs then Some (xs ! i) else None)"

text \<open>\<open>Array.prototype.indexOf\<close>: the first index holding the element, or -1.\<close>

fun indexOf :: "'a list \<Rightarrow> 'a \<Rightarrow> int" where
  "indexOf [] a = -1"
| "indexOf (x # xs) a = (if x = a then 0 else (let r = indexOf xs a in if r < 0 then -1 else r + 1))"

text \<open>In-place mutation of the object stored under a key of a \<open>Map\<close>.\<close>

fun mutate :: "'k \<Rightarrow> ('v \<Rightarrow> 'v) \<Rightarrow> ('k \<times> 'v) list \<Rightarrow> ('k \<times> 'v) list" where
  "mutate k f [] = []"
| "mutate k f (p # ps) = (if fst p = k then (k, f (snd p)) # ps else p # mutate k f ps)"

text \<open>In-place mutation of the first tile with the given id (the one \<open>find\<close> returns).\<close>

fun set_used :: "string \<Rightarrow> bool \<Rightarrow> NumberTile list \<Rightarrow> NumberTile list" where
  "set_used tid b [] = []"
| "set_used tid b (t # ts) =
     (if tile_id t = tid then t\<lparr>isUsed := b\<rparr> # ts else t # set_used tid b ts)"

definition find_tile :: "string \<Rightarrow> NumberTile list \<Rightarrow> NumberTile option" where
  "find_tile tid ts = List.find (\<lambda>t. tile_id t = tid) ts"

subsection \<open>The expression pattern\<close>

text \<open>
  \<open>/(\d+)\s*([+\-*/])\s*(\d+)\s*=\s*(\d+)/\<close> is searched in the expression. The classes
  \<open>\d\<close>, \<open>\s\<close>, the operator characters and \<open>=\<close> are pairwise disjoint, so at a fixed
  start each greedy quantifier has to take its whole run (anything shorter leaves a
  character the next item cannot match): matching at a start is a deterministic scan, and the
  search returns the match of the leftmost start that has one. Strings are ASCII here, so
  \<open>\s\<close> is space, tab, line feed, vertical tab, form feed and carriage return.
  \<open>parseInt\<close> and \<open>Number\<close> of a run of digits are its decimal value.
\<close>

definition is_digit :: "char \<Rightarrow> bool" where
  "is_digit c = (c \<in> set ''0123456789'')"

definition is_space :: "char \<Rightarrow> bool" where
  "is_space c = (c \<in> set [CHR '' '', CHR 0x09, CHR 0x0A, CHR 0x0B, CHR 0x0C, CHR 0x0D])"

definition is_operator :: "char \<Rightarrow> bool" where
  "is_operator c = (c \<in> set ''+-*/'')"

definition digit_value :: "char \<Rightarrow> int" where
  "digit_value c = int (of_char c) - 48"

definition decimal :: "string \<Rightarrow> int" where
  "decimal ds = foldl (\<lambda>a c. 10 * a + digit_value c) 0 ds"

definition match_here :: "string \<Rightarrow> (int \<times> char \<times> int \<times> int) option" where
  "match_here s =
    (let d1 = takeWhile is_digit s; r1 = dropWhile is_digit s in
     if d1 = [] then None else
     (case dropWhile is_space r1 of
        [] \<Rightarrow> None
      | op # r3 \<Rightarrow>
         if \<not> is_operator op then None else
         (let r4 = dropWhile is_space r3;
              d2 = takeWhile is_digit r4; r5 = dropWhile is_digit r4 in
          if d2 = [] then None else
          (case dropWhile is_space r5 of
             [] \<Rightarrow> None
           | e # r7 \<Rightarrow>
              if e \<noteq> CHR ''='' then None else
              (let d3 = takeWhile is_digit (dropWhile is_space r7) in
               if d3 = [] then None
               else Some (decimal d1, op, decimal d2, decimal d3))))))"

fun regex_match :: "string \<Rightarrow> (int \<times> char \<times> int \<times> int) option" where
  "regex_match [] = None"
| "regex_match (c # cs) =
     (case match_here (c # cs) of Some m \<Rightarrow> Some m | None \<Rightarrow> regex_match cs)"

section \<open>The game engine (GameEngine.ts)\<close>

text \<open>
  The engine's field \<open>gameState: GameState | null\<close> is a \<open>GameState option\<close>. Every public
  method takes it and returns its result with the new field. Event emission only calls the
  subscribed handlers, whose failures are caught; it does not touch the game state and is
  left out.
\<close>

definition isEquationComplete :: "cell_map \<Rightarrow> Equation \<Rightarrow> bool" where
  "isEquationComplete cs eq =
     list_all (\<lambda>cid. case map_of cs cid of
                        None \<Rightarrow> False
                      | Some c \<Rightarrow> cell_value c \<noteq> None \<or> cell_type c = TOperator \<or> cell_type c = TEquals)
              (eq_cells eq)"

text \<open>\<open>cells[i]?.value\<close> of \<open>equation.cells.map(id => cells.get(id))\<close>.\<close>

definition valueAt :: "cell_map \<Rightarrow> Equation \<Rightarrow> nat \<Rightarrow> cell_value option" where
  "valueAt cs eq i =
     (case nth_opt (eq_cells eq) i of
        None \<Rightarrow> None
      | Some cid \<Rightarrow> (case map_of cs cid of None \<Rightarrow> None | Some c \<Rightarrow> cell_value c))"

definition validateEquation :: "cell_map \<Rightarrow> Equation \<Rightarrow> bool" where
  "validateEquation cs eq =
     (case (valueAt cs eq 0, valueAt cs eq 2, valueAt cs eq 4) of
        (Some (NumV num1), Some (NumV num2), Some (NumV res)) \<Rightarrow>
          (case valueAt cs eq 1 of
             Some (StrV operator) \<Rightarrow>
               if operator = ''+'' then num1 + num2 = res
               else if operator = ''-'' then num1 - num2 = res
               else if operator = ''*'' then num1 * num2 = res
               else if operator = ''/'' then num2 \<noteq> 0 \<and> real_of_int num1 / real_of_int num2 = real_of_int res
               else False
           | _ \<Rightarrow> False)
      | _ \<Rightarrow> False)"

text \<open>The body of the \<open>forEach\<close> of \<open>checkEquations\<close>, for one equation.\<close>

definition markCells :: "bool \<Rightarrow> string list \<Rightarrow> cell_map \<Rightarrow> cell_map" where
  "markCells v ids cs =
     foldl (\<lambda>acc cid. case map_of acc cid of
                         None \<Rightarrow> acc
                       | Some c \<Rightarrow> if cell_type c = TNumber
                                   then mutate cid (\<lambda>c. c\<lparr>isCorrect := Some v\<rparr>) acc else acc)
           cs ids"

definition checkEquation :: "Equation \<Rightarrow> cell_map \<Rightarrow> real \<Rightarrow> Equation \<times> cell_map \<times> real" where
  "checkEquation eq cs score =
     (let wasComplete = eqIsComplete eq;
          isNowComplete = isEquationComplete cs eq;
          isValid = (if isNowComplete then validateEquation cs eq else False)
      in (eq\<lparr>eqIsComplete := isNowComplete, eqIsValid := isValid\<rparr>,
          markCells isValid (eq_cells eq) cs,
          if \<not> wasComplete \<and> isNowComplete \<and> isValid then score + BASE_POINTS else score))"

fun checkEquations_loop :: "equation_map \<Rightarrow> cell_map \<Rightarrow> real \<Rightarrow> equation_map \<times> cell_map \<times> real" where
  "checkEquations_loop [] cs score = ([], cs, score)"
| "checkEquations_loop ((k, eq) # rest) cs score =
     (case checkEquation eq cs score of
        (eq', cs', score') \<Rightarrow>
          (case checkEquations_loop rest cs' score' of
             (rest', cs'', score'') \<Rightarrow> ((k, eq') # rest', cs'', score'')))"

definition checkEquations :: "GameState \<Rightarrow> GameState" where
  "checkEquations s =
     (case checkEquations_loop (equations (board s)) (cells (board s)) (currentScore s) of
        (eqs', cs', score') \<Rightarrow>
          s\<lparr>board := (board s)\<lparr>cells := cs', equations := eqs'\<rparr>, currentScore := score'\<rparr>)"

definition allEquationsValid :: "GameState \<Rightarrow> bool" where
  "allEquationsValid s = list_all (\<lambda>(k, eq). eqIsComplete eq \<and> eqIsValid eq) (equations (board s))"

definition completeGame :: "GameState \<Rightarrow> GameState" where
  "completeGame s =
     (let timeBonus = real_of_int (max 0 (300 - timeElapsed s)) * TIME_BONUS_MULTIPLIER;
          difficultyBonus = BASE_POINTS * DIFFICULTY_MULTIPLIER (level (config s))
      in s\<lparr>isComplete := True, currentScore := currentScore s + (timeBonus + difficultyBonus)\<rparr>)"

definition checkGameCompletion :: "GameState \<Rightarrow> GameState" where
  "checkGameCompletion s =
     (if isComplete s then s
      else if allEquationsValid s then completeGame s else s)"

definition setCellValue :: "string \<Rightarrow> cell_value option \<Rightarrow> GameState \<Rightarrow> GameState" where
  "setCellValue cid v s =
     s\<lparr>board := (board s)\<lparr>cells := mutate cid (\<lambda>c. c\<lparr>cell_value := v\<rparr>) (cells (board s))\<rparr>\<rparr>"

definition setTileUsed :: "string \<Rightarrow> bool \<Rightarrow> GameState \<Rightarrow> GameState" where
  "setTileUsed tid b s = s\<lparr>availableNumbers := set_used tid b (availableNumbers s)\<rparr>"

definition pushMove :: "GameMove \<Rightarrow> GameState \<Rightarrow> GameState" where
  "pushMove m s = s\<lparr>moves := moves s @ [m]\<rparr>"

text \<open>\<open>placeTile(tileId, cellId)\<close>; \<open>now\<close> is the clock reading.\<close>

definition placeTile :: "int \<Rightarrow> string \<Rightarrow> string \<Rightarrow> GameState option \<Rightarrow> bool \<times> GameState option" where
  "placeTile now tid cid gs =
     (case gs of
        None \<Rightarrow> (False, gs)
      | Some s \<Rightarrow>
          if isComplete s then (False, gs) else
          (case (find_tile tid (availableNumbers s), map_of (cells (board s)) cid) of
             (Some tile, Some cell) \<Rightarrow>
               if isUsed tile \<or> isFixed cell \<or> cell_type cell \<noteq> TNumber then (False, gs)
               else
                 (let s1 = setTileUsed tid True s;
                      s2 = setCellValue cid (Some (NumV (tile_value tile))) s1;
                      s3 = pushMove \<lparr>move_type = MPlace, tileId = tid, cellId = cid, timestamp = now\<rparr> s2;
                      s4 = checkEquations s3;
                      s5 = checkGameCompletion s4
                  in (True, Some s5))
           | _ \<Rightarrow> (False, gs)))"

definition removeTile :: "int \<Rightarrow> string \<Rightarrow> GameState option \<Rightarrow> bool \<times> GameState option" where
  "removeTile now cid gs =
     (case gs of
        None \<Rightarrow> (False, gs)
      | Some s \<Rightarrow>
          if isComplete s then (False, gs) else
          (case map_of (cells (board s)) cid of
             None \<Rightarrow> (False, gs)
           | Some cell \<Rightarrow>
               if isFixed cell \<or> cell_value cell = None then (False, gs) else
               (case List.find (\<lambda>m. move_type m = MPlace \<and> cellId m = cid) (rev (moves s)) of
                  None \<Rightarrow> (False, gs)
                | Some lastMove \<Rightarrow>
                    (case find_tile (tileId lastMove) (availableNumbers s) of
                       None \<Rightarrow> (False, gs)
                     | Some tile \<Rightarrow>
                         (let s1 = setTileUsed (tileId lastMove) False s;
                              s2 = setCellValue cid None s1;
                              s3 = pushMove \<lparr>move_type = MRemove, tileId = tileId lastMove,
                                             cellId = cid, timestamp = now\<rparr> s2
                          in (True, Some (checkEquations s3)))))))"

definition undoLastMove :: "GameState option \<Rightarrow> bool \<times> GameState option" where
  "undoLastMove gs =
     (case gs of
        None \<Rightarrow> (False, gs)
      | Some s \<Rightarrow>
          if moves s = [] then (False, gs) else
          (let lastMove = last (moves s);
               s0 = s\<lparr>moves := butlast (moves s)\<rparr>;
               s1 = (case (find_tile (tileId lastMove) (availableNumbers s0),
                           map_of (cells (board s0)) (cellId lastMove)) of
                       (Some tile, Some cell) \<Rightarrow>
                         (case move_type lastMove of
                            MPlace \<Rightarrow> setCellValue (cellId lastMove) None
                                        (setTileUsed (tileId lastMove) False s0)
                          | MRemove \<Rightarrow> setCellValue (cellId lastMove) (Some (NumV (tile_value tile)))
                                         (setTileUsed (tileId lastMove) True s0))
                     | _ \<Rightarrow> s0)
           in (True, Some (checkEquations s1))))"

definition getCorrectValueForCell :: "GameState \<Rightarrow> CellData \<Rightarrow> int option" where
  "getCorrectValueForCell s cell =
     (case belongsToEquation cell of
        [] \<Rightarrow> None
      | equationId # _ \<Rightarrow>
          if equationId = [] then None else
          (case map_of (equations (board s)) equationId of
             None \<Rightarrow> None
           | Some equation \<Rightarrow>
               (case regex_match (expression equation) of
                  None \<Rightarrow> None
                | Some (num1, op, num2, res) \<Rightarrow>
                    (let cellIndex = indexOf (eq_cells equation) (cell_id cell) in
                     if cellIndex = 0 then Some num1
                     else if cellIndex = 2 then Some num2
                     else if cellIndex = 4 then Some res
                     else None))))"

text \<open>\<open>getHint()\<close>; \<open>u\<close> is the draw that picks the cell.\<close>

definition unfilledCells :: "GameState \<Rightarrow> CellData list" where
  "unfilledCells s =
     filter (\<lambda>cell. cell_type cell = TNumber \<and> \<not> isFixed cell \<and> cell_value cell = None)
            (map snd (cells (board s)))"

definition getHint :: "unit_draw \<Rightarrow> GameState option \<Rightarrow> (string \<times> int) option \<times> GameState option" where
  "getHint u gs =
     (case gs of
        None \<Rightarrow> (None, gs)
      | Some s \<Rightarrow>
          if hints s \<le> 0 then (None, gs) else
          (let unfilled = unfilledCells s in
           if length unfilled = 0 then (None, gs) else
           (let targetCell = unfilled ! nat (random_below u (int (length unfilled))) in
            (case getCorrectValueForCell s targetCell of
               None \<Rightarrow> (None, gs)
             | Some correctValue \<Rightarrow>
                 (Some (cell_id targetCell, correctValue),
                  Some (s\<lparr>hints := hints s - 1,
                          currentScore := max 0 (currentScore s - HINT_PENALTY)\<rparr>))))))"

definition canPlaceTile :: "string \<Rightarrow> string \<Rightarrow> GameState option \<Rightarrow> bool" where
  "canPlaceTile tid cid gs =
     (case gs of
        None \<Rightarrow> False
      | Some s \<Rightarrow>
          (case (find_tile tid (availableNumbers s), map_of (cells (board s)) cid) of
             (Some tile, Some cell) \<Rightarrow>
               \<not> isUsed tile \<and> \<not> isFixed cell \<and> cell_type cell = TNumber \<and> cell_value cell = None
           | _ \<Rightarrow> False))"

subsection \<open>Starting a game\<close>

text \<open>A number in a template string is written in decimal.\<close>

definition digit_char :: "nat \<Rightarrow> char" where
  "digit_char d = ''0123456789'' ! d"

fun show_nat :: "nat \<Rightarrow> string" where
  "show_nat n = (if n < 10 then [digit_char n] else show_nat (n div 10) @ [digit_char (n mod 10)])"

declare show_nat.simps [simp del]

definition show_int :: "int \<Rightarrow> string" where
  "show_int i = (if i < 0 then CHR ''-'' # show_nat (nat (- i)) else show_nat (nat i))"

text \<open>
  The state \<open>startNewGame\<close> installs, given the board and the hand the generator returned:
  tiles \<open>tile-<index>\<close>, all unused, score 0, three hints, an empty move log.
\<close>

definition newGame :: "DifficultyLevel \<Rightarrow> GameBoard \<Rightarrow> int list \<Rightarrow> GameState" where
  "newGame difficulty b hand =
     \<lparr>config = DIFFICULTY_CONFIG difficulty,
      board = b,
      availableNumbers =
        map (\<lambda>(index, v). \<lparr>tile_id = ''tile-'' @ show_nat index, tile_value = v, isUsed = False\<rparr>)
            (enumerate 0 hand),
      currentScore = 0, timeElapsed = 0, isComplete = False, moves = [], hints = 3\<rparr>"

subsection \<open>Sequences of calls\<close>

datatype command =
    PlaceTile int string string
  | RemoveTile int string
  | UndoLastMove
  | GetHint unit_draw

text \<open>The engine's field after one call.\<close>

fun exec :: "command \<Rightarrow> GameState option \<Rightarrow> GameState option" where
  "exec (PlaceTile now tid cid) gs = snd (placeTile now tid cid gs)"
| "exec (RemoveTile now cid) gs = snd (removeTile now cid gs)"
| "exec UndoLastMove gs = snd (undoLastMove gs)"
| "exec (GetHint u) gs = snd (getHint u gs)"

definition run :: "command list \<Rightarrow> GameState option \<Rightarrow> GameState option" where
  "run cmds gs = foldl (\<lambda>g c. exec c g) gs cmds"

fun is_hint :: "command \<Rightarrow> bool" where
  "is_hint (GetHint u) = True"
| "is_hint _ = False"

text \<open>
  The states a game can be in: the state of a new game, and every state a call or a tick of
  the one-second timer (which writes \<open>timeElapsed\<close> while the game is not complete) leads to.
\<close>

inductive reachable :: "GameState \<Rightarrow> bool" where
  reachable_new: "reachable (newGame difficulty b hand)"
| reachable_exec: "reachable s \<Longrightarrow> exec c (Some s) = Some s' \<Longrightarrow> reachable s'"
| reachable_tick: "reachable s \<Longrightarrow> \<not> isComplete s \<Longrightarrow> reachable (s\<lparr>timeElapsed := t\<rparr>)"

subsection \<open>What the checks compute\<close>

text \<open>Every equation of the grid is complete and valid on the cells as they are.\<close>

definition solved :: "GameState \<Rightarrow> bool" where
  "solved s = list_all (\<lambda>(k, eq). isEquationComplete (cells (board s)) eq \<and>
                                    validateEquation (cells (board s)) eq) (equations (board s))"

text \<open>The flags \<open>checkEquations\<close> writes into an equation.\<close>

definition recompute :: "cell_map \<Rightarrow> Equation \<Rightarrow> Equation" where
  "recompute cs eq = eq\<lparr>eqIsComplete := isEquationComplete cs eq,
                        eqIsValid := (isEquationComplete cs eq \<and> validateEquation cs eq)\<rparr>"

text \<open>A cell map without its correctness marks, which is all that \<open>checkEquations\<close> changes in it.\<close>

definition strip :: "cell_map \<Rightarrow> cell_map" where
  "strip cs = map (\<lambda>(k, c). (k, c\<lparr>isCorrect := None\<rparr>)) cs"

subsection \<open>A small game\<close>

text \<open>
  One strip, \<open>5 + 3 = 8\<close> with the result given, and the hand 5, 3 plus the decoy 17.
\<close>

definition mkCell :: "int \<Rightarrow> int \<Rightarrow> cell_type \<Rightarrow> cell_value option \<Rightarrow> bool \<Rightarrow> string \<Rightarrow> string \<times> CellData" where
  "mkCell x y t v f e =
     (show_int x @ ''-'' @ show_int y,
      \<lparr>cell_id = show_int x @ ''-'' @ show_int y, cell_type = t, cell_value = v,
       position = (x, y), isFixed = f, isCorrect = None, belongsToEquation = [e]\<rparr>)"

definition demo_board :: GameBoard where
  "demo_board =
     \<lparr>cells =
        [mkCell 0 0 TNumber None False ''eq-1'',
         mkCell 1 0 TOperator (Some (StrV ''+'')) True ''eq-1'',
         mkCell 2 0 TNumber None False ''eq-1'',
         mkCell 3 0 TEquals (Some (StrV ''='')) True ''eq-1'',
         mkCell 4 0 TNumber (Some (NumV 8)) True ''eq-1''],
      equations =
        [(''eq-1'', \<lparr>eq_id = ''eq-1'', eq_cells = [''0-0'', ''1-0'', ''2-0'', ''3-0'', ''4-0''],
                     expression = ''5 + 3 = 8'', eq_result = 8, isHorizontal = True,
                     startPosition = (0, 0), eqIsComplete = False, eqIsValid = False\<rparr>)],
      gridSize = (5, 1)\<rparr>"

definition demo_game :: GameState where
  "demo_game = newGame Easy demo_board [5, 3, 17]"

subsection \<open>Agreement of the board with the move log\<close>

text \<open>The most recent \<open>place\<close> move on a cell, as \<open>removeTile\<close> looks it up.\<close>

definition lastPlace :: "string \<Rightarrow> GameMove list \<Rightarrow> GameMove option" where
  "lastPlace cid ms = List.find (\<lambda>m. move_type m = MPlace \<and> cellId m = cid) (rev ms)"

definition valueOf :: "cell_map \<Rightarrow> string \<Rightarrow> cell_value option" where
  "valueOf cs cid = (case map_of cs cid of None \<Rightarrow> None | Some c \<Rightarrow> cell_value c)"

text \<open>Every logged move names a tile of the hand and a cell of the grid.\<close>

definition moves_known :: "GameState \<Rightarrow> bool" where
  "moves_known s =
     list_all (\<lambda>m. find_tile (tileId m) (availableNumbers s) \<noteq> None \<and>
                    map_of (cells (board s)) (cellId m) \<noteq> None) (moves s)"

text \<open>
  On the log read from the newest move back: every \<open>remove\<close> carries the tile of the most
  recent \<open>place\<close> on its cell among the older moves.
\<close>

fun log_ok :: "GameMove list \<Rightarrow> bool" where
  "log_ok [] = True"
| "log_ok (m # older) =
     (log_ok older \<and>
      (move_type m = MRemove \<longrightarrow>
         (case List.find (\<lambda>p. move_type p = MPlace \<and> cellId p = cellId m) older of
            None \<Rightarrow> False
          | Some p \<Rightarrow> tileId p = tileId m)))"

text \<open>A filled cell that the log knows a placement for holds the value of that placement's tile.\<close>

definition cells_match :: "GameState \<Rightarrow> bool" where
  "cells_match s =
     (\<forall>cid \<in> set (map fst (cells (board s))).
        case (valueOf (cells (board s)) cid, lastPlace cid (moves s)) of
          (Some v, Some p) \<Rightarrow>
            (case find_tile (tileId p) (availableNumbers s) of
               None \<Rightarrow> True
             | Some t \<Rightarrow> v = NumV (tile_value t))
        | _ \<Rightarrow> True)"

definition consistent :: "GameState \<Rightarrow> bool" where
  "consistent s = (moves_known s \<and> log_ok (rev (moves s)) \<and> cells_match s)"

text \<open>What \<open>undoLastMove\<close> does to a state with a non-empty log, before re-validation.\<close>

definition undoEffect :: "GameState \<Rightarrow> GameState" where
  "undoEffect s =
     (let lastMove = last (moves s); s0 = s\<lparr>moves := butlast (moves s)\<rparr> in
      case (find_tile (tileId lastMove) (availableNumbers s0),
            map_of (cells (board s0)) (cellId lastMove)) of
        (Some tile, Some cell) \<Rightarrow>
          (case move_type lastMove of
             MPlace \<Rightarrow> setCellValue (cellId lastMove) None (setTileUsed (tileId lastMove) False s0)
           | MRemove \<Rightarrow> setCellValue (cellId lastMove) (Some (NumV (tile_value tile)))
                          (setTileUsed (tileId lastMove) True s0))
      | _ \<Rightarrow> s0)"

subsection \<open>States of the small game\<close>

definition after :: "command list \<Rightarrow> GameState \<Rightarrow> GameState" where
  "after cmds s = (case run cmds (Some s) of Some s' \<Rightarrow> s' | None \<Rightarrow> s)"

text \<open>The 5 placed on the first cell.\<close>

definition demo_placed :: GameState where
  "demo_placed = after [PlaceTile 1 ''tile-0'' ''0-0''] demo_game"

text \<open>Both blanks filled correctly: the game is complete.\<close>

definition demo_done :: GameState where
  "demo_done = after [PlaceTile 2 ''tile-1'' ''2-0''] demo_placed"

subsection \<open>Unsolved as far back as the log reaches\<close>

text \<open>An equation without the flags that \<open>checkEquations\<close> writes.\<close>

definition unflag :: "Equation \<Rightarrow> Equation" where
  "unflag eq = eq\<lparr>eqIsComplete := False, eqIsValid := False\<rparr>"

text \<open>
  State \<open>a\<close> has the equations, cells, cell types and tile values of state \<open>b\<close>, and every
  cell of \<open>a\<close> is empty or holds what it holds in \<open>b\<close>.
\<close>

definition cells_below :: "GameState \<Rightarrow> GameState \<Rightarrow> bool" where
  "cells_below a b =
     (map (\<lambda>(k, eq). (k, unflag eq)) (equations (board a)) =
        map (\<lambda>(k, eq). (k, unflag eq)) (equations (board b)) \<and>
      map fst (cells (board a)) = map fst (cells (board b)) \<and>
      (\<forall>cid. map_option cell_type (map_of (cells (board a)) cid) =
             map_option cell_type (map_of (cells (board b)) cid)) \<and>
      (\<forall>cid. valueOf (cells (board a)) cid = None \<or>
             valueOf (cells (board a)) cid = valueOf (cells (board b)) cid) \<and>
      (\<forall>tid. map_option tile_value (find_tile tid (availableNumbers a)) =
             map_option tile_value (find_tile tid (availableNumbers b))))"

text \<open>
  The state is not solved, and stays unsolved while the last \<open>n\<close> moves of its log are
  undone one by one.
\<close>

fun unsolved_back :: "nat \<Rightarrow> GameState \<Rightarrow> bool" where
  "unsolved_back 0 s = True"
| "unsolved_back (Suc n) s = (\<not> solved s \<and> unsolved_back n (undoEffect s))"

text \<open>A game in progress is unsolved as far back as its log reaches.\<close>

definition play_inv :: "GameState \<Rightarrow> bool" where
  "play_inv s = (\<not> isComplete s \<longrightarrow> unsolved_back (length (moves s)) s)"
section \<open>The puzzle generator (PuzzleGenerator.ts)\<close>

text \<open>
  The generator object: its configuration, the set of occupied cell ids, the equations
  placed so far and the cell map. \<open>drawn\<close> counts the calls of \<open>Math.random()\<close> made so
  far; the random source \<open>rnd\<close> lists the values these calls return, in order. An
  exception leaves the object as it is at the throw: a thrown result carries that object.
\<close>

record PuzzleGenerator =
  gen_gridSize :: "int \<times> int"
  gen_equationCount :: int
  usedPositions :: "string set"
  gen_equations :: "Equation list"
  gen_cells :: cell_map
  drawn :: nat

type_synonym random_source = "nat \<Rightarrow> unit_draw"

type_synonym 'a outcome = "(error \<times> PuzzleGenerator) + 'a"

definition new_PuzzleGenerator :: "DifficultyLevel \<Rightarrow> PuzzleGenerator" where
  "new_PuzzleGenerator difficulty =
     \<lparr>gen_gridSize = cfgGridSize (DIFFICULTY_CONFIG difficulty),
      gen_equationCount = equationCount (DIFFICULTY_CONFIG difficulty),
      usedPositions = {}, gen_equations = [], gen_cells = [], drawn = 0\<rparr>"

definition width :: "PuzzleGenerator \<Rightarrow> int" where
  "width g = fst (gen_gridSize g)"

definition height :: "PuzzleGenerator \<Rightarrow> int" where
  "height g = snd (gen_gridSize g)"

text \<open>\<open>Math.random()\<close> and \<open>Math.floor(Math.random() * n)\<close>.\<close>

definition nextRandom :: "random_source \<Rightarrow> PuzzleGenerator \<Rightarrow> unit_draw \<times> PuzzleGenerator" where
  "nextRandom rnd g = (rnd (drawn g), g\<lparr>drawn := Suc (drawn g)\<rparr>)"

definition randomInt :: "random_source \<Rightarrow> int \<Rightarrow> PuzzleGenerator \<Rightarrow> int \<times> PuzzleGenerator" where
  "randomInt rnd n g = (case nextRandom rnd g of (u, g') \<Rightarrow> (random_below u n, g'))"

text \<open>\<open>Map.prototype.set\<close>: replaces the value of a present key in place, appends a new key.\<close>

fun map_set :: "'k \<Rightarrow> 'v \<Rightarrow> ('k \<times> 'v) list \<Rightarrow> ('k \<times> 'v) list" where
  "map_set k v [] = [(k, v)]"
| "map_set k v (p # ps) = (if fst p = k then (k, v) # ps else p # map_set k v ps)"

text \<open>The cell id \<open>x-y\<close> of a coordinate.\<close>

definition cellIdOf :: "int \<Rightarrow> int \<Rightarrow> string" where
  "cellIdOf x y = show_int x @ ''-'' @ show_int y"

definition emptyCell :: "int \<Rightarrow> int \<Rightarrow> CellData" where
  "emptyCell x y =
     \<lparr>cell_id = cellIdOf x y, cell_type = TEmpty, cell_value = None, position = (x, y),
      isFixed = False, isCorrect = None, belongsToEquation = []\<rparr>"

text \<open>The coordinates in the order of the two nested loops of \<open>reset\<close>: rows outside.\<close>

definition gridCoordinates :: "int \<Rightarrow> int \<Rightarrow> (int \<times> int) list" where
  "gridCoordinates w h = concat (map (\<lambda>y. map (\<lambda>x. (x, y)) [0..w - 1]) [0..h - 1])"

definition reset :: "PuzzleGenerator \<Rightarrow> PuzzleGenerator" where
  "reset g =
     g\<lparr>usedPositions := {}, gen_equations := [],
       gen_cells := foldl (\<lambda>cs (x, y). map_set (cellIdOf x y) (emptyCell x y) cs) []
                          (gridCoordinates (width g) (height g))\<rparr>"

definition canPlaceHorizontalEquation :: "PuzzleGenerator \<Rightarrow> int \<Rightarrow> int \<Rightarrow> bool" where
  "canPlaceHorizontalEquation g startX startY =
     list_all (\<lambda>i. startX + i < width g \<and> cellIdOf (startX + i) startY \<notin> usedPositions g)
              [0, 1, 2, 3, 4]"

definition canPlaceVerticalEquation :: "PuzzleGenerator \<Rightarrow> int \<Rightarrow> int \<Rightarrow> bool" where
  "canPlaceVerticalEquation g startX startY =
     list_all (\<lambda>i. startY + i < height g \<and> cellIdOf startX (startY + i) \<notin> usedPositions g)
              [0, 1, 2, 3, 4]"

definition getRandomOperation :: "random_source \<Rightarrow> PuzzleGenerator \<Rightarrow> string \<times> PuzzleGenerator" where
  "getRandomOperation rnd g =
     (case nextRandom rnd g of
        (u, g1) \<Rightarrow>
          (let operations = [''+'', ''-'', ''*''] @ (if random_less u (1 / 10) then [''/''] else [])
           in case randomInt rnd (int (length operations)) g1 of
                (i, g2) \<Rightarrow> (operations ! nat i, g2)))"

definition generateNumbers ::
    "random_source \<Rightarrow> string \<Rightarrow> PuzzleGenerator \<Rightarrow> (int \<times> int \<times> int) \<times> PuzzleGenerator" where
  "generateNumbers rnd operation g =
     (if operation = ''+'' then
        (case randomInt rnd 20 g of (a, g1) \<Rightarrow>
         case randomInt rnd 20 g1 of (b, g2) \<Rightarrow>
           (let num1 = a + 1; num2 = b + 1 in ((num1, num2, num1 + num2), g2)))
      else if operation = ''-'' then
        (case randomInt rnd 30 g of (a, g1) \<Rightarrow>
           (let res = a + 1 in
            case randomInt rnd res g1 of (b, g2) \<Rightarrow>
              (let num2 = b + 1 in ((res + num2, num2, res), g2))))
      else if operation = ''*'' then
        (case randomInt rnd 12 g of (a, g1) \<Rightarrow>
         case randomInt rnd 12 g1 of (b, g2) \<Rightarrow>
           (let num1 = a + 1; num2 = b + 1 in ((num1, num2, num1 * num2), g2)))
      else if operation = ''/'' then
        (case randomInt rnd 20 g of (a, g1) \<Rightarrow>
           (let res = a + 1 in
            case randomInt rnd 10 g1 of (b, g2) \<Rightarrow>
              (let num2 = b + 2 in ((res * num2, num2, res), g2))))
      else ((1, 1, 2), g))"

text \<open>An entry of the \<open>positions\<close> array of the \<open>create...\<close> methods.\<close>

record Slot =
  slot_x :: int
  slot_y :: int
  slot_type :: cell_type
  slot_value :: "cell_value option"
  slot_fixed :: bool

definition slotId :: "Slot \<Rightarrow> string" where
  "slotId pos = cellIdOf (slot_x pos) (slot_y pos)"

text \<open>
  \<open>Math.random() < p ? Math.floor(Math.random() * 3) : -1\<close> and the three assignments that
  turn one slot into a given number.
\<close>

definition chooseHint :: "random_source \<Rightarrow> real \<Rightarrow> PuzzleGenerator \<Rightarrow> int \<times> PuzzleGenerator" where
  "chooseHint rnd p g =
     (case nextRandom rnd g of
        (u, g1) \<Rightarrow> if random_less u p then randomInt rnd 3 g1 else (-1, g1))"

definition giveSlot :: "nat \<Rightarrow> int \<Rightarrow> Slot list \<Rightarrow> Slot list" where
  "giveSlot i v positions =
     positions[i := (positions ! i)\<lparr>slot_value := Some (NumV v), slot_fixed := True\<rparr>]"

definition applyHint :: "int \<Rightarrow> int \<Rightarrow> int \<Rightarrow> int \<Rightarrow> Slot list \<Rightarrow> Slot list" where
  "applyHint hintIndex num1 num2 res positions =
     (let p1 = (if hintIndex = 0 then giveSlot 0 num1 positions else positions);
          p2 = (if hintIndex = 1 then giveSlot 2 num2 p1 else p1)
      in if hintIndex = 2 then giveSlot 4 res p2 else p2)"

text \<open>
  \<open>positions.forEach\<close>: the id is marked occupied, then the cell is fetched and written
  (type, value, fixed flag, and the equation id pushed onto its memberships); a missing cell
  throws at its first write.
\<close>

definition written :: "string \<Rightarrow> Slot \<Rightarrow> CellData \<Rightarrow> CellData" where
  "written equationId pos cell =
     cell\<lparr>cell_type := slot_type pos, cell_value := slot_value pos, isFixed := slot_fixed pos,
          belongsToEquation := belongsToEquation cell @ [equationId]\<rparr>"

fun writeCells :: "string \<Rightarrow> Slot list \<Rightarrow> PuzzleGenerator \<Rightarrow> PuzzleGenerator outcome" where
  "writeCells equationId [] g = Inr g"
| "writeCells equationId (pos # rest) g =
     (let cellId = slotId pos;
          g1 = g\<lparr>usedPositions := insert cellId (usedPositions g)\<rparr>
      in case map_of (gen_cells g1) cellId of
           None \<Rightarrow> Inl (TypeError, g1)
         | Some cell \<Rightarrow>
             writeCells equationId rest
               (g1\<lparr>gen_cells := mutate cellId (written equationId pos) (gen_cells g1)\<rparr>))"

text \<open>The \<open>forEach\<close> and the \<open>push\<close> of the new equation, common to the \<open>create...\<close> methods.\<close>

definition commitEquation ::
    "string \<Rightarrow> Slot list \<Rightarrow> string \<Rightarrow> int \<Rightarrow> bool \<Rightarrow> int \<Rightarrow> int \<Rightarrow> PuzzleGenerator \<Rightarrow>
     PuzzleGenerator outcome" where
  "commitEquation equationId positions expr res horizontal startX startY g =
     (case writeCells equationId positions g of
        Inl e \<Rightarrow> Inl e
      | Inr g1 \<Rightarrow>
          Inr (g1\<lparr>gen_equations := gen_equations g1 @
                 [\<lparr>eq_id = equationId, eq_cells = map slotId positions, expression = expr,
                   eq_result = res, isHorizontal = horizontal, startPosition = (startX, startY),
                   eqIsComplete = False, eqIsValid = False\<rparr>]\<rparr>))"

definition mkSlot :: "int \<Rightarrow> int \<Rightarrow> cell_type \<Rightarrow> cell_value option \<Rightarrow> bool \<Rightarrow> Slot" where
  "mkSlot x y t v f = \<lparr>slot_x = x, slot_y = y, slot_type = t, slot_value = v, slot_fixed = f\<rparr>"

text \<open>The template \<open>${num1} ${operation} ${num2} = ${result}\<close>.\<close>

definition expressionOf :: "int \<Rightarrow> string \<Rightarrow> int \<Rightarrow> int \<Rightarrow> string" where
  "expressionOf num1 operation num2 res =
     show_int num1 @ '' '' @ operation @ '' '' @ show_int num2 @ '' = '' @ show_int res"

definition createHorizontalEquation ::
    "random_source \<Rightarrow> int \<Rightarrow> int \<Rightarrow> PuzzleGenerator \<Rightarrow> PuzzleGenerator outcome" where
  "createHorizontalEquation rnd startX startY g =
     (let equationId = ''eq-'' @ show_nat (length (gen_equations g) + 1) in
      case getRandomOperation rnd g of (operation, g1) \<Rightarrow>
      case generateNumbers rnd operation g1 of ((num1, num2, res), g2) \<Rightarrow>
        (let positions =
               [mkSlot startX startY TNumber None False,
                mkSlot (startX + 1) startY TOperator (Some (StrV operation)) True,
                mkSlot (startX + 2) startY TNumber None False,
                mkSlot (startX + 3) startY TEquals (Some (StrV ''='')) True,
                mkSlot (startX + 4) startY TNumber None False]
         in case chooseHint rnd (4 / 10) g2 of (hintIndex, g3) \<Rightarrow>
              commitEquation equationId (applyHint hintIndex num1 num2 res positions)
                (expressionOf num1 operation num2 res) res True startX startY g3))"

definition createVerticalEquation ::
    "random_source \<Rightarrow> int \<Rightarrow> int \<Rightarrow> PuzzleGenerator \<Rightarrow> PuzzleGenerator outcome" where
  "createVerticalEquation rnd startX startY g =
     (let equationId = ''eq-'' @ show_nat (length (gen_equations g) + 1) in
      case getRandomOperation rnd g of (operation, g1) \<Rightarrow>
      case generateNumbers rnd operation g1 of ((num1, num2, res), g2) \<Rightarrow>
        (let positions =
               [mkSlot startX startY TNumber None False,
                mkSlot startX (startY + 1) TOperator (Some (StrV operation)) True,
                mkSlot startX (startY + 2) TNumber None False,
                mkSlot startX (startY + 3) TEquals (Some (StrV ''='')) True,
                mkSlot startX (startY + 4) TNumber None False]
         in case chooseHint rnd (4 / 10) g2 of (hintIndex, g3) \<Rightarrow>
              commitEquation equationId (applyHint hintIndex num1 num2 res positions)
                (expressionOf num1 operation num2 res) res False startX startY g3))"

text \<open>
  \<open>createSimpleEquation\<close> reads the numbers back from the expression:
  \<open>expression.split(' ')\<close> and \<open>parseInt\<close> of parts 0, 2 and 4. \<open>parseInt\<close> is modelled on
  runs of decimal digits, which is what every caller passes; for any other text (a sign,
  blanks, a missing part, where JavaScript has other numbers or \<open>NaN\<close>) it is \<open>None\<close> and
  the method's result is the marker \<open>Unmodelled\<close>, which nothing catches.
\<close>

fun split_on :: "char \<Rightarrow> string \<Rightarrow> string list" where
  "split_on c [] = [[]]"
| "split_on c (x # xs) =
     (if x = c then [] # split_on c xs
      else (case split_on c xs of [] \<Rightarrow> [[x]] | p # ps \<Rightarrow> (x # p) # ps))"

definition parseInt :: "string option \<Rightarrow> int option" where
  "parseInt part =
     (case part of
        None \<Rightarrow> None
      | Some ds \<Rightarrow> if ds \<noteq> [] \<and> list_all is_digit ds then Some (decimal ds) else None)"

definition createSimpleEquation ::
    "random_source \<Rightarrow> int \<Rightarrow> int \<Rightarrow> string \<Rightarrow> string \<Rightarrow> PuzzleGenerator \<Rightarrow>
     PuzzleGenerator outcome" where
  "createSimpleEquation rnd startX startY expr ident g =
     (let parts = split_on CHR '' '' expr in
      case (parseInt (nth_opt parts 0), nth_opt parts 1, parseInt (nth_opt parts 2),
            parseInt (nth_opt parts 4)) of
        (Some num1, Some op, Some num2, Some res) \<Rightarrow>
          (let positions =
                 [mkSlot startX startY TNumber None False,
                  mkSlot (startX + 1) startY TOperator (Some (StrV op)) True,
                  mkSlot (startX + 2) startY TNumber None False,
                  mkSlot (startX + 3) startY TEquals (Some (StrV ''='')) True,
                  mkSlot (startX + 4) startY TNumber None False]
           in case chooseHint rnd (5 / 10) g of (hintIndex, g1) \<Rightarrow>
                commitEquation ident (applyHint hintIndex num1 num2 res positions)
                  expr res True startX startY g1)
      | _ \<Rightarrow> Inl (Unmodelled, g))"

text \<open>
  The loops. Each runs a bounded number of attempts; the model recurses on the attempts
  that are left. The target counts \<open>Math.ceil(equationCount * 0.6)\<close> and the like are
  computed on exact reals here; in double precision a product such as \<open>15 * 0.4\<close> rounds
  just above the exact value and its ceiling is one more. The properties proved of the loops
  hold for every target count.
\<close>

definition horizontalCount :: "PuzzleGenerator \<Rightarrow> int" where
  "horizontalCount g = int (length (filter isHorizontal (gen_equations g)))"

definition verticalCount :: "PuzzleGenerator \<Rightarrow> int" where
  "verticalCount g = int (length (filter (\<lambda>eq. \<not> isHorizontal eq) (gen_equations g)))"

fun horizontalLoop :: "random_source \<Rightarrow> int \<Rightarrow> nat \<Rightarrow> PuzzleGenerator \<Rightarrow> PuzzleGenerator outcome" where
  "horizontalLoop rnd targetCount 0 g = Inr g"
| "horizontalLoop rnd targetCount (Suc left) g =
     (if horizontalCount g < targetCount then
        (case randomInt rnd (max 1 (width g - 4)) g of (startX, g1) \<Rightarrow>
         case randomInt rnd (height g) g1 of (startY, g2) \<Rightarrow>
           if canPlaceHorizontalEquation g2 startX startY
           then (case createHorizontalEquation rnd startX startY g2 of
                   Inl e \<Rightarrow> Inl e
                 | Inr g3 \<Rightarrow> horizontalLoop rnd targetCount left g3)
           else horizontalLoop rnd targetCount left g2)
      else Inr g)"

definition generateHorizontalEquations :: "random_source \<Rightarrow> PuzzleGenerator \<Rightarrow> PuzzleGenerator outcome" where
  "generateHorizontalEquations rnd g =
     (let targetCount = min \<lceil>real_of_int (gen_equationCount g) * (6 / 10)\<rceil>
                            \<lfloor>real_of_int (height g) * (8 / 10)\<rfloor>
      in horizontalLoop rnd targetCount 50 g)"

fun verticalLoop :: "random_source \<Rightarrow> int \<Rightarrow> nat \<Rightarrow> PuzzleGenerator \<Rightarrow> PuzzleGenerator outcome" where
  "verticalLoop rnd targetCount 0 g = Inr g"
| "verticalLoop rnd targetCount (Suc left) g =
     (if verticalCount g < targetCount then
        (case randomInt rnd (width g) g of (startX, g1) \<Rightarrow>
         case randomInt rnd (max 1 (height g - 4)) g1 of (startY, g2) \<Rightarrow>
           if canPlaceVerticalEquation g2 startX startY
           then (case createVerticalEquation rnd startX startY g2 of
                   Inl e \<Rightarrow> Inl e
                 | Inr g3 \<Rightarrow> verticalLoop rnd targetCount left g3)
           else verticalLoop rnd targetCount left g2)
      else Inr g)"

definition generateVerticalEquations :: "random_source \<Rightarrow> PuzzleGenerator \<Rightarrow> PuzzleGenerator outcome" where
  "generateVerticalEquations rnd g =
     (let targetCount = min \<lceil>real_of_int (gen_equationCount g) * (4 / 10)\<rceil>
                            \<lfloor>real_of_int (width g) * (8 / 10)\<rfloor>
      in verticalLoop rnd targetCount 50 g)"

fun addRandomLoop :: "random_source \<Rightarrow> nat \<Rightarrow> PuzzleGenerator \<Rightarrow> PuzzleGenerator outcome" where
  "addRandomLoop rnd 0 g = Inr g"
| "addRandomLoop rnd (Suc left) g =
     (case nextRandom rnd g of (u, g1) \<Rightarrow>
        if random_less u (6 / 10) then
          (case randomInt rnd (width g - 6) g1 of (startX, g2) \<Rightarrow>
           case randomInt rnd (height g) g2 of (startY, g3) \<Rightarrow>
             if canPlaceHorizontalEquation g3 startX startY
             then createHorizontalEquation rnd startX startY g3
             else addRandomLoop rnd left g3)
        else
          (case randomInt rnd (width g) g1 of (startX, g2) \<Rightarrow>
           case randomInt rnd (height g - 6) g2 of (startY, g3) \<Rightarrow>
             if canPlaceVerticalEquation g3 startX startY
             then createVerticalEquation rnd startX startY g3
             else addRandomLoop rnd left g3))"

definition addRandomEquation :: "random_source \<Rightarrow> PuzzleGenerator \<Rightarrow> PuzzleGenerator outcome" where
  "addRandomEquation rnd g = addRandomLoop rnd 50 g"

fun topUpLoop :: "random_source \<Rightarrow> nat \<Rightarrow> PuzzleGenerator \<Rightarrow> PuzzleGenerator outcome" where
  "topUpLoop rnd 0 g = Inr g"
| "topUpLoop rnd (Suc left) g =
     (if int (length (gen_equations g)) < gen_equationCount g then
        (case addRandomEquation rnd g of
           Inl e \<Rightarrow> Inl e
         | Inr g1 \<Rightarrow> topUpLoop rnd left g1)
      else Inr g)"

fun placeSimpleLoop ::
    "random_source \<Rightarrow> string \<Rightarrow> string \<Rightarrow> nat \<Rightarrow> PuzzleGenerator \<Rightarrow> PuzzleGenerator outcome" where
  "placeSimpleLoop rnd expr ident 0 g = Inr g"
| "placeSimpleLoop rnd expr ident (Suc left) g =
     (case randomInt rnd (max 1 (width g - 4)) g of (startX, g1) \<Rightarrow>
      case randomInt rnd (height g) g1 of (startY, g2) \<Rightarrow>
        if canPlaceHorizontalEquation g2 startX startY
        then createSimpleEquation rnd startX startY expr ident g2
        else placeSimpleLoop rnd expr ident left g2)"

definition simpleNumbers ::
    "random_source \<Rightarrow> string \<Rightarrow> PuzzleGenerator \<Rightarrow> (int \<times> int \<times> int) \<times> PuzzleGenerator" where
  "simpleNumbers rnd op g =
     (if op = ''+'' then
        (case randomInt rnd 10 g of (a, g1) \<Rightarrow>
         case randomInt rnd 10 g1 of (b, g2) \<Rightarrow>
           (let num1 = a + 1; num2 = b + 1 in ((num1, num2, num1 + num2), g2)))
      else if op = ''-'' then
        (case randomInt rnd 15 g of (a, g1) \<Rightarrow>
           (let res = a + 1 in
            case randomInt rnd res g1 of (b, g2) \<Rightarrow>
              (let num2 = b + 1 in ((res + num2, num2, res), g2))))
      else if op = ''*'' then
        (case randomInt rnd 5 g of (a, g1) \<Rightarrow>
         case randomInt rnd 5 g1 of (b, g2) \<Rightarrow>
           (let num1 = a + 1; num2 = b + 1 in ((num1, num2, num1 * num2), g2)))
      else ((2, 3, 5), g))"

text \<open>The body of the outer loop of \<open>fillWithSimpleEquations\<close>, for the index \<open>i\<close>.\<close>

definition fillOne :: "random_source \<Rightarrow> nat \<Rightarrow> PuzzleGenerator \<Rightarrow> PuzzleGenerator outcome" where
  "fillOne rnd i g =
     (case randomInt rnd 3 g of (k, g1) \<Rightarrow>
        (let op = [''+'', ''-'', ''*''] ! nat k in
         case simpleNumbers rnd op g1 of ((num1, num2, res), g2) \<Rightarrow>
           placeSimpleLoop rnd (expressionOf num1 op num2 res) (''simple-'' @ show_nat i) 20 g2))"

fun fillLoop :: "random_source \<Rightarrow> nat list \<Rightarrow> PuzzleGenerator \<Rightarrow> PuzzleGenerator outcome" where
  "fillLoop rnd [] g = Inr g"
| "fillLoop rnd (i # rest) g =
     (case fillOne rnd i g of
        Inl e \<Rightarrow> Inl e
      | Inr g1 \<Rightarrow> fillLoop rnd rest g1)"

definition fillWithSimpleEquations :: "random_source \<Rightarrow> PuzzleGenerator \<Rightarrow> PuzzleGenerator outcome" where
  "fillWithSimpleEquations rnd g =
     (let needed = gen_equationCount g - int (length (gen_equations g))
      in fillLoop rnd [0..<nat needed] g)"

text \<open>\<open>new Map(this.equations.map(eq => [eq.id, eq]))\<close> and the board handed out.\<close>

definition equationMap :: "Equation list \<Rightarrow> equation_map" where
  "equationMap eqs = foldl (\<lambda>m eq. map_set (eq_id eq) eq m) [] eqs"

definition boardOf :: "PuzzleGenerator \<Rightarrow> GameBoard" where
  "boardOf g = \<lparr>cells = gen_cells g, equations = equationMap (gen_equations g),
                gridSize = gen_gridSize g\<rparr>"

fun fallbackLoop ::
    "random_source \<Rightarrow> (nat \<times> int \<times> int \<times> string) list \<Rightarrow> PuzzleGenerator \<Rightarrow> PuzzleGenerator outcome" where
  "fallbackLoop rnd [] g = Inr g"
| "fallbackLoop rnd ((index, x, y, eq) # rest) g =
     (if y < height g \<and> x + 4 < width g then
        (case createSimpleEquation rnd x y eq (''fallback-'' @ show_nat index) g of
           Inl e \<Rightarrow> Inl e
         | Inr g1 \<Rightarrow> fallbackLoop rnd rest g1)
      else fallbackLoop rnd rest g)"

definition createFallbackPuzzle ::
    "random_source \<Rightarrow> PuzzleGenerator \<Rightarrow> (GameBoard \<times> PuzzleGenerator) outcome" where
  "createFallbackPuzzle rnd g =
     (case fallbackLoop rnd [(0, 1, 1, ''2 + 3 = 5''), (1, 1, 3, ''4 - 1 = 3''), (2, 1, 5, ''3 * 2 = 6'')]
             (reset g) of
        Inl e \<Rightarrow> Inl e
      | Inr g1 \<Rightarrow> Inr (boardOf g1, g1))"

text \<open>The \<open>try\<close> block of \<open>generatePuzzle\<close>.\<close>

definition generateBody :: "random_source \<Rightarrow> PuzzleGenerator \<Rightarrow> PuzzleGenerator outcome" where
  "generateBody rnd g =
     (case generateHorizontalEquations rnd g of
        Inl e \<Rightarrow> Inl e
      | Inr g1 \<Rightarrow>
     (case generateVerticalEquations rnd g1 of
        Inl e \<Rightarrow> Inl e
      | Inr g2 \<Rightarrow>
     (case topUpLoop rnd 50 g2 of
        Inl e \<Rightarrow> Inl e
      | Inr g3 \<Rightarrow>
          if int (length (gen_equations g3)) < gen_equationCount g3
          then fillWithSimpleEquations rnd g3
          else Inr g3)))"

definition generatePuzzle ::
    "random_source \<Rightarrow> PuzzleGenerator \<Rightarrow> (GameBoard \<times> PuzzleGenerator) outcome" where
  "generatePuzzle rnd g =
     (case generateBody rnd (reset g) of
        Inr g1 \<Rightarrow> Inr (boardOf g1, g1)
      | Inl (TypeError, g1) \<Rightarrow> createFallbackPuzzle rnd g1
      | Inl (Unmodelled, g1) \<Rightarrow> Inl (Unmodelled, g1))"

subsection \<open>The player's hand\<close>

text \<open>The number a blank cell needs, read from the expression of each equation it belongs to.\<close>

definition neededOfCell :: "GameBoard \<Rightarrow> CellData \<Rightarrow> int list" where
  "neededOfCell b cell =
     (if cell_type cell = TNumber \<and> \<not> isFixed cell then
        concat (map (\<lambda>eqId.
          case map_of (equations b) eqId of
            None \<Rightarrow> []
          | Some equation \<Rightarrow>
              (case regex_match (expression equation) of
                 None \<Rightarrow> []
               | Some (num1, op, num2, res) \<Rightarrow>
                   (let cellIndex = indexOf (eq_cells equation) (cell_id cell) in
                    if cellIndex = 0 then [num1]
                    else if cellIndex = 2 then [num2]
                    else if cellIndex = 4 then [res]
                    else []))) (belongsToEquation cell))
      else [])"

definition neededNumbers :: "GameBoard \<Rightarrow> int list" where
  "neededNumbers b = concat (map (\<lambda>(k, cell). neededOfCell b cell) (cells b))"

fun redHerrings :: "random_source \<Rightarrow> nat \<Rightarrow> PuzzleGenerator \<Rightarrow> int list \<times> PuzzleGenerator" where
  "redHerrings rnd 0 g = ([], g)"
| "redHerrings rnd (Suc n) g =
     (case randomInt rnd 50 g of (a, g1) \<Rightarrow>
      case redHerrings rnd n g1 of (rest, g2) \<Rightarrow> ((a + 1) # rest, g2))"

text \<open>
  \<open>shuffleArray\<close>: for \<open>i\<close> from the last index down to 1, swap the entries at \<open>i\<close> and at
  \<open>Math.floor(Math.random() * (i + 1))\<close>.
\<close>

fun shuffleLoop :: "random_source \<Rightarrow> nat \<Rightarrow> 'a list \<Rightarrow> PuzzleGenerator \<Rightarrow> 'a list \<times> PuzzleGenerator" where
  "shuffleLoop rnd 0 xs g = (xs, g)"
| "shuffleLoop rnd (Suc i) xs g =
     (case randomInt rnd (int (Suc i) + 1) g of (j, g1) \<Rightarrow>
        shuffleLoop rnd i (xs[Suc i := xs ! nat j, nat j := xs ! Suc i]) g1)"

definition shuffleArray :: "random_source \<Rightarrow> 'a list \<Rightarrow> PuzzleGenerator \<Rightarrow> 'a list \<times> PuzzleGenerator" where
  "shuffleArray rnd xs g = shuffleLoop rnd (length xs - 1) xs g"

definition generateAvailableNumbers ::
    "random_source \<Rightarrow> GameBoard \<Rightarrow> PuzzleGenerator \<Rightarrow> int list \<times> PuzzleGenerator" where
  "generateAvailableNumbers rnd b g =
     (let needed = neededNumbers b;
          extraCount = nat \<lceil>real (length needed) * (2 / 10)\<rceil>
      in case redHerrings rnd extraCount g of
           (extra, g1) \<Rightarrow> shuffleArray rnd (needed @ extra) g1)"

text \<open>\<open>startNewGame(difficulty)\<close>: the generator's board and hand, wrapped in a new state.\<close>

definition startNewGame :: "random_source \<Rightarrow> DifficultyLevel \<Rightarrow> GameState outcome" where
  "startNewGame rnd difficulty =
     (case generatePuzzle rnd (new_PuzzleGenerator difficulty) of
        Inl e \<Rightarrow> Inl e
      | Inr (b, g) \<Rightarrow>
          (case generateAvailableNumbers rnd b g of
             (hand, g1) \<Rightarrow> Inr (newGame difficulty b hand)))"

section \<open>The earlier PuzzleGenerator\<close>

text \<open>
  The source holds an earlier version of the class as well. Its \<open>reset\<close>, \<open>create...\<close>,
  \<open>getRandomOperation\<close>, \<open>generateNumbers\<close> and \<open>addRandomEquation\<close> have the text of the
  later version, and are the definitions above. It differs in what follows: its
  \<open>canPlace...\<close> methods ask for seven free cells, its two generating loops draw the start
  from a range six short of the side and run 100 attempts, it calls
  \<open>addIntersectionChallenges\<close>, and its top-up loop has no attempt counter. It has no
  \<open>try\<close>: an exception leaves \<open>generatePuzzle\<close>. Names carry the suffix \<open>_v1\<close>.
\<close>

definition canPlaceHorizontalEquation_v1 :: "PuzzleGenerator \<Rightarrow> int \<Rightarrow> int \<Rightarrow> bool" where
  "canPlaceHorizontalEquation_v1 g startX startY =
     list_all (\<lambda>i. startX + i < width g \<and> cellIdOf (startX + i) startY \<notin> usedPositions g)
              [0, 1, 2, 3, 4, 5, 6]"

definition canPlaceVerticalEquation_v1 :: "PuzzleGenerator \<Rightarrow> int \<Rightarrow> int \<Rightarrow> bool" where
  "canPlaceVerticalEquation_v1 g startX startY =
     list_all (\<lambda>i. startY + i < height g \<and> cellIdOf startX (startY + i) \<notin> usedPositions g)
              [0, 1, 2, 3, 4, 5, 6]"

fun horizontalLoop_v1 :: "random_source \<Rightarrow> int \<Rightarrow> nat \<Rightarrow> PuzzleGenerator \<Rightarrow> PuzzleGenerator outcome" where
  "horizontalLoop_v1 rnd targetCount 0 g = Inr g"
| "horizontalLoop_v1 rnd targetCount (Suc left) g =
     (if horizontalCount g < targetCount then
        (case randomInt rnd (width g - 6) g of (startX, g1) \<Rightarrow>
         case randomInt rnd (height g) g1 of (startY, g2) \<Rightarrow>
           if canPlaceHorizontalEquation_v1 g2 startX startY
           then (case createHorizontalEquation rnd startX startY g2 of
                   Inl e \<Rightarrow> Inl e
                 | Inr g3 \<Rightarrow> horizontalLoop_v1 rnd targetCount left g3)
           else horizontalLoop_v1 rnd targetCount left g2)
      else Inr g)"

definition generateHorizontalEquations_v1 :: "random_source \<Rightarrow> PuzzleGenerator \<Rightarrow> PuzzleGenerator outcome" where
  "generateHorizontalEquations_v1 rnd g =
     horizontalLoop_v1 rnd \<lceil>real_of_int (gen_equationCount g) * (6 / 10)\<rceil> 100 g"

fun verticalLoop_v1 :: "random_source \<Rightarrow> int \<Rightarrow> nat \<Rightarrow> PuzzleGenerator \<Rightarrow> PuzzleGenerator outcome" where
  "verticalLoop_v1 rnd targetCount 0 g = Inr g"
| "verticalLoop_v1 rnd targetCount (Suc left) g =
     (if verticalCount g < targetCount then
        (case randomInt rnd (width g) g of (startX, g1) \<Rightarrow>
         case randomInt rnd (height g - 6) g1 of (startY, g2) \<Rightarrow>
           if canPlaceVerticalEquation_v1 g2 startX startY
           then (case createVerticalEquation rnd startX startY g2 of
                   Inl e \<Rightarrow> Inl e
                 | Inr g3 \<Rightarrow> verticalLoop_v1 rnd targetCount left g3)
           else verticalLoop_v1 rnd targetCount left g2)
      else Inr g)"

definition generateVerticalEquations_v1 :: "random_source \<Rightarrow> PuzzleGenerator \<Rightarrow> PuzzleGenerator outcome" where
  "generateVerticalEquations_v1 rnd g =
     verticalLoop_v1 rnd \<lceil>real_of_int (gen_equationCount g) * (4 / 10)\<rceil> 100 g"

text \<open>
  \<open>addIntersectionChallenges\<close>: for each horizontal equation, while fewer than
  \<open>maxIntersections\<close> are counted, the cells at the even indices are looked up in turn
  (a missing one throws at \<open>cell.position\<close>) until a vertical strip through one passes
  \<open>canPlaceVerticalEquationWithIntersection\<close>; then \<open>createVerticalEquationWithIntersection\<close>,
  whose body is empty, is called and the count goes up. As nothing is written, the loop over
  \<open>this.equations\<close> runs over the list it started with.
\<close>

definition canPlaceVerticalEquationWithIntersection ::
    "PuzzleGenerator \<Rightarrow> int \<Rightarrow> int \<Rightarrow> int \<Rightarrow> bool" where
  "canPlaceVerticalEquationWithIntersection g x startY intersectY =
     list_all (\<lambda>i. startY + i < height g \<and>
                   (startY + i = intersectY \<or> cellIdOf x (startY + i) \<notin> usedPositions g))
              [0, 1, 2, 3, 4]"

definition createVerticalEquationWithIntersection ::
    "PuzzleGenerator \<Rightarrow> int \<Rightarrow> int \<Rightarrow> int \<Rightarrow> PuzzleGenerator" where
  "createVerticalEquationWithIntersection g x startY intersectY = g"

fun evens :: "'a list \<Rightarrow> 'a list" where
  "evens [] = []"
| "evens [x] = [x]"
| "evens (x # y # xs) = x # evens xs"

fun intersectionInner :: "PuzzleGenerator \<Rightarrow> string list \<Rightarrow> (bool \<times> PuzzleGenerator) outcome" where
  "intersectionInner g [] = Inr (False, g)"
| "intersectionInner g (cid # rest) =
     (case map_of (gen_cells g) cid of
        None \<Rightarrow> Inl (TypeError, g)
      | Some cell \<Rightarrow>
          (let intersectX = fst (position cell);
               intersectY = snd (position cell);
               startY = max 0 (intersectY - 2)
           in if canPlaceVerticalEquationWithIntersection g intersectX startY intersectY
              then Inr (True, createVerticalEquationWithIntersection g intersectX startY intersectY)
              else intersectionInner g rest))"

fun intersectionLoop :: "int \<Rightarrow> int \<Rightarrow> Equation list \<Rightarrow> PuzzleGenerator \<Rightarrow> PuzzleGenerator outcome" where
  "intersectionLoop maxIntersections intersections [] g = Inr g"
| "intersectionLoop maxIntersections intersections (eq1 # rest) g =
     (if intersections < maxIntersections then
        (if \<not> isHorizontal eq1 then intersectionLoop maxIntersections intersections rest g
         else (case intersectionInner g (evens (eq_cells eq1)) of
                 Inl e \<Rightarrow> Inl e
               | Inr (found, g1) \<Rightarrow>
                   intersectionLoop maxIntersections
                     (if found then intersections + 1 else intersections) rest g1))
      else Inr g)"

definition addIntersectionChallenges :: "PuzzleGenerator \<Rightarrow> PuzzleGenerator outcome" where
  "addIntersectionChallenges g =
     intersectionLoop (min 3 \<lfloor>real_of_int (gen_equationCount g) * (2 / 10)\<rfloor>) 0
       (gen_equations g) g"

fun addRandomLoop_v1 :: "random_source \<Rightarrow> nat \<Rightarrow> PuzzleGenerator \<Rightarrow> PuzzleGenerator outcome" where
  "addRandomLoop_v1 rnd 0 g = Inr g"
| "addRandomLoop_v1 rnd (Suc left) g =
     (case nextRandom rnd g of (u, g1) \<Rightarrow>
        if random_less u (6 / 10) then
          (case randomInt rnd (width g - 6) g1 of (startX, g2) \<Rightarrow>
           case randomInt rnd (height g) g2 of (startY, g3) \<Rightarrow>
             if canPlaceHorizontalEquation_v1 g3 startX startY
             then createHorizontalEquation rnd startX startY g3
             else addRandomLoop_v1 rnd left g3)
        else
          (case randomInt rnd (width g) g1 of (startX, g2) \<Rightarrow>
           case randomInt rnd (height g - 6) g2 of (startY, g3) \<Rightarrow>
             if canPlaceVerticalEquation_v1 g3 startX startY
             then createVerticalEquation rnd startX startY g3
             else addRandomLoop_v1 rnd left g3))"

definition addRandomEquation_v1 :: "random_source \<Rightarrow> PuzzleGenerator \<Rightarrow> PuzzleGenerator outcome" where
  "addRandomEquation_v1 rnd g = addRandomLoop_v1 rnd 50 g"

text \<open>
  \<open>while (this.equations.length < this.equationCount) this.addRandomEquation()\<close>: nothing
  bounds this loop. A run that never leaves it has the value \<open>None\<close>.
\<close>

partial_function (option) topUpWhile_v1 ::
    "random_source \<Rightarrow> PuzzleGenerator \<Rightarrow> PuzzleGenerator outcome option" where
  "topUpWhile_v1 rnd g =
     (if int (length (gen_equations g)) < gen_equationCount g then
        (case addRandomEquation_v1 rnd g of
           Inl e \<Rightarrow> Some (Inl e)
         | Inr g1 \<Rightarrow> topUpWhile_v1 rnd g1)
      else Some (Inr g))"

definition generatePuzzle_v1 ::
    "random_source \<Rightarrow> PuzzleGenerator \<Rightarrow> (GameBoard \<times> PuzzleGenerator) outcome option" where
  "generatePuzzle_v1 rnd g =
     (case generateHorizontalEquations_v1 rnd (reset g) of
        Inl e \<Rightarrow> Some (Inl e)
      | Inr g1 \<Rightarrow>
     (case generateVerticalEquations_v1 rnd g1 of
        Inl e \<Rightarrow> Some (Inl e)
      | Inr g2 \<Rightarrow>
     (case addIntersectionChallenges g2 of
        Inl e \<Rightarrow> Some (Inl e)
      | Inr g3 \<Rightarrow>
     (case topUpWhile_v1 rnd g3 of
        None \<Rightarrow> None
      | Some (Inl e) \<Rightarrow> Some (Inl e)
      | Some (Inr g4) \<Rightarrow> Some (Inr (boardOf g4, g4))))))"

section \<open>Predicates on generated boards\<close>

text \<open>A generator object that differs from another in its count of draws only.\<close>

definition only_drawn :: "PuzzleGenerator \<Rightarrow> PuzzleGenerator \<Rightarrow> bool" where
  "only_drawn g g' = (g' = g\<lparr>drawn := drawn g'\<rparr>)"

text \<open>The arithmetic test \<open>validateEquation\<close> makes for an operator.\<close>

definition operatorHolds :: "string \<Rightarrow> int \<Rightarrow> int \<Rightarrow> int \<Rightarrow> bool" where
  "operatorHolds operator num1 num2 res =
     (if operator = ''+'' then num1 + num2 = res
      else if operator = ''-'' then num1 - num2 = res
      else if operator = ''*'' then num1 * num2 = res
      else if operator = ''/'' then num2 \<noteq> 0 \<and> real_of_int num1 / real_of_int num2 = real_of_int res
      else False)"

text \<open>A random source for examples: every draw is one half.\<close>

definition rnd_half :: random_source where
  "rnd_half = (\<lambda>i. draw 1 2)"

text \<open>
  The five consecutive coordinates of a strip from its start, along its orientation, and
  their cell ids.
\<close>

definition stripCoordinates :: "bool \<Rightarrow> int \<times> int \<Rightarrow> (int \<times> int) list" where
  "stripCoordinates horizontal start =
     map (\<lambda>i. if horizontal then (fst start + i, snd start) else (fst start, snd start + i))
         [0, 1, 2, 3, 4]"

definition stripIds :: "bool \<Rightarrow> int \<times> int \<Rightarrow> string list" where
  "stripIds horizontal start =
     map (\<lambda>p. cellIdOf (fst p) (snd p)) (stripCoordinates horizontal start)"

definition inGrid :: "int \<times> int \<Rightarrow> int \<times> int \<Rightarrow> bool" where
  "inGrid dims p = (0 \<le> fst p \<and> fst p < fst dims \<and> 0 \<le> snd p \<and> snd p < snd dims)"

text \<open>An equation occupies the strip at its start position, inside the grid.\<close>

definition occupiesStrip :: "int \<times> int \<Rightarrow> Equation \<Rightarrow> bool" where
  "occupiesStrip dims e =
     (list_all (inGrid dims) (stripCoordinates (isHorizontal e) (startPosition e)) \<and>
      eq_cells e = stripIds (isHorizontal e) (startPosition e))"

text \<open>
  A number cell of an equation, as committed: it carries the equation's id and is either
  given (fixed, holding its number) or blank (not fixed, empty). A symbol cell is fixed and
  holds its text.
\<close>

definition numberCell :: "cell_map \<Rightarrow> string \<Rightarrow> string \<Rightarrow> int \<Rightarrow> bool" where
  "numberCell cs ident k n =
     (case map_of cs k of
        None \<Rightarrow> False
      | Some c \<Rightarrow> cell_id c = k \<and> cell_type c = TNumber \<and> belongsToEquation c = [ident] \<and>
                  (if isFixed c then cell_value c = Some (NumV n) else cell_value c = None))"

definition symbolCell :: "cell_map \<Rightarrow> string \<Rightarrow> string \<Rightarrow> cell_type \<Rightarrow> string \<Rightarrow> bool" where
  "symbolCell cs ident k t v =
     (case map_of cs k of
        None \<Rightarrow> False
      | Some c \<Rightarrow> cell_id c = k \<and> cell_type c = t \<and> belongsToEquation c = [ident] \<and>
                  isFixed c \<and> cell_value c = Some (StrV v))"

definition isBlank :: "cell_map \<Rightarrow> string \<Rightarrow> bool" where
  "isBlank cs k = (case map_of cs k of None \<Rightarrow> False | Some c \<Rightarrow> \<not> isFixed c)"

text \<open>
  An equation of a generated board: it occupies its strip; its expression is the template
  filled with an operator and three numbers that satisfy the operator; its five cells are
  written for it, with at most one of the three numbers given.
\<close>

definition equation_ok :: "int \<times> int \<Rightarrow> cell_map \<Rightarrow> Equation \<Rightarrow> bool" where
  "equation_ok dims cs e =
     (occupiesStrip dims e \<and>
      (\<exists>op n1 n2 r.
         op \<in> {''+'', ''-'', ''*'', ''/''} \<and> 0 \<le> n1 \<and> 0 \<le> n2 \<and> 0 \<le> r \<and>
         operatorHolds op n1 n2 r \<and>
         expression e = expressionOf n1 op n2 r \<and>
         numberCell cs (eq_id e) (eq_cells e ! 0) n1 \<and>
         symbolCell cs (eq_id e) (eq_cells e ! 1) TOperator op \<and>
         numberCell cs (eq_id e) (eq_cells e ! 2) n2 \<and>
         symbolCell cs (eq_id e) (eq_cells e ! 3) TEquals ''='' \<and>
         numberCell cs (eq_id e) (eq_cells e ! 4) r \<and>
         2 \<le> length (filter (isBlank cs) [eq_cells e ! 0, eq_cells e ! 2, eq_cells e ! 4])))"

text \<open>The ids in use after \<open>n\<close> equations, with the simple ones numbered below \<open>bound\<close>.\<close>

definition knownIds :: "nat \<Rightarrow> nat \<Rightarrow> string set" where
  "knownIds n bound =
     {''eq-'' @ show_nat k | k. 1 \<le> k \<and> k \<le> n} \<union> {''simple-'' @ show_nat j | j. j < bound}"

definition gridIds :: "int \<Rightarrow> int \<Rightarrow> string list" where
  "gridIds w h = map (\<lambda>p. cellIdOf (fst p) (snd p)) (gridCoordinates w h)"

text \<open>
  What holds of the generator object between placements: the cell map has one cell per
  coordinate of the grid; every equation is as above; ids are distinct; the occupied ids
  are the cells of the equations; an unoccupied cell is as \<open>reset\<close> made it.
\<close>

definition gen_inv :: "nat \<Rightarrow> PuzzleGenerator \<Rightarrow> bool" where
  "gen_inv bound g =
     (6 \<le> width g \<and> 6 \<le> height g \<and>
      map fst (gen_cells g) = gridIds (width g) (height g) \<and>
      (\<forall>e \<in> set (gen_equations g). equation_ok (gen_gridSize g) (gen_cells g) e) \<and>
      distinct (map eq_id (gen_equations g)) \<and>
      usedPositions g = (\<Union>e \<in> set (gen_equations g). set (eq_cells e)) \<and>
      (\<forall>p \<in> set (gridCoordinates (width g) (height g)).
         cellIdOf (fst p) (snd p) \<notin> usedPositions g \<longrightarrow>
         map_of (gen_cells g) (cellIdOf (fst p) (snd p)) = Some (emptyCell (fst p) (snd p))) \<and>
      (\<forall>e \<in> set (gen_equations g). eq_id e \<in> knownIds (length (gen_equations g)) bound))"

text \<open>The \<open>positions\<close> array of a strip after the hint is applied.\<close>

definition numberSlot :: "Slot \<Rightarrow> int \<Rightarrow> bool" where
  "numberSlot p n =
     (slot_type p = TNumber \<and>
      (if slot_fixed p then slot_value p = Some (NumV n) else slot_value p = None))"

definition symbolSlot :: "Slot \<Rightarrow> cell_type \<Rightarrow> string \<Rightarrow> bool" where
  "symbolSlot p t v = (slot_type p = t \<and> slot_fixed p \<and> slot_value p = Some (StrV v))"

definition slots_ok :: "bool \<Rightarrow> int \<times> int \<Rightarrow> string \<Rightarrow> int \<Rightarrow> int \<Rightarrow> int \<Rightarrow> Slot list \<Rightarrow> bool" where
  "slots_ok horizontal start op n1 n2 r ps =
     (map (\<lambda>p. (slot_x p, slot_y p)) ps = stripCoordinates horizontal start \<and>
      numberSlot (ps ! 0) n1 \<and> symbolSlot (ps ! 1) TOperator op \<and> numberSlot (ps ! 2) n2 \<and>
      symbolSlot (ps ! 3) TEquals ''='' \<and> numberSlot (ps ! 4) r \<and>
      2 \<le> length (filter (\<lambda>p. \<not> slot_fixed p) [ps ! 0, ps ! 2, ps ! 4]))"


text \<open>
  From \<open>g\<close> to \<open>g'\<close> the configuration is kept and no equation is lost.
\<close>

definition grown :: "PuzzleGenerator \<Rightarrow> PuzzleGenerator \<Rightarrow> bool" where
  "grown g g' =
     (gen_gridSize g' = gen_gridSize g \<and> gen_equationCount g' = gen_equationCount g \<and>
      length (gen_equations g) \<le> length (gen_equations g'))"

subsection \<open>Predicates on the board handed out\<close>

text \<open>The cell ids claimed by the equations of a board, equation after equation.\<close>

definition claimedIds :: "GameBoard \<Rightarrow> string list" where
  "claimedIds b = concat (map (\<lambda>(k, e). eq_cells e) (equations b))"

text \<open>
  Every equation lies on its strip of five cells inside the grid, and each of its cells is in
  the cell map, written (no longer of type \<open>empty\<close>) for this equation alone.
\<close>

definition stripsWritten :: "GameBoard \<Rightarrow> bool" where
  "stripsWritten b =
     list_all (\<lambda>(k, e).
        occupiesStrip (gridSize b) e \<and>
        list_all (\<lambda>c. case map_of (cells b) c of
                         None \<Rightarrow> False
                       | Some cell \<Rightarrow> belongsToEquation cell = [eq_id e] \<and>
                                      cell_type cell \<noteq> TEmpty)
                 (eq_cells e))
       (equations b)"

text \<open>Every cell that no equation claims is as \<open>reset\<close> made it.\<close>

definition othersUntouched :: "GameBoard \<Rightarrow> bool" where
  "othersUntouched b =
     list_all (\<lambda>(k, cell). k \<in> set (claimedIds b) \<or>
                            cell = emptyCell (fst (position cell)) (snd (position cell)))
       (cells b)"

text \<open>
  No reference dangles: an equation is stored under its id and each of its cells is a cell
  of the map that lists the equation; a cell is stored under its id and each equation it
  lists is an equation of the map that contains the cell.
\<close>

definition referencesResolve :: "GameBoard \<Rightarrow> bool" where
  "referencesResolve b =
     (list_all (\<lambda>(k, e).
         k = eq_id e \<and>
         list_all (\<lambda>c. case map_of (cells b) c of
                          None \<Rightarrow> False
                        | Some cell \<Rightarrow> eq_id e \<in> set (belongsToEquation cell))
                  (eq_cells e))
        (equations b) \<and>
      list_all (\<lambda>(k, cell).
         k = cell_id cell \<and>
         list_all (\<lambda>i. case map_of (equations b) i of
                          None \<Rightarrow> False
                        | Some e \<Rightarrow> k \<in> set (eq_cells e))
                  (belongsToEquation cell))
        (cells b))"

text \<open>
  On the easy grid with the earlier generator: the invariant holds and every equation is
  horizontal.
\<close>

definition easy_rows :: "PuzzleGenerator \<Rightarrow> bool" where
  "easy_rows g =
     (gen_inv 0 g \<and> gen_gridSize g = (8, 6) \<and> gen_equationCount g = 10 \<and>
      list_all isHorizontal (gen_equations g))"

subsection \<open>Solving a generated game\<close>

text \<open>The blank cells of a board (number cells that are not given), in the order of the cell map.\<close>

definition blankCells :: "GameBoard \<Rightarrow> string list" where
  "blankCells b =
     map fst (filter (\<lambda>(k, cell). cell_type cell = TNumber \<and> \<not> isFixed cell) (cells b))"

text \<open>
  What a cell holds once every blank cell has the first number \<open>generateAvailableNumbers\<close>
  derives for it: a blank cell that number, any other cell what the board gives it.
\<close>

definition wanted :: "GameBoard \<Rightarrow> string \<Rightarrow> cell_value option" where
  "wanted b k =
     (case map_of (cells b) k of
        None \<Rightarrow> None
      | Some cell \<Rightarrow>
          if cell_type cell = TNumber \<and> \<not> isFixed cell
          then (case neededOfCell b cell of [] \<Rightarrow> None | v # vs \<Rightarrow> Some (NumV v))
          else cell_value cell)"

text \<open>The calls \<open>placeTile(tileId, cellId)\<close> of a plan, one after the other: did all return true?\<close>

fun placeAll :: "(string \<times> string) list \<Rightarrow> GameState option \<Rightarrow> bool \<times> GameState option" where
  "placeAll [] gs = (True, gs)"
| "placeAll ((tid, cid) # rest) gs =
     (case placeTile 0 tid cid gs of
        (ok, gs1) \<Rightarrow> (case placeAll rest gs1 of (oks, gs2) \<Rightarrow> (ok \<and> oks, gs2)))"

text \<open>The value of the tile with an id, in a hand.\<close>

definition tileValue :: "GameState \<Rightarrow> string \<Rightarrow> int option" where
  "tileValue s tid = map_option tile_value (find_tile tid (availableNumbers s))"

text \<open>
  State \<open>a\<close> has the grid of state \<open>b\<close>: the same equations up to their flags, the same
  cell ids, and every cell its type and its given-flag.
\<close>

definition same_grid :: "GameState \<Rightarrow> GameState \<Rightarrow> bool" where
  "same_grid a b =
     (map (\<lambda>(k, eq). (k, unflag eq)) (equations (board a)) =
        map (\<lambda>(k, eq). (k, unflag eq)) (equations (board b)) \<and>
      map fst (cells (board a)) = map fst (cells (board b)) \<and>
      (\<forall>cid. map_option cell_type (map_of (cells (board a)) cid) =
             map_option cell_type (map_of (cells (board b)) cid)) \<and>
      (\<forall>cid. map_option isFixed (map_of (cells (board a)) cid) =
             map_option isFixed (map_of (cells (board b)) cid)))"
section \<open>Properties\<close>

subsection \<open>Re-validation: score and frame\<close>

lemma checkEquation_score:
  "checkEquation eq cs sc = (eq', cs', sc') \<Longrightarrow> sc \<le> sc'"
  by (auto simp: checkEquation_def Let_def BASE_POINTS_def split: if_splits)

lemma checkEquations_loop_score:
  "checkEquations_loop eqs cs sc = (eqs', cs', sc') \<Longrightarrow> sc \<le> sc'"
proof (induction eqs arbitrary: cs sc eqs' cs' sc')
  case Nil
  then show ?case by simp
next
  case (Cons p eqs)
  obtain k eq where p: "p = (k, eq)" by (cases p)
  obtain e1 c1 s1 where st: "checkEquation eq cs sc = (e1, c1, s1)"
    by (cases "checkEquation eq cs sc") auto
  obtain r2 c2 s2 where lp: "checkEquations_loop eqs c1 s1 = (r2, c2, s2)"
    by (cases "checkEquations_loop eqs c1 s1") auto
  from Cons.prems p st lp have "sc' = s2" by simp
  moreover have "sc \<le> s1" using st by (rule checkEquation_score)
  moreover have "s1 \<le> s2" using lp by (rule Cons.IH)
  ultimately show ?case by simp
qed

lemma checkEquations_frame [simp]:
  "moves (checkEquations s) = moves s"
  "availableNumbers (checkEquations s) = availableNumbers s"
  "hints (checkEquations s) = hints s"
  "isComplete (checkEquations s) = isComplete s"
  "config (checkEquations s) = config s"
  "timeElapsed (checkEquations s) = timeElapsed s"
  by (simp_all add: checkEquations_def split: prod.splits)

lemma checkEquations_score: "currentScore s \<le> currentScore (checkEquations s)"
  by (auto simp: checkEquations_def split: prod.splits dest: checkEquations_loop_score)

lemma completeGame_score: "currentScore s \<le> currentScore (completeGame s)"
  by (cases "level (config s)")
     (simp_all add: completeGame_def Let_def BASE_POINTS_def TIME_BONUS_MULTIPLIER_def
        DIFFICULTY_MULTIPLIER_def)

lemma checkGameCompletion_score: "currentScore s \<le> currentScore (checkGameCompletion s)"
  by (simp add: checkGameCompletion_def completeGame_score)

lemma setters_score [simp]:
  "currentScore (setTileUsed tid b s) = currentScore s"
  "currentScore (setCellValue cid v s) = currentScore s"
  "currentScore (pushMove m s) = currentScore s"
  by (simp_all add: setTileUsed_def setCellValue_def pushMove_def)

lemma placeTile_score:
  "placeTile now tid cid (Some s) = (ok, gs') \<Longrightarrow> \<exists>s'. gs' = Some s' \<and> currentScore s \<le> currentScore s'"
  unfolding placeTile_def Let_def
  apply (auto split: if_splits option.splits)
  apply (rule order_trans[OF _ checkGameCompletion_score])
  apply (rule order_trans[OF _ checkEquations_score])
  apply simp
  done

subsection \<open>Re-validation: what it writes\<close>

lemma map_of_mutate:
  "map_of (mutate k f cs) = (map_of cs)(k := map_option f (map_of cs k))"
  by (induction cs) (auto simp: fun_eq_iff)

lemma map_fst_mutate [simp]: "map fst (mutate k f cs) = map fst cs"
  by (induction cs) auto

lemma strip_mutate_isCorrect [simp]:
  "strip (mutate k (\<lambda>c. c\<lparr>isCorrect := v\<rparr>) cs) = strip cs"
  by (induction cs) (auto simp: strip_def)

lemma strip_markCells [simp]: "strip (markCells v ids cs) = strip cs"
proof -
  have "strip (foldl (\<lambda>acc cid. case map_of acc cid of
                         None \<Rightarrow> acc
                       | Some c \<Rightarrow> if cell_type c = TNumber
                                   then mutate cid (\<lambda>c. c\<lparr>isCorrect := Some v\<rparr>) acc else acc)
           cs ids) = strip cs"
    by (induction ids arbitrary: cs) (auto split: option.splits)
  then show ?thesis by (simp add: markCells_def)
qed

lemma map_of_strip: "map_of (strip cs) k = map_option (\<lambda>c. c\<lparr>isCorrect := None\<rparr>) (map_of cs k)"
  unfolding strip_def by (induction cs) auto

lemma strip_eq_value:
  assumes "strip cs = strip cs'"
  shows "map_option cell_value (map_of cs k) = map_option cell_value (map_of cs' k)"
    and "map_option cell_type (map_of cs k) = map_option cell_type (map_of cs' k)"
    and "map_option isFixed (map_of cs k) = map_option isFixed (map_of cs' k)"
    and "map_option cell_id (map_of cs k) = map_option cell_id (map_of cs' k)"
    and "map_option belongsToEquation (map_of cs k) = map_option belongsToEquation (map_of cs' k)"
proof -
  have e: "map_option (\<lambda>c. c\<lparr>isCorrect := None\<rparr>) (map_of cs k)
         = map_option (\<lambda>c. c\<lparr>isCorrect := None\<rparr>) (map_of cs' k)"
    using assms map_of_strip by metis
  show "map_option cell_value (map_of cs k) = map_option cell_value (map_of cs' k)"
    using arg_cong[OF e, of "map_option cell_value"] by (simp add: option.map_comp comp_def)
  show "map_option cell_type (map_of cs k) = map_option cell_type (map_of cs' k)"
    using arg_cong[OF e, of "map_option cell_type"] by (simp add: option.map_comp comp_def)
  show "map_option isFixed (map_of cs k) = map_option isFixed (map_of cs' k)"
    using arg_cong[OF e, of "map_option isFixed"] by (simp add: option.map_comp comp_def)
  show "map_option cell_id (map_of cs k) = map_option cell_id (map_of cs' k)"
    using arg_cong[OF e, of "map_option cell_id"] by (simp add: option.map_comp comp_def)
  show "map_option belongsToEquation (map_of cs k) = map_option belongsToEquation (map_of cs' k)"
    using arg_cong[OF e, of "map_option belongsToEquation"] by (simp add: option.map_comp comp_def)
qed

lemma isEquationComplete_alt:
  "isEquationComplete cs eq =
     list_all (\<lambda>cid. case (map_option cell_value (map_of cs cid), map_option cell_type (map_of cs cid)) of
                 (Some v, Some t) \<Rightarrow> v \<noteq> None \<or> t = TOperator \<or> t = TEquals
               | _ \<Rightarrow> False) (eq_cells eq)"
  unfolding isEquationComplete_def
  by (rule arg_cong[where f="\<lambda>P. list_all P (eq_cells eq)"]) (auto simp: fun_eq_iff split: option.splits)

lemma valueAt_alt:
  "valueAt cs eq i = (case nth_opt (eq_cells eq) i of None \<Rightarrow> None
      | Some cid \<Rightarrow> (case map_option cell_value (map_of cs cid) of None \<Rightarrow> None | Some v \<Rightarrow> v))"
  by (auto simp: valueAt_def split: option.splits)

lemma strip_eq_complete:
  assumes "strip cs = strip cs'"
  shows "isEquationComplete cs eq = isEquationComplete cs' eq"
  unfolding isEquationComplete_alt
  using strip_eq_value(1,2)[OF assms] by presburger

lemma strip_eq_valueAt:
  assumes "strip cs = strip cs'"
  shows "valueAt cs eq i = valueAt cs' eq i"
  unfolding valueAt_alt
  using strip_eq_value(1)[OF assms] by presburger

lemma strip_eq_validate:
  assumes "strip cs = strip cs'"
  shows "validateEquation cs eq = validateEquation cs' eq"
  unfolding validateEquation_def
  using strip_eq_valueAt[OF assms] by presburger

lemma strip_eq_recompute:
  assumes "strip cs = strip cs'"
  shows "recompute cs eq = recompute cs' eq"
  unfolding recompute_def
  using strip_eq_validate[OF assms] strip_eq_complete[OF assms] by presburger

lemma checkEquation_spec:
  "checkEquation eq cs sc = (eq', cs', sc') \<Longrightarrow> strip cs' = strip cs \<and> eq' = recompute cs eq"
  by (auto simp: checkEquation_def Let_def recompute_def)

lemma checkEquations_loop_spec:
  "checkEquations_loop eqs cs sc = (eqs', cs', sc') \<Longrightarrow>
     strip cs' = strip cs \<and> eqs' = map (\<lambda>(k, eq). (k, recompute cs eq)) eqs"
proof (induction eqs arbitrary: cs sc eqs' cs' sc')
  case Nil
  then show ?case by simp
next
  case (Cons p eqs)
  obtain k eq where p: "p = (k, eq)" by (cases p)
  obtain e1 c1 s1 where st: "checkEquation eq cs sc = (e1, c1, s1)"
    by (cases "checkEquation eq cs sc") auto
  obtain r2 c2 s2 where lp: "checkEquations_loop eqs c1 s1 = (r2, c2, s2)"
    by (cases "checkEquations_loop eqs c1 s1") auto
  from Cons.prems p st lp have res: "eqs' = (k, e1) # r2" "cs' = c2" by simp_all
  from checkEquation_spec[OF st] have a: "strip c1 = strip cs" "e1 = recompute cs eq" by simp_all
  from Cons.IH[OF lp] have b: "strip c2 = strip c1" "r2 = map (\<lambda>(k, eq). (k, recompute c1 eq)) eqs"
    by simp_all
  have "r2 = map (\<lambda>(k, eq). (k, recompute cs eq)) eqs"
    using b(2) strip_eq_recompute[OF a(1)] by simp
  with res a b p show ?case by simp
qed

lemma checkEquations_board:
  "strip (cells (board (checkEquations s))) = strip (cells (board s))"
  "equations (board (checkEquations s)) =
     map (\<lambda>(k, eq). (k, recompute (cells (board s)) eq)) (equations (board s))"
  "gridSize (board (checkEquations s)) = gridSize (board s)"
  by (auto simp: checkEquations_def split: prod.splits dest: checkEquations_loop_spec)

lemma recompute_same_cells [simp]:
  "eq_cells (recompute cs eq) = eq_cells eq"
  by (simp add: recompute_def)

lemma complete_recompute [simp]:
  "isEquationComplete cs' (recompute cs eq) = isEquationComplete cs' eq"
  by (simp add: isEquationComplete_def)

lemma valueAt_recompute [simp]:
  "valueAt cs' (recompute cs eq) i = valueAt cs' eq i"
  by (simp add: valueAt_def)

lemma validate_recompute [simp]:
  "validateEquation cs' (recompute cs eq) = validateEquation cs' eq"
  unfolding validateEquation_def valueAt_recompute ..

lemma allEquationsValid_checkEquations:
  "allEquationsValid (checkEquations s) = solved (checkEquations s)"
proof -
  let ?cs = "cells (board s)" and ?cs' = "cells (board (checkEquations s))"
  have st: "strip ?cs' = strip ?cs" by (rule checkEquations_board)
  have r: "\<And>eq. recompute ?cs eq = recompute ?cs' eq"
    using strip_eq_recompute[OF st] by simp
  show ?thesis
    unfolding allEquationsValid_def solved_def checkEquations_board(2)
    by (simp add: list_all_iff r split_beta) (auto simp: recompute_def)
qed

lemma solved_checkEquations: "solved (checkEquations s) = solved s"
proof -
  let ?cs = "cells (board s)" and ?cs' = "cells (board (checkEquations s))"
  have st: "strip ?cs' = strip ?cs" by (rule checkEquations_board)
  show ?thesis
    unfolding solved_def checkEquations_board(2)
    by (simp add: list_all_iff split_beta strip_eq_complete[OF st] strip_eq_validate[OF st])
qed

subsection \<open>The score under the calls\<close>

lemma removeTile_score:
  "removeTile now cid (Some s) = (ok, gs') \<Longrightarrow> \<exists>s'. gs' = Some s' \<and> currentScore s \<le> currentScore s'"
  unfolding removeTile_def Let_def
  apply (auto split: if_splits option.splits)
  apply (rule order_trans[OF _ checkEquations_score])
  apply simp
  done

lemma undoLastMove_score:
  "undoLastMove (Some s) = (ok, gs') \<Longrightarrow> \<exists>s'. gs' = Some s' \<and> currentScore s \<le> currentScore s'"
  unfolding undoLastMove_def Let_def
  apply (auto split: if_splits option.splits move_type.splits)
  apply (rule order_trans[OF _ checkEquations_score], simp)+
  done

lemma exec_score:
  "\<not> is_hint c \<Longrightarrow> \<exists>s'. exec c (Some s) = Some s' \<and> currentScore s \<le> currentScore s'"
proof (cases c)
  case (PlaceTile now tid cid)
  then show ?thesis
    using placeTile_score[of now tid cid s "fst (placeTile now tid cid (Some s))" "snd (placeTile now tid cid (Some s))"]
    by simp
next
  case (RemoveTile now cid)
  then show ?thesis
    using removeTile_score[of now cid s "fst (removeTile now cid (Some s))" "snd (removeTile now cid (Some s))"]
    by simp
next
  case UndoLastMove
  then show ?thesis
    using undoLastMove_score[of s "fst (undoLastMove (Some s))" "snd (undoLastMove (Some s))"]
    by simp
next
  case (GetHint u)
  assume "\<not> is_hint c"
  with GetHint show ?thesis by simp
qed

lemma run_score:
  "\<forall>c \<in> set cmds. \<not> is_hint c \<Longrightarrow> \<exists>s'. run cmds (Some s) = Some s' \<and> currentScore s \<le> currentScore s'"
proof (induction cmds arbitrary: s)
  case Nil
  then show ?case by (simp add: run_def)
next
  case (Cons c cmds)
  then obtain s1 where s1: "exec c (Some s) = Some s1" "currentScore s \<le> currentScore s1"
    using exec_score[of c s] by auto
  from Cons obtain s2 where "run cmds (Some s1) = Some s2" "currentScore s1 \<le> currentScore s2"
    by fastforce
  with s1 show ?case by (auto simp: run_def)
qed

lemma getHint_cases:
  "getHint u (Some s) = (h, gs') \<Longrightarrow>
     (h = None \<and> gs' = Some s) \<or>
     (h \<noteq> None \<and> 0 < hints s \<and> unfilledCells s \<noteq> [] \<and>
      gs' = Some (s\<lparr>hints := hints s - 1, currentScore := max 0 (currentScore s - HINT_PENALTY)\<rparr>))"
  unfolding getHint_def Let_def
  by (auto split: if_splits option.splits)

subsection \<open>Tiles and cell values under the setters\<close>

lemma find_tile_set_used:
  "find_tile tid (set_used tid' b ts) =
     (if tid = tid' then map_option (\<lambda>t. t\<lparr>isUsed := b\<rparr>) (find_tile tid ts) else find_tile tid ts)"
  by (induction ts) (auto simp: find_tile_def)

lemma find_tile_set_used_value:
  "map_option tile_value (find_tile tid (set_used tid' b ts)) = map_option tile_value (find_tile tid ts)"
  by (cases "find_tile tid ts") (auto simp: find_tile_set_used)

lemma find_tile_set_used_None [simp]:
  "find_tile tid (set_used tid' b ts) = None \<longleftrightarrow> find_tile tid ts = None"
  by (simp add: find_tile_set_used)

lemma valueOf_strip: "valueOf (strip cs) cid = valueOf cs cid"
  by (simp add: valueOf_def map_of_strip split: option.splits)

lemma strip_eq_valueOf: "strip cs = strip cs' \<Longrightarrow> valueOf cs cid = valueOf cs' cid"
  by (metis valueOf_strip)

lemma map_fst_strip [simp]: "map fst (strip cs) = map fst cs"
  by (simp add: strip_def split_beta)

lemma strip_eq_keys: "strip cs = strip cs' \<Longrightarrow> map fst cs = map fst cs'"
  by (metis map_fst_strip)

lemma map_of_None_keys: "map_of cs k = None \<longleftrightarrow> k \<notin> set (map fst cs)"
  by (simp add: map_of_eq_None_iff)

lemma valueOf_mutate:
  "valueOf (mutate cid (\<lambda>c. c\<lparr>cell_value := v\<rparr>) cs) cid' =
     (if cid' = cid \<and> cid \<in> set (map fst cs) then v else valueOf cs cid')"
  by (auto simp: valueOf_def map_of_mutate map_of_None_keys split: option.splits)
     (metis map_of_eq_None_iff option.distinct(1))+

subsection \<open>Effects of the calls\<close>

lemma placeTile_success:
  assumes "placeTile now tid cid (Some s) = (True, gs')"
  shows "\<exists>tile cell. find_tile tid (availableNumbers s) = Some tile \<and>
           map_of (cells (board s)) cid = Some cell \<and>
           \<not> isUsed tile \<and> \<not> isFixed cell \<and> cell_type cell = TNumber \<and> \<not> isComplete s \<and>
           gs' = Some (checkGameCompletion (checkEquations
                   (pushMove \<lparr>move_type = MPlace, tileId = tid, cellId = cid, timestamp = now\<rparr>
                     (setCellValue cid (Some (NumV (tile_value tile))) (setTileUsed tid True s)))))"
  using assms unfolding placeTile_def Let_def
  by (auto split: if_splits option.splits)

lemma placeTile_failure:
  "placeTile now tid cid gs = (False, gs') \<Longrightarrow> gs' = gs"
  unfolding placeTile_def Let_def
  by (auto split: if_splits option.splits)

lemma removeTile_success:
  assumes "removeTile now cid (Some s) = (True, gs')"
  shows "\<exists>cell lastMove tile. map_of (cells (board s)) cid = Some cell \<and>
           \<not> isFixed cell \<and> cell_value cell \<noteq> None \<and> \<not> isComplete s \<and>
           lastPlace cid (moves s) = Some lastMove \<and>
           find_tile (tileId lastMove) (availableNumbers s) = Some tile \<and>
           gs' = Some (checkEquations
                   (pushMove \<lparr>move_type = MRemove, tileId = tileId lastMove, cellId = cid, timestamp = now\<rparr>
                     (setCellValue cid None (setTileUsed (tileId lastMove) False s))))"
  using assms unfolding removeTile_def Let_def lastPlace_def
  by (auto split: if_splits option.splits)

lemma removeTile_failure:
  "removeTile now cid gs = (False, gs') \<Longrightarrow> gs' = gs"
  unfolding removeTile_def Let_def
  by (auto split: if_splits option.splits)

lemma undoLastMove_eq:
  "undoLastMove (Some s) =
     (if moves s = [] then (False, Some s) else (True, Some (checkEquations (undoEffect s))))"
  by (simp add: undoLastMove_def undoEffect_def Let_def)

lemma undoLastMove_None [simp]: "undoLastMove None = (False, None)"
  by (simp add: undoLastMove_def)

lemma lastPlace_snoc [simp]:
  "lastPlace cid (ms @ [m]) =
     (if move_type m = MPlace \<and> cellId m = cid then Some m else lastPlace cid ms)"
  by (simp add: lastPlace_def)

lemma lastPlace_butlast:
  "ms \<noteq> [] \<Longrightarrow> \<not> (move_type (last ms) = MPlace \<and> cellId (last ms) = cid) \<Longrightarrow>
     lastPlace cid (butlast ms) = lastPlace cid ms"
proof -
  assume a: "ms \<noteq> []" "\<not> (move_type (last ms) = MPlace \<and> cellId (last ms) = cid)"
  have "lastPlace cid ms = lastPlace cid (butlast ms @ [last ms])" using a(1) by simp
  also have "\<dots> = lastPlace cid (butlast ms)" using a(2) by (simp only: lastPlace_snoc if_False)
  finally show ?thesis by simp
qed

lemma cells_match_alt:
  "cells_match s \<longleftrightarrow>
     (\<forall>cid v p t. cid \<in> set (map fst (cells (board s))) \<longrightarrow>
        valueOf (cells (board s)) cid = Some v \<longrightarrow> lastPlace cid (moves s) = Some p \<longrightarrow>
        find_tile (tileId p) (availableNumbers s) = Some t \<longrightarrow> v = NumV (tile_value t))"
  unfolding cells_match_def
  by (auto split: option.splits)

lemma moves_known_alt:
  "moves_known s \<longleftrightarrow>
     (\<forall>m \<in> set (moves s). find_tile (tileId m) (availableNumbers s) \<noteq> None \<and>
                           cellId m \<in> set (map fst (cells (board s))))"
  unfolding moves_known_def list_all_iff by (simp add: map_of_None_keys)

lemma consistent_cong:
  assumes "map fst (cells (board s')) = map fst (cells (board s))"
    and "\<And>cid. valueOf (cells (board s')) cid = valueOf (cells (board s)) cid"
    and "availableNumbers s' = availableNumbers s"
    and "moves s' = moves s"
  shows "consistent s' = consistent s"
  unfolding consistent_def cells_match_alt moves_known_alt using assms by simp

lemma consistent_checkEquations [simp]: "consistent (checkEquations s) = consistent s"
  by (rule consistent_cong)
     (simp_all add: strip_eq_keys[OF checkEquations_board(1)] strip_eq_valueOf[OF checkEquations_board(1)])

lemma checkGameCompletion_frame [simp]:
  "board (checkGameCompletion s) = board s"
  "availableNumbers (checkGameCompletion s) = availableNumbers s"
  "moves (checkGameCompletion s) = moves s"
  "hints (checkGameCompletion s) = hints s"
  "config (checkGameCompletion s) = config s"
  "timeElapsed (checkGameCompletion s) = timeElapsed s"
  by (simp_all add: checkGameCompletion_def completeGame_def Let_def)

lemma consistent_checkGameCompletion [simp]: "consistent (checkGameCompletion s) = consistent s"
  by (rule consistent_cong) simp_all

lemma setters_frame [simp]:
  "moves (setTileUsed tid b s) = moves s"
  "board (setTileUsed tid b s) = board s"
  "availableNumbers (setTileUsed tid b s) = set_used tid b (availableNumbers s)"
  "isComplete (setTileUsed tid b s) = isComplete s"
  "hints (setTileUsed tid b s) = hints s"
  "moves (setCellValue cid v s) = moves s"
  "availableNumbers (setCellValue cid v s) = availableNumbers s"
  "cells (board (setCellValue cid v s)) = mutate cid (\<lambda>c. c\<lparr>cell_value := v\<rparr>) (cells (board s))"
  "equations (board (setCellValue cid v s)) = equations (board s)"
  "isComplete (setCellValue cid v s) = isComplete s"
  "hints (setCellValue cid v s) = hints s"
  "moves (pushMove m s) = moves s @ [m]"
  "board (pushMove m s) = board s"
  "availableNumbers (pushMove m s) = availableNumbers s"
  "isComplete (pushMove m s) = isComplete s"
  "hints (pushMove m s) = hints s"
  by (simp_all add: setTileUsed_def setCellValue_def pushMove_def)

lemma consistent_place:
  assumes c: "consistent s"
    and t: "find_tile tid (availableNumbers s) = Some tile"
    and k: "cid \<in> set (map fst (cells (board s)))"
  shows "consistent (pushMove \<lparr>move_type = MPlace, tileId = tid, cellId = cid, timestamp = now\<rparr>
                      (setCellValue cid (Some (NumV (tile_value tile))) (setTileUsed tid True s)))"
    (is "consistent ?s'")
proof -
  have mk: "moves_known ?s'"
    using c t k unfolding consistent_def moves_known_alt by auto
  have lk: "log_ok (rev (moves ?s'))"
    using c unfolding consistent_def by simp
  have cm: "cells_match ?s'"
    unfolding cells_match_alt
  proof (intro allI impI)
    fix cid' v p t'
    assume k': "cid' \<in> set (map fst (cells (board ?s')))"
      and v: "valueOf (cells (board ?s')) cid' = Some v"
      and p: "lastPlace cid' (moves ?s') = Some p"
      and t': "find_tile (tileId p) (availableNumbers ?s') = Some t'"
    show "v = NumV (tile_value t')"
    proof (cases "cid' = cid")
      case True
      then have "v = NumV (tile_value tile)" using v k by (simp add: valueOf_mutate)
      moreover have "tileId p = tid" using p True by auto
      then have "tile_value t' = tile_value tile"
        using t' t find_tile_set_used_value[of tid tid True "availableNumbers s"] by simp
      ultimately show ?thesis by simp
    next
      case False
      then have v0: "valueOf (cells (board s)) cid' = Some v" using v by (simp add: valueOf_mutate)
      have p0: "lastPlace cid' (moves s) = Some p" using p False by simp
      obtain t0 where t0: "find_tile (tileId p) (availableNumbers s) = Some t0"
        "tile_value t0 = tile_value t'"
        using t' find_tile_set_used_value[of "tileId p" tid True "availableNumbers s"]
        by (cases "find_tile (tileId p) (availableNumbers s)") auto
      have "cid' \<in> set (map fst (cells (board s)))" using k' by simp
      with c v0 p0 t0 show ?thesis unfolding consistent_def cells_match_alt by metis
    qed
  qed
  show ?thesis using mk lk cm by (simp add: consistent_def)
qed

lemma lastPlace_is_place:
  "lastPlace cid ms = Some p \<Longrightarrow> move_type p = MPlace \<and> cellId p = cid \<and> p \<in> set ms"
proof -
  assume "lastPlace cid ms = Some p"
  then have f: "List.find (\<lambda>m. move_type m = MPlace \<and> cellId m = cid) (rev ms) = Some p"
    by (simp add: lastPlace_def)
  then obtain i where "i < length (rev ms)" "move_type (rev ms ! i) = MPlace \<and> cellId (rev ms ! i) = cid"
    "p = rev ms ! i"
    unfolding find_Some_iff by blast
  moreover from this have "p \<in> set (rev ms)" using nth_mem by blast
  ultimately show ?thesis by simp
qed

lemma consistent_remove:
  assumes c: "consistent s"
    and lp: "lastPlace cid (moves s) = Some lastMove"
    and k: "cid \<in> set (map fst (cells (board s)))"
  shows "consistent (pushMove \<lparr>move_type = MRemove, tileId = tileId lastMove, cellId = cid, timestamp = now\<rparr>
                      (setCellValue cid None (setTileUsed (tileId lastMove) False s)))"
    (is "consistent ?s'")
proof -
  have "lastMove \<in> set (moves s)" using lastPlace_is_place[OF lp] by simp
  then have mk: "moves_known ?s'"
    using c k unfolding consistent_def moves_known_alt by auto
  have lk: "log_ok (rev (moves ?s'))"
    using c lp unfolding consistent_def by (simp add: lastPlace_def)
  have cm: "cells_match ?s'"
    unfolding cells_match_alt
  proof (intro allI impI)
    fix cid' v p t'
    assume k': "cid' \<in> set (map fst (cells (board ?s')))"
      and v: "valueOf (cells (board ?s')) cid' = Some v"
      and p: "lastPlace cid' (moves ?s') = Some p"
      and t': "find_tile (tileId p) (availableNumbers ?s') = Some t'"
    have ne: "cid' \<noteq> cid" using v k by (auto simp: valueOf_mutate)
    then have v0: "valueOf (cells (board s)) cid' = Some v" using v by (simp add: valueOf_mutate)
    have p0: "lastPlace cid' (moves s) = Some p" using p by simp
    obtain t0 where t0: "find_tile (tileId p) (availableNumbers s) = Some t0"
      "tile_value t0 = tile_value t'"
      using t' find_tile_set_used_value[of "tileId p" "tileId lastMove" False "availableNumbers s"]
      by (cases "find_tile (tileId p) (availableNumbers s)") auto
    have "cid' \<in> set (map fst (cells (board s)))" using k' by simp
    with c v0 p0 t0 show "v = NumV (tile_value t')" unfolding consistent_def cells_match_alt by metis
  qed
  show ?thesis using mk lk cm by (simp add: consistent_def)
qed

subsection \<open>The board agrees with the log in every reachable state\<close>

lemma log_ok_butlast:
  assumes "ms \<noteq> []" "log_ok (rev ms)"
  shows "log_ok (rev (butlast ms))"
    and "move_type (last ms) = MRemove \<Longrightarrow>
           \<exists>p. lastPlace (cellId (last ms)) (butlast ms) = Some p \<and> tileId p = tileId (last ms)"
proof -
  have r: "rev ms = last ms # rev (butlast ms)"
    using assms(1) by (metis append_butlast_last_id rev.simps(2) rev_rev_ident rev_singleton_conv rev_append)
  from assms(2) r show "log_ok (rev (butlast ms))" by simp
  assume "move_type (last ms) = MRemove"
  with assms(2) r show "\<exists>p. lastPlace (cellId (last ms)) (butlast ms) = Some p \<and> tileId p = tileId (last ms)"
    by (auto simp: lastPlace_def split: option.splits)
qed

lemma consistent_undo:
  assumes c: "consistent s" and ne: "moves s \<noteq> []"
  shows "consistent (undoEffect s)"
proof -
  let ?m = "last (moves s)"
  let ?s0 = "s\<lparr>moves := butlast (moves s)\<rparr>"
  have min: "?m \<in> set (moves s)" using ne by simp
  then obtain tile where tile: "find_tile (tileId ?m) (availableNumbers s) = Some tile"
    using c unfolding consistent_def moves_known_alt by blast
  have key: "cellId ?m \<in> set (map fst (cells (board s)))"
    using c min unfolding consistent_def moves_known_alt by blast
  then obtain cell where cell: "map_of (cells (board s)) (cellId ?m) = Some cell"
    by (metis map_of_None_keys option.exhaust)
  have sub: "set (butlast (moves s)) \<subseteq> set (moves s)" by (meson in_set_butlastD subsetI)
  show ?thesis
  proof (cases "move_type ?m")
    case MPlace
    let ?s' = "setCellValue (cellId ?m) None (setTileUsed (tileId ?m) False ?s0)"
    have eq: "undoEffect s = ?s'"
      using tile cell MPlace by (simp add: undoEffect_def Let_def)
    have mk: "moves_known ?s'"
      using c sub unfolding consistent_def moves_known_alt by auto
    have lk: "log_ok (rev (moves ?s'))"
      using log_ok_butlast(1)[OF ne] c unfolding consistent_def by simp
    have cm: "cells_match ?s'"
      unfolding cells_match_alt
    proof (intro allI impI)
      fix cid' v p t'
      assume k': "cid' \<in> set (map fst (cells (board ?s')))"
        and v: "valueOf (cells (board ?s')) cid' = Some v"
        and p: "lastPlace cid' (moves ?s') = Some p"
        and t': "find_tile (tileId p) (availableNumbers ?s') = Some t'"
      have nc: "cid' \<noteq> cellId ?m" using v key by (auto simp: valueOf_mutate)
      then have v0: "valueOf (cells (board s)) cid' = Some v" using v by (simp add: valueOf_mutate)
      have p0: "lastPlace cid' (moves s) = Some p"
        using p lastPlace_butlast[OF ne, of cid'] nc by auto
      obtain t0 where t0: "find_tile (tileId p) (availableNumbers s) = Some t0"
        "tile_value t0 = tile_value t'"
        using t' find_tile_set_used_value[of "tileId p" "tileId ?m" False "availableNumbers s"]
        by (cases "find_tile (tileId p) (availableNumbers s)") auto
      have "cid' \<in> set (map fst (cells (board s)))" using k' by simp
      with c v0 p0 t0 show "v = NumV (tile_value t')" unfolding consistent_def cells_match_alt by metis
    qed
    show ?thesis using eq mk lk cm by (simp add: consistent_def)
  next
    case MRemove
    let ?s' = "setCellValue (cellId ?m) (Some (NumV (tile_value tile))) (setTileUsed (tileId ?m) True ?s0)"
    have eq: "undoEffect s = ?s'"
      using tile cell MRemove by (simp add: undoEffect_def Let_def)
    have mk: "moves_known ?s'"
      using c sub unfolding consistent_def moves_known_alt by auto
    have lok: "log_ok (rev (moves s))" using c by (simp add: consistent_def)
    have lk: "log_ok (rev (moves ?s'))"
      using log_ok_butlast(1)[OF ne lok] by simp
    obtain p' where p': "lastPlace (cellId ?m) (butlast (moves s)) = Some p'" "tileId p' = tileId ?m"
      using log_ok_butlast(2)[OF ne lok MRemove] by blast
    have cm: "cells_match ?s'"
      unfolding cells_match_alt
    proof (intro allI impI)
      fix cid' v p t'
      assume k': "cid' \<in> set (map fst (cells (board ?s')))"
        and v: "valueOf (cells (board ?s')) cid' = Some v"
        and p: "lastPlace cid' (moves ?s') = Some p"
        and t': "find_tile (tileId p) (availableNumbers ?s') = Some t'"
      show "v = NumV (tile_value t')"
      proof (cases "cid' = cellId ?m")
        case True
        then have "v = NumV (tile_value tile)" using v key by (simp add: valueOf_mutate)
        moreover have "p = p'" using p p' True by simp
        then have "tile_value t' = tile_value tile"
          using t' tile p'(2) find_tile_set_used_value[of "tileId ?m" "tileId ?m" True "availableNumbers s"]
          by simp
        ultimately show ?thesis by simp
      next
        case False
        then have v0: "valueOf (cells (board s)) cid' = Some v" using v by (simp add: valueOf_mutate)
        have p0: "lastPlace cid' (moves s) = Some p"
          using p lastPlace_butlast[OF ne, of cid'] MRemove by auto
        obtain t0 where t0: "find_tile (tileId p) (availableNumbers s) = Some t0"
          "tile_value t0 = tile_value t'"
          using t' find_tile_set_used_value[of "tileId p" "tileId ?m" True "availableNumbers s"]
          by (cases "find_tile (tileId p) (availableNumbers s)") auto
        have "cid' \<in> set (map fst (cells (board s)))" using k' by simp
        with c v0 p0 t0 show ?thesis unfolding consistent_def cells_match_alt by metis
      qed
    qed
    show ?thesis using eq mk lk cm by (simp add: consistent_def)
  qed
qed

lemma consistent_newGame: "consistent (newGame d b hand)"
  by (simp add: consistent_def newGame_def moves_known_def cells_match_alt lastPlace_def)

lemma consistent_exec:
  assumes "consistent s" "exec c (Some s) = Some s'"
  shows "consistent s'"
proof (cases c)
  case (PlaceTile now tid cid)
  show ?thesis
  proof (cases "fst (placeTile now tid cid (Some s))")
    case True
    then have "placeTile now tid cid (Some s) = (True, Some s')"
      using assms(2) PlaceTile by (metis exec.simps(1) prod.collapse)
    from placeTile_success[OF this] obtain tile cell where
      h: "find_tile tid (availableNumbers s) = Some tile" "map_of (cells (board s)) cid = Some cell"
      "s' = checkGameCompletion (checkEquations
                   (pushMove \<lparr>move_type = MPlace, tileId = tid, cellId = cid, timestamp = now\<rparr>
                     (setCellValue cid (Some (NumV (tile_value tile))) (setTileUsed tid True s))))"
      by auto
    have "cid \<in> set (map fst (cells (board s)))" using h(2) by (metis map_of_None_keys option.distinct(1))
    from consistent_place[OF assms(1) h(1) this] show ?thesis using h(3) by simp
  next
    case False
    then have "placeTile now tid cid (Some s) = (False, Some s')"
      using assms(2) PlaceTile by (metis exec.simps(1) prod.collapse)
    from placeTile_failure[OF this] assms(1) show ?thesis by simp
  qed
next
  case (RemoveTile now cid)
  show ?thesis
  proof (cases "fst (removeTile now cid (Some s))")
    case True
    then have "removeTile now cid (Some s) = (True, Some s')"
      using assms(2) RemoveTile by (metis exec.simps(2) prod.collapse)
    from removeTile_success[OF this] obtain cell lastMove where
      h: "map_of (cells (board s)) cid = Some cell" "lastPlace cid (moves s) = Some lastMove"
      "s' = checkEquations
                   (pushMove \<lparr>move_type = MRemove, tileId = tileId lastMove, cellId = cid, timestamp = now\<rparr>
                     (setCellValue cid None (setTileUsed (tileId lastMove) False s)))"
      by auto
    have "cid \<in> set (map fst (cells (board s)))" using h(1) by (metis map_of_None_keys option.distinct(1))
    from consistent_remove[OF assms(1) h(2) this] show ?thesis using h(3) by simp
  next
    case False
    then have "removeTile now cid (Some s) = (False, Some s')"
      using assms(2) RemoveTile by (metis exec.simps(2) prod.collapse)
    from removeTile_failure[OF this] assms(1) show ?thesis by simp
  qed
next
  case UndoLastMove
  then show ?thesis
    using assms consistent_undo[of s] by (auto simp: undoLastMove_eq split: if_splits)
next
  case (GetHint u)
  obtain h where g: "getHint u (Some s) = (h, Some s')"
    using GetHint assms(2) by (cases "getHint u (Some s)") simp
  from getHint_cases[OF g] show ?thesis
  proof
    assume "h = None \<and> Some s' = Some s"
    with assms(1) show ?thesis by simp
  next
    assume "h \<noteq> None \<and> 0 < hints s \<and> unfilledCells s \<noteq> [] \<and>
      Some s' = Some (s\<lparr>hints := hints s - 1, currentScore := max 0 (currentScore s - HINT_PENALTY)\<rparr>)"
    then have "s' = s\<lparr>hints := hints s - 1, currentScore := max 0 (currentScore s - HINT_PENALTY)\<rparr>"
      by simp
    then have "consistent s' = consistent s" by (intro consistent_cong) simp_all
    with assms(1) show ?thesis by simp
  qed
qed

lemma reachable_consistent: "reachable s \<Longrightarrow> consistent s"
proof (induction rule: reachable.induct)
  case (reachable_new difficulty b hand)
  show ?case by (rule consistent_newGame)
next
  case (reachable_exec s c s')
  then show ?case using consistent_exec by blast
next
  case (reachable_tick s t)
  have "consistent (s\<lparr>timeElapsed := t\<rparr>) = consistent s" by (intro consistent_cong) simp_all
  with reachable_tick show ?case by simp
qed

lemma set_used_twice [simp]: "set_used tid b (set_used tid b' ts) = set_used tid b ts"
  by (induction ts) auto

lemma valueOf_checkEquations [simp]:
  "valueOf (cells (board (checkEquations s))) cid = valueOf (cells (board s)) cid"
  by (rule strip_eq_valueOf[OF checkEquations_board(1)])

lemma keys_checkEquations [simp]:
  "map fst (cells (board (checkEquations s))) = map fst (cells (board s))"
  by (rule strip_eq_keys[OF checkEquations_board(1)])

lemma isUsed_set_used:
  "find_tile tid ts = Some t \<Longrightarrow> map_option isUsed (find_tile tid (set_used tid b ts)) = Some b"
  by (simp add: find_tile_set_used)

subsection \<open>Runs of calls\<close>

lemma exec_Some: "\<exists>s'. exec c (Some s) = Some s'"
proof (cases c)
  case (PlaceTile now tid cid)
  then show ?thesis
    using placeTile_score[of now tid cid s "fst (placeTile now tid cid (Some s))" "snd (placeTile now tid cid (Some s))"]
    by auto
next
  case (RemoveTile now cid)
  then show ?thesis
    using removeTile_score[of now cid s "fst (removeTile now cid (Some s))" "snd (removeTile now cid (Some s))"]
    by auto
next
  case UndoLastMove
  then show ?thesis by (simp add: undoLastMove_eq)
next
  case (GetHint u)
  then show ?thesis
    using getHint_cases[of u s "fst (getHint u (Some s))" "snd (getHint u (Some s))"] by auto
qed

lemma run_Cons: "run (c # cmds) gs = run cmds (exec c gs)"
  by (simp add: run_def)

lemma run_Nil [simp]: "run [] gs = gs"
  by (simp add: run_def)

lemma reachable_run:
  "reachable s \<Longrightarrow> \<exists>s'. run cmds (Some s) = Some s' \<and> reachable s'"
proof (induction cmds arbitrary: s)
  case Nil
  then show ?case by simp
next
  case (Cons c cmds)
  obtain s1 where s1: "exec c (Some s) = Some s1" using exec_Some by blast
  with Cons.prems have "reachable s1" by (rule reachable_exec)
  from Cons.IH[OF this] s1 show ?case by (simp add: run_Cons)
qed

lemma reachable_after: "reachable s \<Longrightarrow> reachable (after cmds s)"
  using reachable_run[of s cmds] by (auto simp: after_def)

lemma reachable_demo:
  "reachable demo_game" "reachable demo_placed" "reachable demo_done"
proof -
  show g: "reachable demo_game" unfolding demo_game_def by (rule reachable_new)
  show p: "reachable demo_placed" unfolding demo_placed_def by (rule reachable_after[OF g])
  show "reachable demo_done" unfolding demo_done_def by (rule reachable_after[OF p])
qed

subsection \<open>Placing a tile\<close>

text \<open>
  Claim C1 says that \<open>placeTile\<close> returns false and changes nothing unless, among the other
  conditions, the target cell is empty, so that a second placement on a filled cell is
  refused and consumes no tile. \<open>canPlaceTile\<close> tests \<open>cell.value === null\<close>;
  \<open>placeTile\<close> does not. In the small game, after the 5 of tile-0 is placed on cell 0-0,
  \<open>canPlaceTile\<close> refuses tile-2 on that cell, yet \<open>placeTile\<close> accepts it: it returns true,
  the cell now holds 17, tile-2 is consumed, and tile-0 stays marked used although it is on
  no cell any more.
\<close>

theorem placeTile_overwrites_filled_cell:
  "valueOf (cells (board demo_placed)) ''0-0'' = Some (NumV 5) \<and>
   \<not> isComplete demo_placed \<and>
   canPlaceTile ''tile-2'' ''0-0'' (Some demo_placed) = False \<and>
   fst (placeTile 2 ''tile-2'' ''0-0'' (Some demo_placed)) = True \<and>
   valueOf (cells (board (after [PlaceTile 2 ''tile-2'' ''0-0''] demo_placed))) ''0-0'' = Some (NumV 17) \<and>
   map isUsed (availableNumbers (after [PlaceTile 2 ''tile-2'' ''0-0''] demo_placed)) = [True, False, True]"
  by code_simp

subsection \<open>Completion\<close>

lemma place_completion:
  assumes "placeTile now tid cid (Some s) = (True, Some s')"
  shows "\<not> isComplete s \<and> (isComplete s' \<longleftrightarrow> solved s')"
  using placeTile_success[OF assms]
proof (elim exE conjE)
  fix tile cell
  let ?s3 = "pushMove \<lparr>move_type = MPlace, tileId = tid, cellId = cid, timestamp = now\<rparr>
                     (setCellValue cid (Some (NumV (tile_value tile))) (setTileUsed tid True s))"
  assume n: "\<not> isComplete s"
    and e0: "Some s' = Some (checkGameCompletion (checkEquations ?s3))"
  from e0 have e: "s' = checkGameCompletion (checkEquations ?s3)" by simp
  have nc: "\<not> isComplete (checkEquations ?s3)" using n by simp
  have a: "isComplete s' \<longleftrightarrow> allEquationsValid (checkEquations ?s3)"
    unfolding e using nc by (simp add: checkGameCompletion_def completeGame_def Let_def)
  have b: "solved s' \<longleftrightarrow> solved (checkEquations ?s3)"
    unfolding e by (simp add: solved_def)
  show ?thesis using n a b allEquationsValid_checkEquations[of ?s3] by simp
qed

lemma remove_keeps_completion:
  "removeTile now cid (Some s) = (ok, Some s') \<Longrightarrow> isComplete s' = isComplete s"
  unfolding removeTile_def Let_def
  by (auto split: if_splits option.splits)

lemma undo_keeps_completion:
  "undoLastMove (Some s) = (ok, Some s') \<Longrightarrow> isComplete s' = isComplete s"
  unfolding undoLastMove_def Let_def
  by (auto split: if_splits option.splits move_type.splits)

lemma hint_keeps_completion:
  "getHint u (Some s) = (h, Some s') \<Longrightarrow> isComplete s' = isComplete s"
  by (drule getHint_cases) auto

subsection \<open>A game in progress is not solved\<close>

lemma unflag_simps [simp]:
  "eq_cells (unflag eq) = eq_cells eq"
  "isEquationComplete cs (unflag eq) = isEquationComplete cs eq"
  "valueAt cs (unflag eq) i = valueAt cs eq i"
  "unflag (recompute cs eq) = unflag eq"
  by (simp_all add: unflag_def isEquationComplete_def valueAt_def recompute_def)

lemma validate_unflag [simp]: "validateEquation cs (unflag eq) = validateEquation cs eq"
  unfolding validateEquation_def unflag_simps ..

lemma solved_unflag:
  "solved s = list_all (\<lambda>(k, eq). isEquationComplete (cells (board s)) eq \<and>
                                   validateEquation (cells (board s)) eq)
                (map (\<lambda>(k, eq). (k, unflag eq)) (equations (board s)))"
  by (simp add: solved_def list_all_iff split_beta)

lemma valueAt_valueOf:
  "valueAt cs eq i = (case nth_opt (eq_cells eq) i of None \<Rightarrow> None | Some cid \<Rightarrow> valueOf cs cid)"
  by (simp add: valueAt_def valueOf_def split: option.splits)

lemma complete_below:
  assumes t: "\<And>cid. map_option cell_type (map_of csa cid) = map_option cell_type (map_of csb cid)"
    and v: "\<And>cid. valueOf csa cid = None \<or> valueOf csa cid = valueOf csb cid"
    and c: "isEquationComplete csa eq"
  shows "isEquationComplete csb eq"
  unfolding isEquationComplete_def list_all_iff
proof
  fix cid assume "cid \<in> set (eq_cells eq)"
  with c obtain ca where ca: "map_of csa cid = Some ca"
    "cell_value ca \<noteq> None \<or> cell_type ca = TOperator \<or> cell_type ca = TEquals"
    unfolding isEquationComplete_def list_all_iff by (auto split: option.splits)
  from t[of cid] ca(1) obtain cb where cb: "map_of csb cid = Some cb" "cell_type cb = cell_type ca"
    by (cases "map_of csb cid") auto
  have "cell_value ca \<noteq> None \<Longrightarrow> cell_value cb \<noteq> None"
    using v[of cid] ca(1) cb(1) by (auto simp: valueOf_def)
  with ca(2) cb show "case map_of csb cid of None \<Rightarrow> False
      | Some c \<Rightarrow> cell_value c \<noteq> None \<or> cell_type c = TOperator \<or> cell_type c = TEquals"
    by auto
qed

lemma validate_below:
  assumes v: "\<And>cid. valueOf csa cid = None \<or> valueOf csa cid = valueOf csb cid"
    and c: "validateEquation csa eq"
  shows "validateEquation csb eq"
proof -
  have d: "valueAt csa eq i = None \<or> valueAt csb eq i = valueAt csa eq i" for i
  proof (cases "nth_opt (eq_cells eq) i")
    case None
    then show ?thesis by (simp add: valueAt_valueOf)
  next
    case (Some cid)
    then show ?thesis using v[of cid] by (auto simp: valueAt_valueOf)
  qed
  have n: "valueAt csa eq 0 \<noteq> None" "valueAt csa eq 1 \<noteq> None" "valueAt csa eq 2 \<noteq> None"
    "valueAt csa eq 4 \<noteq> None"
  proof -
    have "valueAt csa eq 0 = None \<Longrightarrow> \<not> validateEquation csa eq"
      "valueAt csa eq 1 = None \<Longrightarrow> \<not> validateEquation csa eq"
      "valueAt csa eq 2 = None \<Longrightarrow> \<not> validateEquation csa eq"
      "valueAt csa eq 4 = None \<Longrightarrow> \<not> validateEquation csa eq"
      by (cases "valueAt csa eq 0"; cases "valueAt csa eq 2"; cases "valueAt csa eq 4";
          cases "valueAt csa eq 1"; simp add: validateEquation_def split: cell_value.splits)+
    with c show "valueAt csa eq 0 \<noteq> None" "valueAt csa eq 1 \<noteq> None" "valueAt csa eq 2 \<noteq> None"
      "valueAt csa eq 4 \<noteq> None" by auto
  qed
  have e: "valueAt csb eq 0 = valueAt csa eq 0" "valueAt csb eq 1 = valueAt csa eq 1"
    "valueAt csb eq 2 = valueAt csa eq 2" "valueAt csb eq 4 = valueAt csa eq 4"
    using d[of 0] d[of 1] d[of 2] d[of 4] n by blast+
  have "validateEquation csb eq = validateEquation csa eq"
    unfolding validateEquation_def e ..
  with c show ?thesis by simp
qed

lemma solved_below:
  assumes "cells_below a b" "solved a"
  shows "solved b"
proof -
  have e: "map (\<lambda>(k, eq). (k, unflag eq)) (equations (board a)) =
           map (\<lambda>(k, eq). (k, unflag eq)) (equations (board b))"
    and t: "\<And>cid. map_option cell_type (map_of (cells (board a)) cid) =
             map_option cell_type (map_of (cells (board b)) cid)"
    and v: "\<And>cid. valueOf (cells (board a)) cid = None \<or>
             valueOf (cells (board a)) cid = valueOf (cells (board b)) cid"
    using assms(1) by (simp_all add: cells_below_def)
  show ?thesis
    using assms(2) unfolding solved_unflag e list_all_iff
    using complete_below[OF t v] validate_below[OF v] by blast
qed

lemma cells_below_refl [simp]: "cells_below s s"
  by (simp add: cells_below_def)

lemma cells_below_trans:
  assumes "cells_below a b" "cells_below b c"
  shows "cells_below a c"
proof -
  have v: "valueOf (cells (board a)) cid = None \<or>
           valueOf (cells (board a)) cid = valueOf (cells (board c)) cid" for cid
    using assms unfolding cells_below_def by metis
  show ?thesis
    unfolding cells_below_def
    using assms v by (simp add: cells_below_def)
qed

lemma cells_below_eq:
  assumes "map (\<lambda>(k, eq). (k, unflag eq)) (equations (board a)) =
           map (\<lambda>(k, eq). (k, unflag eq)) (equations (board b))"
    and "strip (cells (board a)) = strip (cells (board b))"
    and "\<And>tid. map_option tile_value (find_tile tid (availableNumbers a)) =
            map_option tile_value (find_tile tid (availableNumbers b))"
  shows "cells_below a b" "cells_below b a"
  unfolding cells_below_def
  using assms(1,3) strip_eq_keys[OF assms(2)] strip_eq_value(2)[OF assms(2)]
    strip_eq_valueOf[OF assms(2)]
  by simp_all

lemma cells_below_checkEquations:
  "cells_below (checkEquations s) s" "cells_below s (checkEquations s)"
proof -
  have e: "map (\<lambda>(k, eq). (k, unflag eq)) (equations (board (checkEquations s))) =
           map (\<lambda>(k, eq). (k, unflag eq)) (equations (board s))"
    by (simp add: checkEquations_board(2) split_beta)
  show "cells_below (checkEquations s) s" "cells_below s (checkEquations s)"
    using cells_below_eq[OF e checkEquations_board(1)] by simp_all
qed

lemma type_mutate_value:
  "map_option cell_type (map_of (mutate k (\<lambda>c. c\<lparr>cell_value := v\<rparr>) cs) cid) =
   map_option cell_type (map_of cs cid)"
  by (simp add: map_of_mutate option.map_comp comp_def)

lemma undoEffect_frame:
  "moves (undoEffect s) = butlast (moves s)"
  "equations (board (undoEffect s)) = equations (board s)"
  "map fst (cells (board (undoEffect s))) = map fst (cells (board s))"
  "map_option cell_type (map_of (cells (board (undoEffect s))) cid) =
     map_option cell_type (map_of (cells (board s)) cid)"
  "map_option tile_value (find_tile tid (availableNumbers (undoEffect s))) =
     map_option tile_value (find_tile tid (availableNumbers s))"
  "isComplete (undoEffect s) = isComplete s"
  by (simp_all add: undoEffect_def Let_def type_mutate_value find_tile_set_used_value
        split: option.splits move_type.splits)

lemma undoEffect_value:
  "valueOf (cells (board (undoEffect s))) cid =
     (case map_option tile_value (find_tile (tileId (last (moves s))) (availableNumbers s)) of
        None \<Rightarrow> valueOf (cells (board s)) cid
      | Some v \<Rightarrow>
          if cid = cellId (last (moves s)) \<and> cid \<in> set (map fst (cells (board s)))
          then (case move_type (last (moves s)) of MPlace \<Rightarrow> None | MRemove \<Rightarrow> Some (NumV v))
          else valueOf (cells (board s)) cid)"
proof (cases "find_tile (tileId (last (moves s))) (availableNumbers s)")
  case None
  then show ?thesis by (simp add: undoEffect_def Let_def)
next
  case (Some tile)
  show ?thesis
  proof (cases "map_of (cells (board s)) (cellId (last (moves s)))")
    case None
    then have "cellId (last (moves s)) \<notin> set (map fst (cells (board s)))"
      by (simp add: map_of_None_keys)
    with None Some show ?thesis by (auto simp: undoEffect_def Let_def)
  next
    case (Some cell)
    with \<open>find_tile (tileId (last (moves s))) (availableNumbers s) = Some tile\<close>
    show ?thesis
      by (cases "move_type (last (moves s))")
         (auto simp: undoEffect_def Let_def valueOf_mutate)
  qed
qed

lemma cells_belowI:
  assumes "equations (board a) = equations (board b)"
    and "map fst (cells (board a)) = map fst (cells (board b))"
    and "\<And>cid. map_option cell_type (map_of (cells (board a)) cid) =
               map_option cell_type (map_of (cells (board b)) cid)"
    and "\<And>cid. valueOf (cells (board a)) cid = None \<or>
               valueOf (cells (board a)) cid = valueOf (cells (board b)) cid"
    and "\<And>tid. map_option tile_value (find_tile tid (availableNumbers a)) =
               map_option tile_value (find_tile tid (availableNumbers b))"
  shows "cells_below a b"
  unfolding cells_below_def
  by (intro conjI allI, simp add: assms(1), rule assms(2), rule assms(3), rule assms(4),
      rule assms(5))

lemma undoEffect_below:
  assumes b: "cells_below a b" and m: "moves a = moves b"
  shows "cells_below (undoEffect a) (undoEffect b)"
proof -
  have k: "map fst (cells (board a)) = map fst (cells (board b))"
    and t: "\<And>tid. map_option tile_value (find_tile tid (availableNumbers a)) =
              map_option tile_value (find_tile tid (availableNumbers b))"
    and v: "\<And>cid. valueOf (cells (board a)) cid = None \<or>
              valueOf (cells (board a)) cid = valueOf (cells (board b)) cid"
    using b by (simp_all add: cells_below_def)
  have val: "valueOf (cells (board (undoEffect a))) cid = None \<or>
        valueOf (cells (board (undoEffect a))) cid = valueOf (cells (board (undoEffect b))) cid" for cid
    unfolding undoEffect_value m k t
    using v[of cid] by (auto split: option.splits move_type.splits)
  show ?thesis
    unfolding cells_below_def undoEffect_frame
    using b val by (simp add: cells_below_def)
qed

lemma unsolved_back_below:
  "cells_below a b \<Longrightarrow> moves a = moves b \<Longrightarrow> unsolved_back n b \<Longrightarrow> unsolved_back n a"
proof (induction n arbitrary: a b)
  case 0
  then show ?case by simp
next
  case (Suc n)
  have "\<not> solved a" using Suc.prems solved_below by auto
  moreover have "unsolved_back n (undoEffect a)"
  proof (rule Suc.IH)
    show "cells_below (undoEffect a) (undoEffect b)" using Suc.prems(1,2) by (rule undoEffect_below)
    show "moves (undoEffect a) = moves (undoEffect b)" using Suc.prems(2) by (simp add: undoEffect_frame)
    show "unsolved_back n (undoEffect b)" using Suc.prems(3) by simp
  qed
  ultimately show ?case by simp
qed

lemma play_inv_same:
  assumes "play_inv s" "cells_below s' s" "moves s' = moves s" "isComplete s' = isComplete s"
  shows "play_inv s'"
  using assms unsolved_back_below[of s' s "length (moves s)"] by (simp add: play_inv_def)

lemma undoEffect_place_below:
  assumes "move_type (last (moves s)) = MPlace"
  shows "cells_below (undoEffect s) s"
proof (rule cells_belowI)
  fix cid
  show "valueOf (cells (board (undoEffect s))) cid = None \<or>
        valueOf (cells (board (undoEffect s))) cid = valueOf (cells (board s)) cid"
    unfolding undoEffect_value using assms by (auto split: option.splits)
qed (simp_all add: undoEffect_frame)

lemma cells_below_checkGameCompletion:
  "cells_below (checkGameCompletion s) s" "cells_below s (checkGameCompletion s)"
  by (rule cells_belowI; simp)+

lemma play_inv_place:
  assumes inv: "play_inv s" and pl: "placeTile now tid cid (Some s) = (True, Some s')"
  shows "play_inv s'"
proof -
  from placeTile_success[OF pl] obtain tile cell where
    h: "find_tile tid (availableNumbers s) = Some tile" "map_of (cells (board s)) cid = Some cell"
       "\<not> isComplete s"
       "s' = checkGameCompletion (checkEquations
                   (pushMove \<lparr>move_type = MPlace, tileId = tid, cellId = cid, timestamp = now\<rparr>
                     (setCellValue cid (Some (NumV (tile_value tile))) (setTileUsed tid True s))))"
    by auto
  let ?p = "\<lparr>move_type = MPlace, tileId = tid, cellId = cid, timestamp = now\<rparr>"
  let ?x = "pushMove ?p (setCellValue cid (Some (NumV (tile_value tile))) (setTileUsed tid True s))"
  have key: "cid \<in> set (map fst (cells (board s)))"
    using h(2) by (metis map_of_None_keys option.distinct(1))
  have mx: "moves ?x = moves s @ [?p]" by simp
  have ms': "moves s' = moves ?x" unfolding h(4) by simp
  have b1: "cells_below s' ?x"
    unfolding h(4)
    by (rule cells_below_trans[OF cells_below_checkGameCompletion(1) cells_below_checkEquations(1)])
  have b2: "cells_below (undoEffect s') (undoEffect ?x)"
    using b1 ms' by (rule undoEffect_below)
  have tv: "map_option tile_value (find_tile tid (availableNumbers ?x)) = Some (tile_value tile)"
    using h(1) by (simp add: find_tile_set_used_value)
  have b3: "cells_below (undoEffect ?x) s"
  proof (rule cells_belowI)
    fix cid'
    have "valueOf (cells (board (undoEffect ?x))) cid' =
            (if cid' = cid then None else valueOf (cells (board s)) cid')"
      unfolding undoEffect_value using key h(1)
      by (auto simp: valueOf_mutate find_tile_set_used split: option.splits)
    then show "valueOf (cells (board (undoEffect ?x))) cid' = None \<or>
          valueOf (cells (board (undoEffect ?x))) cid' = valueOf (cells (board s)) cid'"
      by simp
  qed (simp_all add: undoEffect_frame type_mutate_value find_tile_set_used_value)
  have b: "cells_below (undoEffect s') s" using b2 b3 by (rule cells_below_trans)
  have m: "moves (undoEffect s') = moves s" by (simp add: undoEffect_frame ms')
  show ?thesis
    unfolding play_inv_def
  proof
    assume n: "\<not> isComplete s'"
    then have "\<not> solved s'" using place_completion[OF pl] by simp
    moreover have "unsolved_back (length (moves s)) s" using inv h(3) by (simp add: play_inv_def)
    then have "unsolved_back (length (moves s)) (undoEffect s')"
      using unsolved_back_below[OF b m] by simp
    ultimately show "unsolved_back (length (moves s')) s'" by (simp add: ms')
  qed
qed

lemma play_inv_remove:
  assumes inv: "play_inv s" and c: "consistent s"
    and rm: "removeTile now cid (Some s) = (True, Some s')"
  shows "play_inv s' \<and> \<not> solved s' \<and> \<not> isComplete s'"
proof -
  from removeTile_success[OF rm] obtain cell lastMove tile where
    h: "map_of (cells (board s)) cid = Some cell" "cell_value cell \<noteq> None" "\<not> isComplete s"
       "lastPlace cid (moves s) = Some lastMove"
       "find_tile (tileId lastMove) (availableNumbers s) = Some tile"
       "s' = checkEquations
                   (pushMove \<lparr>move_type = MRemove, tileId = tileId lastMove, cellId = cid, timestamp = now\<rparr>
                     (setCellValue cid None (setTileUsed (tileId lastMove) False s)))"
    by auto
  let ?T = "tileId lastMove"
  let ?r = "\<lparr>move_type = MRemove, tileId = ?T, cellId = cid, timestamp = now\<rparr>"
  let ?x = "pushMove ?r (setCellValue cid None (setTileUsed ?T False s))"
  have key: "cid \<in> set (map fst (cells (board s)))"
    using h(1) by (metis map_of_None_keys option.distinct(1))
  obtain v where v: "valueOf (cells (board s)) cid = Some v"
    using h(1,2) by (auto simp: valueOf_def)
  have vv: "v = NumV (tile_value tile)"
    using c key v h(4,5) unfolding consistent_def cells_match_alt by blast
  have ne: "moves s \<noteq> []" using lastPlace_is_place[OF h(4)] by auto
  then obtain k where k: "length (moves s) = Suc k" by (cases "moves s") auto
  have ub: "unsolved_back (Suc k) s" using inv h(3) k by (simp add: play_inv_def)
  have ms': "moves s' = moves ?x" unfolding h(6) by simp
  have b1: "cells_below s' ?x" unfolding h(6) by (rule cells_below_checkEquations(1))
  have b0: "cells_below ?x s"
    by (rule cells_belowI)
       (simp_all add: type_mutate_value find_tile_set_used_value valueOf_mutate)
  have "cells_below s' s" using b1 b0 by (rule cells_below_trans)
  then have ns: "\<not> solved s'" using ub solved_below by auto
  have nc: "\<not> isComplete s'" unfolding h(6) using h(3) by simp
  have b2: "cells_below (undoEffect s') (undoEffect ?x)"
    using b1 ms' by (rule undoEffect_below)
  have tv: "map_option tile_value (find_tile ?T (availableNumbers ?x)) = Some (tile_value tile)"
    using h(5) by (simp add: find_tile_set_used_value)
  have b3: "cells_below (undoEffect ?x) s"
  proof (rule cells_belowI)
    fix cid'
    have "valueOf (cells (board (undoEffect ?x))) cid' = valueOf (cells (board s)) cid'"
      unfolding undoEffect_value using key v vv h(5)
      by (auto simp: valueOf_mutate find_tile_set_used split: option.splits)
    then show "valueOf (cells (board (undoEffect ?x))) cid' = None \<or>
          valueOf (cells (board (undoEffect ?x))) cid' = valueOf (cells (board s)) cid'"
      by simp
  qed (simp_all add: undoEffect_frame type_mutate_value find_tile_set_used_value)
  have b: "cells_below (undoEffect s') s" using b2 b3 by (rule cells_below_trans)
  have m: "moves (undoEffect s') = moves s" by (simp add: undoEffect_frame ms')
  have "unsolved_back (Suc k) (undoEffect s')"
    using b m ub by (rule unsolved_back_below)
  then have "unsolved_back (length (moves s')) s'" using ns k by (simp add: ms')
  then show ?thesis using ns nc by (simp add: play_inv_def)
qed

lemma play_inv_undo:
  assumes inv: "play_inv s" and ne: "moves s \<noteq> []"
  shows "play_inv (checkEquations (undoEffect s))"
  unfolding play_inv_def
proof
  let ?s' = "checkEquations (undoEffect s)"
  assume "\<not> isComplete ?s'"
  then have n: "\<not> isComplete s" by (simp add: undoEffect_frame)
  obtain k where k: "length (moves s) = Suc k" using ne by (cases "moves s") auto
  have "unsolved_back (Suc k) s" using inv n k by (simp add: play_inv_def)
  then have "unsolved_back k (undoEffect s)" by simp
  moreover have "moves ?s' = moves (undoEffect s)" by simp
  ultimately have "unsolved_back k ?s'"
    using unsolved_back_below[OF cells_below_checkEquations(1)] by blast
  moreover have "length (moves ?s') = k" using k by (simp add: undoEffect_frame)
  ultimately show "unsolved_back (length (moves ?s')) ?s'" by simp
qed

lemma undo_unsolved:
  assumes inv: "play_inv s" and c: "consistent s" and n: "\<not> isComplete s" and ne: "moves s \<noteq> []"
  shows "\<not> solved (checkEquations (undoEffect s))"
proof -
  obtain k where k: "length (moves s) = Suc k" using ne by (cases "moves s") auto
  have ub: "\<not> solved s" "unsolved_back k (undoEffect s)"
    using inv n k by (simp_all add: play_inv_def)
  have "\<not> solved (undoEffect s)"
  proof (cases "move_type (last (moves s))")
    case MPlace
    from undoEffect_place_below[OF this] ub(1) show ?thesis using solved_below by blast
  next
    case MRemove
    have "log_ok (rev (moves s))" using c by (simp add: consistent_def)
    from log_ok_butlast(2)[OF ne this MRemove] obtain p where
      "lastPlace (cellId (last (moves s))) (butlast (moves s)) = Some p" by blast
    then have "butlast (moves s) \<noteq> []" using lastPlace_is_place by fastforce
    then have "0 < length (butlast (moves s))" by (rule length_greater_0_conv[THEN iffD2])
    then have "0 < length (moves s) - 1" by (simp only: length_butlast)
    then have "0 < k" using k by simp
    then obtain j where "k = Suc j" by (cases k) auto
    with ub(2) show ?thesis by simp
  qed
  then show ?thesis by (simp add: solved_checkEquations)
qed

lemma play_inv_exec:
  assumes "play_inv s" "consistent s" "exec c (Some s) = Some s'"
  shows "play_inv s'"
proof (cases c)
  case (PlaceTile now tid cid)
  show ?thesis
  proof (cases "fst (placeTile now tid cid (Some s))")
    case True
    then have "placeTile now tid cid (Some s) = (True, Some s')"
      using assms(3) PlaceTile by (metis exec.simps(1) prod.collapse)
    from play_inv_place[OF assms(1) this] show ?thesis .
  next
    case False
    then have "placeTile now tid cid (Some s) = (False, Some s')"
      using assms(3) PlaceTile by (metis exec.simps(1) prod.collapse)
    from placeTile_failure[OF this] assms(1) show ?thesis by simp
  qed
next
  case (RemoveTile now cid)
  show ?thesis
  proof (cases "fst (removeTile now cid (Some s))")
    case True
    then have "removeTile now cid (Some s) = (True, Some s')"
      using assms(3) RemoveTile by (metis exec.simps(2) prod.collapse)
    from play_inv_remove[OF assms(1,2) this] show ?thesis by simp
  next
    case False
    then have "removeTile now cid (Some s) = (False, Some s')"
      using assms(3) RemoveTile by (metis exec.simps(2) prod.collapse)
    from removeTile_failure[OF this] assms(1) show ?thesis by simp
  qed
next
  case UndoLastMove
  then show ?thesis
    using assms play_inv_undo[of s] by (auto simp: undoLastMove_eq split: if_splits)
next
  case (GetHint u)
  obtain h where g: "getHint u (Some s) = (h, Some s')"
    using GetHint assms(3) by (cases "getHint u (Some s)") simp
  from getHint_cases[OF g] show ?thesis
  proof
    assume "h = None \<and> Some s' = Some s"
    with assms(1) show ?thesis by simp
  next
    assume "h \<noteq> None \<and> 0 < hints s \<and> unfilledCells s \<noteq> [] \<and>
      Some s' = Some (s\<lparr>hints := hints s - 1, currentScore := max 0 (currentScore s - HINT_PENALTY)\<rparr>)"
    then have e: "s' = s\<lparr>hints := hints s - 1, currentScore := max 0 (currentScore s - HINT_PENALTY)\<rparr>"
      by simp
    show ?thesis
      by (rule play_inv_same[OF assms(1)]) (simp_all add: e cells_belowI)
  qed
qed

lemma reachable_play_inv: "reachable s \<Longrightarrow> play_inv s"
proof (induction rule: reachable.induct)
  case (reachable_new difficulty b hand)
  show ?case by (simp add: play_inv_def newGame_def)
next
  case (reachable_exec s c s')
  then show ?case using play_inv_exec reachable_consistent by blast
next
  case (reachable_tick s t)
  show ?case
    by (rule play_inv_same[OF reachable_tick.IH]) (simp_all add: cells_belowI)
qed

lemma demo_final_place: "placeTile 2 ''tile-1'' ''2-0'' (Some demo_placed) = (True, Some demo_done)"
  by code_simp

lemma demo_remove: "removeTile 3 ''0-0'' (Some demo_placed) = (True, Some (after [RemoveTile 3 ''0-0''] demo_placed))"
  by code_simp

lemma flags_after_place:
  assumes "placeTile now tid cid (Some s) = (True, Some s')"
  shows "allEquationsValid s' = solved s'"
proof -
  from placeTile_success[OF assms] obtain x where e: "s' = checkGameCompletion (checkEquations x)"
    by auto
  have "allEquationsValid s' = allEquationsValid (checkEquations x)"
    unfolding e by (simp add: allEquationsValid_def)
  moreover have "solved s' = solved (checkEquations x)" unfolding e by (simp add: solved_def)
  ultimately show ?thesis using allEquationsValid_checkEquations[of x] by simp
qed

lemma flags_after_remove:
  assumes "removeTile now cid (Some s) = (True, Some s')"
  shows "allEquationsValid s' = solved s'"
proof -
  from removeTile_success[OF assms] obtain x where e: "s' = checkEquations x" by auto
  show ?thesis unfolding e by (rule allEquationsValid_checkEquations)
qed

lemma demo_undo:
  "undoLastMove (Some demo_placed) = (True, Some (after [UndoLastMove] demo_placed))"
  by code_simp

text \<open>
  Claim C3: in every state of a game in progress, after a successful place, remove or undo
  the game is complete exactly when every equation of the grid is complete and valid, on
  the cells and by the flags that the re-validation has just written. Nothing else sets the
  flag: a refused call changes nothing, and a hint leaves the game in progress.
  \<open>placeTile\<close> runs \<open>checkGameCompletion\<close> after its re-validation, and so sets the flag
  exactly on a solved grid. \<open>removeTile\<close> and \<open>undoLastMove\<close> re-validate without that
  call; for them the agreement holds because neither can leave the grid solved: a game in
  progress is unsolved as far back as its log reaches, a removal and the undo of a placement
  only empty a cell, and the undo of a removal rebuilds the cells of before that removal.
\<close>

theorem completion_follows_every_mutation:
  assumes r: "reachable s" and n: "\<not> isComplete s"
  shows "(placeTile now tid cid (Some s) = (True, Some s') \<longrightarrow>
            (isComplete s' \<longleftrightarrow> solved s') \<and> (allEquationsValid s' \<longleftrightarrow> solved s')) \<and>
         (removeTile now cid (Some s) = (True, Some s') \<longrightarrow>
            (isComplete s' \<longleftrightarrow> solved s') \<and> (allEquationsValid s' \<longleftrightarrow> solved s') \<and>
            \<not> isComplete s') \<and>
         (undoLastMove (Some s) = (True, Some s') \<longrightarrow>
            (isComplete s' \<longleftrightarrow> solved s') \<and> (allEquationsValid s' \<longleftrightarrow> solved s') \<and>
            \<not> isComplete s') \<and>
         (placeTile now tid cid (Some s) = (False, gs) \<longrightarrow> gs = Some s) \<and>
         (removeTile now cid (Some s) = (False, gs) \<longrightarrow> gs = Some s) \<and>
         (undoLastMove (Some s) = (False, gs) \<longrightarrow> gs = Some s) \<and>
         (getHint u (Some s) = (h, Some s') \<longrightarrow> \<not> isComplete s')"
proof -
  have inv: "play_inv s" using r by (rule reachable_play_inv)
  have c: "consistent s" using r by (rule reachable_consistent)
  have p: "placeTile now tid cid (Some s) = (True, Some s') \<longrightarrow>
            (isComplete s' \<longleftrightarrow> solved s') \<and> (allEquationsValid s' \<longleftrightarrow> solved s')"
    using place_completion flags_after_place by blast
  have rm: "removeTile now cid (Some s) = (True, Some s') \<longrightarrow>
            (isComplete s' \<longleftrightarrow> solved s') \<and> (allEquationsValid s' \<longleftrightarrow> solved s') \<and>
            \<not> isComplete s'"
    using play_inv_remove[OF inv c] flags_after_remove by blast
  have u: "undoLastMove (Some s) = (True, Some s') \<longrightarrow>
            (isComplete s' \<longleftrightarrow> solved s') \<and> (allEquationsValid s' \<longleftrightarrow> solved s') \<and>
            \<not> isComplete s'"
  proof
    assume a: "undoLastMove (Some s) = (True, Some s')"
    then have ne: "moves s \<noteq> []" and e: "s' = checkEquations (undoEffect s)"
      by (auto simp: undoLastMove_eq split: if_splits)
    have "\<not> solved s'" unfolding e by (rule undo_unsolved[OF inv c n ne])
    moreover have "\<not> isComplete s'" using undo_keeps_completion[OF a] n by simp
    moreover have "allEquationsValid s' = solved s'"
      unfolding e by (rule allEquationsValid_checkEquations)
    ultimately show "(isComplete s' \<longleftrightarrow> solved s') \<and> (allEquationsValid s' \<longleftrightarrow> solved s') \<and>
            \<not> isComplete s'" by simp
  qed
  have f: "placeTile now tid cid (Some s) = (False, gs) \<longrightarrow> gs = Some s"
    "removeTile now cid (Some s) = (False, gs) \<longrightarrow> gs = Some s"
    "undoLastMove (Some s) = (False, gs) \<longrightarrow> gs = Some s"
    using placeTile_failure removeTile_failure by (auto simp: undoLastMove_eq split: if_splits)
  have g: "getHint u (Some s) = (h, Some s') \<longrightarrow> \<not> isComplete s'"
    using hint_keeps_completion n by blast
  show ?thesis using p rm u f g by blast
qed

theorem completion_follows_every_mutation_witness:
  "reachable demo_placed \<and> \<not> isComplete demo_placed \<and>
   placeTile 2 ''tile-1'' ''2-0'' (Some demo_placed) = (True, Some demo_done) \<and>
   isComplete demo_done \<and> solved demo_done \<and> allEquationsValid demo_done \<and>
   removeTile 3 ''0-0'' (Some demo_placed) = (True, Some (after [RemoveTile 3 ''0-0''] demo_placed)) \<and>
   \<not> isComplete (after [RemoveTile 3 ''0-0''] demo_placed) \<and>
   \<not> solved (after [RemoveTile 3 ''0-0''] demo_placed) \<and>
   undoLastMove (Some demo_placed) = (True, Some (after [UndoLastMove] demo_placed)) \<and>
   \<not> isComplete (after [UndoLastMove] demo_placed) \<and>
   \<not> solved (after [UndoLastMove] demo_placed)"
proof -
  have np: "\<not> isComplete demo_placed" by code_simp
  have d: "isComplete demo_done" by code_simp
  note t = completion_follows_every_mutation[OF reachable_demo(2) np]
  note t1 = t[where now = 2 and tid = "''tile-1''" and cid = "''2-0''" and s' = demo_done]
  note t2 = t[where now = 3 and cid = "''0-0''" and s' = "after [RemoveTile 3 ''0-0''] demo_placed"]
  note t3 = t[where s' = "after [UndoLastMove] demo_placed"]
  show ?thesis
    using t1 t2 t3 reachable_demo(2) np d demo_final_place demo_remove demo_undo by blast
qed

subsection \<open>Removal and undo\<close>

text \<open>
  Claim C7: in every state of a game in which \<open>removeTile(cellId)\<close> succeeds, an immediate
  \<open>undoLastMove()\<close> succeeds and restores the cell and tile state from before the removal:
  the cell (and every other cell) holds its prior value, the removed tile is marked used
  again with no other tile touched, and the move log is the log from before the removal.
  (The score is not part of this: the undo re-validates, and an equation it completes anew
  is awarded again.)
\<close>

theorem removeTile_then_undo_restores:
  assumes r: "reachable s" and rm: "removeTile now cid (Some s) = (True, gs1)"
  shows "\<exists>s2 lastMove.
           undoLastMove gs1 = (True, Some s2) \<and>
           lastPlace cid (moves s) = Some lastMove \<and>
           valueOf (cells (board s)) cid \<noteq> None \<and>
           (\<forall>cid'. valueOf (cells (board s2)) cid' = valueOf (cells (board s)) cid') \<and>
           map_option isUsed (find_tile (tileId lastMove) (availableNumbers s2)) = Some True \<and>
           availableNumbers s2 = set_used (tileId lastMove) True (availableNumbers s) \<and>
           moves s2 = moves s"
proof -
  from removeTile_success[OF rm] obtain cell lastMove tile where
    h: "map_of (cells (board s)) cid = Some cell" "cell_value cell \<noteq> None"
       "lastPlace cid (moves s) = Some lastMove"
       "find_tile (tileId lastMove) (availableNumbers s) = Some tile"
       "gs1 = Some (checkEquations
                   (pushMove \<lparr>move_type = MRemove, tileId = tileId lastMove, cellId = cid, timestamp = now\<rparr>
                     (setCellValue cid None (setTileUsed (tileId lastMove) False s))))"
    by blast
  let ?T = "tileId lastMove"
  let ?r = "\<lparr>move_type = MRemove, tileId = ?T, cellId = cid, timestamp = now\<rparr>"
  let ?s1 = "checkEquations (pushMove ?r (setCellValue cid None (setTileUsed ?T False s)))"
  have key: "cid \<in> set (map fst (cells (board s)))"
    using h(1) by (metis map_of_None_keys option.distinct(1))
  obtain v where v: "valueOf (cells (board s)) cid = Some v"
    using h(1,2) by (auto simp: valueOf_def)
  have cons: "consistent s" using r by (rule reachable_consistent)
  then have vv: "v = NumV (tile_value tile)"
    using key v h(3,4) unfolding consistent_def cells_match_alt by blast
  have m1: "moves ?s1 = moves s @ [?r]" by simp
  have t1: "find_tile ?T (availableNumbers ?s1) = Some (tile\<lparr>isUsed := False\<rparr>)"
    using h(4) by (simp add: find_tile_set_used)
  have k1: "map fst (cells (board ?s1)) = map fst (cells (board s))" by simp
  then obtain cell1 where c1: "map_of (cells (board ?s1)) cid = Some cell1"
    using key by (metis map_of_None_keys option.exhaust)
  let ?s0 = "?s1\<lparr>moves := butlast (moves ?s1)\<rparr>"
  let ?u = "setCellValue cid (Some (NumV (tile_value tile))) (setTileUsed ?T True ?s0)"
  have ue: "undoEffect ?s1 = ?u"
    using t1 c1 m1 by (simp add: undoEffect_def Let_def)
  let ?s2 = "checkEquations ?u"
  have u: "undoLastMove gs1 = (True, Some ?s2)"
    using h(5) ue m1 by (simp add: undoLastMove_eq)
  have vals: "valueOf (cells (board ?s2)) cid' = valueOf (cells (board s)) cid'" for cid'
    using key v vv by (simp add: valueOf_mutate)
  have tiles: "availableNumbers ?s2 = set_used ?T True (availableNumbers s)" by simp
  have used: "map_option isUsed (find_tile ?T (availableNumbers ?s2)) = Some True"
    unfolding tiles using h(4) by (rule isUsed_set_used)
  have mv: "moves ?s2 = moves s" by simp
  show ?thesis using u h(3) v vals used tiles mv by blast
qed


theorem removeTile_then_undo_restores_witness:
  "reachable demo_placed \<and>
   removeTile 3 ''0-0'' (Some demo_placed) = (True, Some (after [RemoveTile 3 ''0-0''] demo_placed)) \<and>
   (\<exists>s2 lastMove.
      undoLastMove (Some (after [RemoveTile 3 ''0-0''] demo_placed)) = (True, Some s2) \<and>
      lastPlace ''0-0'' (moves demo_placed) = Some lastMove \<and>
      valueOf (cells (board demo_placed)) ''0-0'' \<noteq> None \<and>
      (\<forall>cid'. valueOf (cells (board s2)) cid' = valueOf (cells (board demo_placed)) cid') \<and>
      map_option isUsed (find_tile (tileId lastMove) (availableNumbers s2)) = Some True \<and>
      availableNumbers s2 = set_used (tileId lastMove) True (availableNumbers demo_placed) \<and>
      moves s2 = moves demo_placed)"
  using removeTile_then_undo_restores[OF reachable_demo(2) demo_remove] reachable_demo(2) demo_remove
  by blast

subsection \<open>Score\<close>

text \<open>
  Claim C8: across any sequence of \<open>placeTile\<close>, \<open>removeTile\<close> and \<open>undoLastMove\<close> calls
  the score never decreases (nothing retracts the points of an equation that stops being
  valid or complete); the hint penalty is the only deduction: a call of \<open>getHint\<close> that
  returns a hint leaves \<open>max 0 (score - HINT_PENALTY)\<close>, one that returns none leaves the
  score as it is.
\<close>

theorem score_never_decreases_without_hints:
  "((\<forall>c \<in> set cmds. \<not> is_hint c) \<longrightarrow>
      (\<exists>s'. run cmds (Some s) = Some s' \<and> currentScore s \<le> currentScore s')) \<and>
   (getHint u (Some s) = (h, Some s'') \<longrightarrow>
      currentScore s'' = (if h = None then currentScore s
                          else max 0 (currentScore s - HINT_PENALTY)))"
proof -
  have "getHint u (Some s) = (h, Some s'') \<Longrightarrow>
      currentScore s'' = (if h = None then currentScore s
                          else max 0 (currentScore s - HINT_PENALTY))"
    by (drule getHint_cases) auto
  then show ?thesis using run_score[of cmds s] by blast
qed

theorem score_never_decreases_without_hints_witness:
  "list_all (\<lambda>c. \<not> is_hint c) [PlaceTile 1 ''tile-0'' ''0-0'', RemoveTile 2 ''0-0'', UndoLastMove,
                  PlaceTile 3 ''tile-1'' ''2-0''] \<and>
   (\<exists>s'. run [PlaceTile 1 ''tile-0'' ''0-0'', RemoveTile 2 ''0-0'', UndoLastMove,
               PlaceTile 3 ''tile-1'' ''2-0''] (Some demo_game) = Some s' \<and>
          currentScore demo_game \<le> currentScore s') \<and>
   getHint (draw 1 2) (Some (demo_placed\<lparr>currentScore := 120\<rparr>)) =
     (Some (''2-0'', 3), Some (demo_placed\<lparr>currentScore := 70, hints := 2\<rparr>)) \<and>
   currentScore (demo_placed\<lparr>currentScore := 70, hints := 2\<rparr>) =
     max 0 (currentScore (demo_placed\<lparr>currentScore := 120\<rparr>) - HINT_PENALTY)"
proof -
  have g: "getHint (draw 1 2) (Some (demo_placed\<lparr>currentScore := 120\<rparr>)) =
     (Some (''2-0'', 3), Some (demo_placed\<lparr>currentScore := 70, hints := 2\<rparr>))"
    by code_simp
  have n: "\<forall>c \<in> set [PlaceTile 1 ''tile-0'' ''0-0'', RemoveTile 2 ''0-0'', UndoLastMove,
                  PlaceTile 3 ''tile-1'' ''2-0'']. \<not> is_hint c"
    by simp
  note t1 = score_never_decreases_without_hints[where s = demo_game and
      cmds = "[PlaceTile 1 ''tile-0'' ''0-0'', RemoveTile 2 ''0-0'', UndoLastMove,
               PlaceTile 3 ''tile-1'' ''2-0'']"]
  note t2 = score_never_decreases_without_hints[where s = "demo_placed\<lparr>currentScore := 120\<rparr>"
      and u = "draw 1 2" and h = "Some (''2-0'', 3)"
      and s'' = "demo_placed\<lparr>currentScore := 70, hints := 2\<rparr>"]
  have r: "\<exists>s'. run [PlaceTile 1 ''tile-0'' ''0-0'', RemoveTile 2 ''0-0'', UndoLastMove,
               PlaceTile 3 ''tile-1'' ''2-0''] (Some demo_game) = Some s' \<and>
          currentScore demo_game \<le> currentScore s'"
    using t1 n by blast
  have p: "currentScore (demo_placed\<lparr>currentScore := 70, hints := 2\<rparr>) =
     max 0 (currentScore (demo_placed\<lparr>currentScore := 120\<rparr>) - HINT_PENALTY)"
    using t2 g by simp
  show ?thesis using r g p by simp
qed

subsection \<open>Hints\<close>

lemma getHint_None [simp]: "getHint u None = (None, None)"
  by (simp add: getHint_def)

lemma getHint_refused:
  "hints s \<le> 0 \<or> unfilledCells s = [] \<Longrightarrow> getHint u (Some s) = (None, Some s)"
  by (auto simp: getHint_def Let_def)

lemma exec_hints_same:
  assumes "\<not> is_hint c" "exec c (Some s) = Some s'"
  shows "hints s' = hints s"
proof (cases c)
  case (PlaceTile now tid cid)
  with assms(2) show ?thesis
    by (auto simp: placeTile_def Let_def split: if_splits option.splits)
next
  case (RemoveTile now cid)
  with assms(2) show ?thesis
    by (auto simp: removeTile_def Let_def split: if_splits option.splits)
next
  case UndoLastMove
  with assms(2) show ?thesis
    by (auto simp: undoLastMove_eq undoEffect_def Let_def
             split: if_splits option.splits move_type.splits)
next
  case (GetHint u)
  with assms(1) show ?thesis by simp
qed

lemma exec_hint_bounds:
  assumes "exec c (Some s) = Some s'"
  shows "hints s' \<le> hints s \<and> (0 \<le> hints s \<longrightarrow> 0 \<le> hints s') \<and>
         (0 \<le> currentScore s \<longrightarrow> 0 \<le> currentScore s')"
proof (cases "is_hint c")
  case False
  from exec_score[OF False, of s] assms have "currentScore s \<le> currentScore s'" by auto
  with exec_hints_same[OF False assms] show ?thesis by simp
next
  case True
  then obtain u where c: "c = GetHint u" by (cases c) auto
  obtain h where "getHint u (Some s) = (h, Some s')"
    using c assms by (cases "getHint u (Some s)") simp
  from getHint_cases[OF this] show ?thesis by auto
qed

lemma run_hint_bounds:
  "\<exists>s'. run cmds (Some s) = Some s' \<and> hints s' \<le> hints s \<and> (0 \<le> hints s \<longrightarrow> 0 \<le> hints s') \<and>
         (0 \<le> currentScore s \<longrightarrow> 0 \<le> currentScore s')"
proof (induction cmds arbitrary: s)
  case Nil
  then show ?case by simp
next
  case (Cons c cmds)
  obtain s1 where s1: "exec c (Some s) = Some s1" using exec_Some by blast
  from Cons.IH[of s1] obtain s2 where s2: "run cmds (Some s1) = Some s2"
    "hints s2 \<le> hints s1" "0 \<le> hints s1 \<longrightarrow> 0 \<le> hints s2"
    "0 \<le> currentScore s1 \<longrightarrow> 0 \<le> currentScore s2"
    by blast
  from exec_hint_bounds[OF s1] s1 s2 show ?case by (auto simp: run_Cons)
qed

text \<open>
  Claim C9: \<open>getHint()\<close> returns none and leaves the hint counter and the score as they are
  when there is no game, when no hint remains, or when no blank non-fixed number cell
  exists. A call that returns a hint takes exactly one hint, with one remaining beforehand,
  and leaves the score at \<open>max 0 (score - HINT_PENALTY)\<close>; no other call changes the
  counter. So over any sequence of calls the counter never grows, never goes below zero
  from a non-negative start, and the score never becomes negative.
\<close>

theorem getHint_guards_counter_and_score:
  "getHint u None = (None, None) \<and>
   (hints s \<le> 0 \<or> unfilledCells s = [] \<longrightarrow> getHint u (Some s) = (None, Some s)) \<and>
   (getHint u (Some s) = (h, gs') \<longrightarrow>
      (h = None \<and> gs' = Some s) \<or>
      (h \<noteq> None \<and> 0 < hints s \<and> unfilledCells s \<noteq> [] \<and>
       gs' = Some (s\<lparr>hints := hints s - 1,
                     currentScore := max 0 (currentScore s - HINT_PENALTY)\<rparr>))) \<and>
   (\<not> is_hint c \<longrightarrow> (\<exists>s'. exec c (Some s) = Some s' \<and> hints s' = hints s)) \<and>
   (\<exists>s'. run cmds (Some s) = Some s' \<and> hints s' \<le> hints s \<and>
         (0 \<le> hints s \<longrightarrow> 0 \<le> hints s') \<and> (0 \<le> currentScore s \<longrightarrow> 0 \<le> currentScore s'))"
proof -
  have a: "\<not> is_hint c \<longrightarrow> (\<exists>s'. exec c (Some s) = Some s' \<and> hints s' = hints s)"
    using exec_Some[of c s] exec_hints_same[of c s] by blast
  show ?thesis
    using a getHint_refused[of s u] getHint_cases[of u s h gs'] run_hint_bounds[of cmds s]
    by simp
qed

theorem getHint_guards_counter_and_score_witness:
  "hints (after [GetHint (draw 1 2), GetHint (draw 1 2), GetHint (draw 1 2)] demo_game) \<le> 0 \<and>
   getHint (draw 1 2) (Some (after [GetHint (draw 1 2), GetHint (draw 1 2), GetHint (draw 1 2)] demo_game)) =
     (None, Some (after [GetHint (draw 1 2), GetHint (draw 1 2), GetHint (draw 1 2)] demo_game)) \<and>
   getHint (draw 1 2) (Some demo_game) =
     (Some (''2-0'', 3), Some (demo_game\<lparr>hints := 2\<rparr>)) \<and>
   \<not> is_hint UndoLastMove \<and>
   (\<exists>s'. exec UndoLastMove (Some demo_placed) = Some s' \<and> hints s' = hints demo_placed) \<and>
   (\<exists>s'. run [GetHint (draw 1 2), GetHint (draw 1 2), GetHint (draw 1 2), GetHint (draw 1 2)] (Some demo_game) = Some s' \<and>
         hints s' \<le> hints demo_game \<and> 0 \<le> hints s' \<and> 0 \<le> currentScore s')"
proof -
  let ?s3 = "after [GetHint (draw 1 2), GetHint (draw 1 2), GetHint (draw 1 2)] demo_game"
  have h0: "hints ?s3 \<le> 0" by code_simp
  have g: "getHint (draw 1 2) (Some demo_game) = (Some (''2-0'', 3), Some (demo_game\<lparr>hints := 2\<rparr>))"
    by code_simp
  have z: "0 \<le> hints demo_game \<and> 0 \<le> currentScore demo_game" by code_simp
  note t1 = getHint_guards_counter_and_score[where s = ?s3 and u = "draw 1 2"]
  note t2 = getHint_guards_counter_and_score[where s = demo_placed and c = UndoLastMove]
  note t3 = getHint_guards_counter_and_score[where s = demo_game and
      cmds = "[GetHint (draw 1 2), GetHint (draw 1 2), GetHint (draw 1 2), GetHint (draw 1 2)]"]
  have a: "getHint (draw 1 2) (Some ?s3) = (None, Some ?s3)" using t1 h0 by blast
  have b: "\<exists>s'. exec UndoLastMove (Some demo_placed) = Some s' \<and> hints s' = hints demo_placed"
    using t2 by simp
  have c: "\<exists>s'. run [GetHint (draw 1 2), GetHint (draw 1 2), GetHint (draw 1 2), GetHint (draw 1 2)] (Some demo_game) = Some s' \<and>
         hints s' \<le> hints demo_game \<and> 0 \<le> hints s' \<and> 0 \<le> currentScore s'"
    using t3 z by blast
  show ?thesis using h0 a g b c by simp
qed

subsection \<open>Undo on a complete game\<close>

text \<open>
  Claim C10: once the game is complete, \<open>placeTile\<close> and \<open>removeTile\<close> are refused but
  \<open>undoLastMove\<close> is not. In every state of a game that is complete and has a non-empty move
  log, \<open>undoLastMove\<close> returns true, pops the last move and changes the board: it clears
  the cell and frees the tile of a \<open>place\<close> move, or refills the cell and marks the tile
  used for a \<open>remove\<close> move. The completion flag stays set; nothing checks it again.
\<close>

theorem undo_accepted_on_complete_game:
  assumes r: "reachable s" and c: "isComplete s" and ne: "moves s \<noteq> []"
  shows "\<exists>s' tile.
           undoLastMove (Some s) = (True, Some s') \<and>
           isComplete s' \<and>
           moves s' = butlast (moves s) \<and>
           find_tile (tileId (last (moves s))) (availableNumbers s) = Some tile \<and>
           valueOf (cells (board s')) (cellId (last (moves s))) =
             (case move_type (last (moves s)) of
                MPlace \<Rightarrow> None
              | MRemove \<Rightarrow> Some (NumV (tile_value tile))) \<and>
           map_option isUsed (find_tile (tileId (last (moves s))) (availableNumbers s')) =
             Some (move_type (last (moves s)) = MRemove) \<and>
           placeTile now tid cid (Some s) = (False, Some s) \<and>
           removeTile now cid (Some s) = (False, Some s)"
proof -
  let ?m = "last (moves s)"
  have cons: "consistent s" using r by (rule reachable_consistent)
  have min: "?m \<in> set (moves s)" using ne by simp
  then obtain tile where tile: "find_tile (tileId ?m) (availableNumbers s) = Some tile"
    using cons unfolding consistent_def moves_known_alt by blast
  have key: "cellId ?m \<in> set (map fst (cells (board s)))"
    using cons min unfolding consistent_def moves_known_alt by blast
  then obtain cell where cell: "map_of (cells (board s)) (cellId ?m) = Some cell"
    by (metis map_of_None_keys option.exhaust)
  let ?s' = "checkEquations (undoEffect s)"
  have u: "undoLastMove (Some s) = (True, Some ?s')" using ne by (simp add: undoLastMove_eq)
  have eff: "isComplete ?s' \<and> moves ?s' = butlast (moves s) \<and>
      valueOf (cells (board ?s')) (cellId ?m) =
        (case move_type ?m of MPlace \<Rightarrow> None | MRemove \<Rightarrow> Some (NumV (tile_value tile))) \<and>
      map_option isUsed (find_tile (tileId ?m) (availableNumbers ?s')) = Some (move_type ?m = MRemove)"
    using tile cell key c
    by (cases "move_type ?m")
       (simp_all add: undoEffect_def Let_def valueOf_mutate find_tile_set_used)
  have p: "placeTile now tid cid (Some s) = (False, Some s)" using c by (simp add: placeTile_def)
  have rm: "removeTile now cid (Some s) = (False, Some s)" using c by (simp add: removeTile_def)
  show ?thesis using u eff tile p rm by blast
qed

theorem undo_accepted_on_complete_game_witness:
  "reachable demo_done \<and> isComplete demo_done \<and> moves demo_done \<noteq> [] \<and>
   (\<exists>s' tile.
      undoLastMove (Some demo_done) = (True, Some s') \<and>
      isComplete s' \<and>
      moves s' = butlast (moves demo_done) \<and>
      find_tile (tileId (last (moves demo_done))) (availableNumbers demo_done) = Some tile \<and>
      valueOf (cells (board s')) (cellId (last (moves demo_done))) =
        (case move_type (last (moves demo_done)) of
           MPlace \<Rightarrow> None
         | MRemove \<Rightarrow> Some (NumV (tile_value tile))) \<and>
      map_option isUsed (find_tile (tileId (last (moves demo_done))) (availableNumbers s')) =
        Some (move_type (last (moves demo_done)) = MRemove) \<and>
      placeTile 9 ''tile-2'' ''0-0'' (Some demo_done) = (False, Some demo_done) \<and>
      removeTile 9 ''0-0'' (Some demo_done) = (False, Some demo_done)) \<and>
   move_type (last (moves demo_done)) = MPlace \<and>
   \<not> solved (after [UndoLastMove] demo_done) \<and> isComplete (after [UndoLastMove] demo_done)"
proof -
  have a: "isComplete demo_done" by code_simp
  have b: "moves demo_done \<noteq> []" by code_simp
  have d: "move_type (last (moves demo_done)) = MPlace \<and>
           \<not> solved (after [UndoLastMove] demo_done) \<and> isComplete (after [UndoLastMove] demo_done)"
    by code_simp
  show ?thesis
    using undo_accepted_on_complete_game[OF reachable_demo(3) a b,
        where now = 9 and tid = "''tile-2''" and cid = "''0-0''"]
      reachable_demo(3) a b d
    by blast
qed

subsection \<open>Decimal text\<close>

lemma digit_char_cases:
  "d < 10 \<Longrightarrow> d = 0 \<or> d = 1 \<or> d = 2 \<or> d = 3 \<or> d = 4 \<or> d = 5 \<or> d = 6 \<or> d = 7 \<or> d = 8 \<or> d = (9::nat)"
  by arith

lemma is_digit_digit_char: "d < 10 \<Longrightarrow> is_digit (digit_char d)"
  using digit_char_cases[of d] by (auto simp: is_digit_def digit_char_def)

lemma digit_value_digit_char: "d < 10 \<Longrightarrow> digit_value (digit_char d) = int d"
  using digit_char_cases[of d] by (auto simp: digit_value_def digit_char_def)

lemma show_nat_digits: "list_all is_digit (show_nat n)"
proof (induction n rule: show_nat.induct)
  case (1 n)
  show ?case
  proof (cases "n < 10")
    case True
    then show ?thesis by (subst show_nat.simps) (simp add: is_digit_digit_char)
  next
    case False
    with 1 show ?thesis by (subst show_nat.simps) (simp add: is_digit_digit_char)
  qed
qed

lemma show_nat_nonempty: "show_nat n \<noteq> []"
  by (subst show_nat.simps) simp

lemma decimal_snoc: "decimal (ds @ [c]) = 10 * decimal ds + digit_value c"
  by (simp add: decimal_def)

lemma decimal_show_nat: "decimal (show_nat n) = int n"
proof (induction n rule: show_nat.induct)
  case (1 n)
  show ?case
  proof (cases "n < 10")
    case True
    then show ?thesis
      by (subst show_nat.simps) (simp add: decimal_def digit_value_digit_char)
  next
    case False
    with 1 have "decimal (show_nat (n div 10)) = int (n div 10)" by simp
    moreover have "int n = 10 * int (n div 10) + int (n mod 10)"
      by (metis mult_div_mod_eq of_nat_add of_nat_mult of_nat_numeral)
    ultimately show ?thesis using False
      by (subst show_nat.simps) (simp add: decimal_snoc digit_value_digit_char)
  qed
qed

lemma show_nat_inj: "show_nat m = show_nat n \<Longrightarrow> m = n"
  by (metis decimal_show_nat of_nat_eq_iff)

lemma show_int_nonneg: "0 \<le> i \<Longrightarrow> show_int i = show_nat (nat i)"
  by (simp add: show_int_def)

lemma not_digit_chars [simp]:
  "\<not> is_digit CHR ''-''" "\<not> is_digit CHR '' ''" "\<not> is_digit CHR ''=''"
  "\<not> is_digit CHR ''+''" "\<not> is_digit CHR ''*''" "\<not> is_digit CHR ''/''"
  by (simp_all add: is_digit_def)

lemma digit_not_space: "is_digit c \<Longrightarrow> \<not> is_space c"
  by (auto simp: is_digit_def is_space_def)

lemma takeWhile_run:
  "list_all P xs \<Longrightarrow> \<not> P y \<Longrightarrow> takeWhile P (xs @ y # ys) = xs"
  by (induction xs) auto

lemma dropWhile_run:
  "list_all P xs \<Longrightarrow> \<not> P y \<Longrightarrow> dropWhile P (xs @ y # ys) = y # ys"
  by (induction xs) auto

lemma takeWhile_all: "list_all P xs \<Longrightarrow> takeWhile P xs = xs"
  by (induction xs) auto

lemma cellIdOf_inj:
  assumes "0 \<le> x" "0 \<le> y" "0 \<le> x'" "0 \<le> y'" "cellIdOf x y = cellIdOf x' y'"
  shows "x = x' \<and> y = y'"
proof -
  have e: "show_nat (nat x) @ CHR ''-'' # show_nat (nat y) =
           show_nat (nat x') @ CHR ''-'' # show_nat (nat y')"
    using assms by (simp add: cellIdOf_def show_int_nonneg)
  have "takeWhile is_digit (show_nat (nat x) @ CHR ''-'' # show_nat (nat y)) = show_nat (nat x)"
    by (rule takeWhile_run[OF show_nat_digits]) simp
  moreover have "takeWhile is_digit (show_nat (nat x') @ CHR ''-'' # show_nat (nat y')) = show_nat (nat x')"
    by (rule takeWhile_run[OF show_nat_digits]) simp
  ultimately have a: "show_nat (nat x) = show_nat (nat x')" using e by simp
  with e have b: "show_nat (nat y) = show_nat (nat y')" by simp
  have "nat x = nat x'" using a by (rule show_nat_inj)
  moreover have "nat y = nat y'" using b by (rule show_nat_inj)
  ultimately show ?thesis using assms(1-4) by (simp add: eq_nat_nat_iff)
qed

subsection \<open>Reading an expression back\<close>

lemma show_nat_hd: "\<exists>d ds. show_nat n = d # ds \<and> is_digit d"
  using show_nat_nonempty[of n] show_nat_digits[of n] by (cases "show_nat n") auto

lemma dropWhile_space_show_nat:
  "dropWhile is_space (show_nat n @ rest) = show_nat n @ rest"
proof -
  obtain d ds where "show_nat n = d # ds" "is_digit d" using show_nat_hd by blast
  then show ?thesis by (simp add: digit_not_space)
qed

lemma operator_cases:
  assumes "op \<in> {''+'', ''-'', ''*'', ''/''}"
  shows "\<exists>c. op = [c] \<and> is_operator c \<and> \<not> is_space c \<and> \<not> is_digit c \<and> c \<noteq> CHR '' ''"
  using assms by (auto simp: is_operator_def is_space_def is_digit_def)

lemma dropWhile_space_show_nat' [simp]: "dropWhile is_space (show_nat n) = show_nat n"
  using dropWhile_space_show_nat[of n "[]"] by simp

lemma match_here_expression:
  assumes "op = [c]" "is_operator c" "\<not> is_space c" "\<not> is_digit c"
  shows "match_here (show_nat a @ '' '' @ op @ '' '' @ show_nat b @ '' = '' @ show_nat r) =
           Some (int a, c, int b, int r)"
proof -
  have s: "is_space CHR '' ''" by (simp add: is_space_def)
  have ne: "\<not> is_space CHR ''=''" by (simp add: is_space_def)
  show ?thesis
    using assms(2,3,4) s ne
    by (simp add: assms(1) match_here_def Let_def takeWhile_run dropWhile_run takeWhile_all
          show_nat_digits dropWhile_space_show_nat show_nat_nonempty decimal_show_nat)
qed

lemma regex_match_expression:
  assumes "op \<in> {''+'', ''-'', ''*'', ''/''}" "0 \<le> a" "0 \<le> b" "0 \<le> r"
  shows "\<exists>c. op = [c] \<and> regex_match (expressionOf a op b r) = Some (a, c, b, r)"
proof -
  from operator_cases[OF assms(1)] obtain c where
    c: "op = [c]" "is_operator c" "\<not> is_space c" "\<not> is_digit c" by blast
  let ?e = "show_nat (nat a) @ '' '' @ op @ '' '' @ show_nat (nat b) @ '' = '' @ show_nat (nat r)"
  have m: "match_here ?e = Some (a, c, b, r)"
    using match_here_expression[OF c, of "nat a" "nat b" "nat r"] assms by simp
  obtain d ds where "show_nat (nat a) = d # ds" using show_nat_hd by blast
  then obtain rest where "?e = d # rest" by simp
  with m have "regex_match ?e = Some (a, c, b, r)" by simp
  then show ?thesis using c(1) assms by (auto simp: expressionOf_def show_int_nonneg)
qed

lemma split_on_no: "c \<notin> set xs \<Longrightarrow> split_on c xs = [xs]"
  by (induction xs) auto

lemma split_on_sep: "c \<notin> set xs \<Longrightarrow> split_on c (xs @ c # ys) = xs # split_on c ys"
  by (induction xs) (auto split: list.splits)

lemma show_nat_no_space: "CHR '' '' \<notin> set (show_nat n)"
  using show_nat_digits[of n] by (auto simp: list_all_iff)

lemma split_expression:
  assumes "op \<in> {''+'', ''-'', ''*'', ''/''}" "0 \<le> a" "0 \<le> b" "0 \<le> r"
  shows "split_on CHR '' '' (expressionOf a op b r) =
           [show_nat (nat a), op, show_nat (nat b), ''='', show_nat (nat r)]"
proof -
  from operator_cases[OF assms(1)] obtain c where c: "op = [c]" "c \<noteq> CHR '' ''" by blast
  let ?sp = "CHR '' ''"
  have s5: "split_on ?sp (show_nat (nat r)) = [show_nat (nat r)]"
    by (rule split_on_no[OF show_nat_no_space])
  have s4: "split_on ?sp (''='' @ ?sp # show_nat (nat r)) = [''='', show_nat (nat r)]"
    by (subst split_on_sep) (simp_all add: s5)
  have s3: "split_on ?sp (show_nat (nat b) @ ?sp # (''='' @ ?sp # show_nat (nat r))) =
              [show_nat (nat b), ''='', show_nat (nat r)]"
    by (subst split_on_sep[OF show_nat_no_space]) (simp only: s4)
  have s2: "split_on ?sp ([c] @ ?sp # (show_nat (nat b) @ ?sp # (''='' @ ?sp # show_nat (nat r)))) =
              [[c], show_nat (nat b), ''='', show_nat (nat r)]"
    using c(2) by (subst split_on_sep) (simp_all only: s3, simp_all)
  have s1: "split_on ?sp (show_nat (nat a) @ ?sp #
               ([c] @ ?sp # (show_nat (nat b) @ ?sp # (''='' @ ?sp # show_nat (nat r))))) =
              [show_nat (nat a), [c], show_nat (nat b), ''='', show_nat (nat r)]"
    by (subst split_on_sep[OF show_nat_no_space]) (simp only: s2)
  then show ?thesis using c(1) assms by (simp add: expressionOf_def show_int_nonneg)
qed

lemma parseInt_show_nat: "parseInt (Some (show_nat n)) = Some (int n)"
  by (simp add: parseInt_def show_nat_nonempty show_nat_digits decimal_show_nat)

subsection \<open>Draws\<close>

lemma random_below_nonneg: "0 \<le> n \<Longrightarrow> 0 \<le> random_below u n"
  by transfer simp

lemma random_below_less: "0 < n \<Longrightarrow> random_below u n < n"
proof (transfer, clarify)
  fix n :: int and u :: real
  assume a: "0 < n" "0 \<le> u" "u < 1"
  have "u * real_of_int n < real_of_int n" using a by simp
  then show "\<lfloor>u * real_of_int n\<rfloor> < n" by (simp add: floor_less_iff)
qed

lemma only_drawn_refl [simp]: "only_drawn g g"
  by (simp add: only_drawn_def)

lemma only_drawn_trans: "only_drawn g g1 \<Longrightarrow> only_drawn g1 g2 \<Longrightarrow> only_drawn g g2"
  unfolding only_drawn_def by (metis PuzzleGenerator.surjective PuzzleGenerator.update_convs(6))

lemma only_drawn_fields:
  assumes "only_drawn g g'"
  shows "gen_gridSize g' = gen_gridSize g" "gen_equationCount g' = gen_equationCount g"
    "usedPositions g' = usedPositions g" "gen_equations g' = gen_equations g"
    "gen_cells g' = gen_cells g" "width g' = width g" "height g' = height g"
proof -
  have e: "g' = g\<lparr>drawn := drawn g'\<rparr>" using assms by (simp add: only_drawn_def)
  show "gen_gridSize g' = gen_gridSize g" by (subst e) simp
  then show "width g' = width g" "height g' = height g" by (simp_all add: width_def height_def)
  show "gen_equationCount g' = gen_equationCount g" by (subst e) simp
  show "usedPositions g' = usedPositions g" by (subst e) simp
  show "gen_equations g' = gen_equations g" by (subst e) simp
  show "gen_cells g' = gen_cells g" by (subst e) simp
qed

lemma nextRandom_only: "nextRandom rnd g = (u, g') \<Longrightarrow> only_drawn g g'"
  by (auto simp: nextRandom_def only_drawn_def)

lemma randomInt_only: "randomInt rnd n g = (i, g') \<Longrightarrow> only_drawn g g'"
  by (auto simp: randomInt_def only_drawn_def nextRandom_def)

lemma randomInt_range:
  assumes "randomInt rnd n g = (i, g')"
  shows "0 \<le> n \<Longrightarrow> 0 \<le> i" and "0 < n \<Longrightarrow> i < n"
  using assms by (auto simp: randomInt_def nextRandom_def random_below_nonneg random_below_less)

lemma getRandomOperation_spec:
  assumes "getRandomOperation rnd g = (operation, g')"
  shows "operation \<in> {''+'', ''-'', ''*'', ''/''} \<and> only_drawn g g'"
proof -
  obtain u g1 where n: "nextRandom rnd g = (u, g1)" by (cases "nextRandom rnd g")
  let ?ops = "[''+'', ''-'', ''*''] @ (if random_less u (1 / 10) then [''/''] else [])"
  obtain i g2 where r: "randomInt rnd (int (length ?ops)) g1 = (i, g2)"
    by (cases "randomInt rnd (int (length ?ops)) g1")
  have res: "operation = ?ops ! nat i" "g' = g2"
    using assms n r by (simp_all add: getRandomOperation_def Let_def)
  have "0 \<le> i" "i < int (length ?ops)" using randomInt_range[OF r] by simp_all
  then have "nat i < length ?ops" by simp
  then have "?ops ! nat i \<in> set ?ops" by (rule nth_mem)
  then have "operation \<in> {''+'', ''-'', ''*'', ''/''}" using res(1) by (auto split: if_splits)
  moreover have "only_drawn g g'"
    using only_drawn_trans[OF nextRandom_only[OF n] randomInt_only[OF r]] res(2) by simp
  ultimately show ?thesis by simp
qed

lemma generateNumbers_plus:
  assumes "generateNumbers rnd ''+'' g = ((num1, num2, res), g')"
  shows "1 \<le> num1 \<and> num1 \<le> 20 \<and> 1 \<le> num2 \<and> num2 \<le> 20 \<and> res = num1 + num2 \<and> only_drawn g g'"
proof -
  obtain a g1 where a: "randomInt rnd 20 g = (a, g1)" by (cases "randomInt rnd 20 g")
  obtain b g2 where b: "randomInt rnd 20 g1 = (b, g2)" by (cases "randomInt rnd 20 g1")
  have "num1 = a + 1" "num2 = b + 1" "res = num1 + num2" "g' = g2"
    using assms a b by (simp_all add: generateNumbers_def Let_def)
  then show ?thesis
    using randomInt_range[OF a] randomInt_range[OF b]
      only_drawn_trans[OF randomInt_only[OF a] randomInt_only[OF b]] by simp
qed

lemma generateNumbers_minus:
  assumes "generateNumbers rnd ''-'' g = ((num1, num2, res), g')"
  shows "1 \<le> res \<and> res \<le> 30 \<and> 1 \<le> num2 \<and> num2 \<le> res \<and> num1 = res + num2 \<and> only_drawn g g'"
proof -
  obtain a g1 where a: "randomInt rnd 30 g = (a, g1)" by (cases "randomInt rnd 30 g")
  obtain b g2 where b: "randomInt rnd (a + 1) g1 = (b, g2)" by (cases "randomInt rnd (a + 1) g1")
  have e: "res = a + 1" "num2 = b + 1" "num1 = res + num2" "g' = g2"
    using assms a b by (simp_all add: generateNumbers_def Let_def)
  have "0 \<le> a" "a < 30" using randomInt_range[OF a] by simp_all
  moreover from this have "0 \<le> b" "b < a + 1" using randomInt_range[OF b] by simp_all
  ultimately show ?thesis
    using e only_drawn_trans[OF randomInt_only[OF a] randomInt_only[OF b]] by simp
qed

lemma generateNumbers_times:
  assumes "generateNumbers rnd ''*'' g = ((num1, num2, res), g')"
  shows "1 \<le> num1 \<and> num1 \<le> 12 \<and> 1 \<le> num2 \<and> num2 \<le> 12 \<and> res = num1 * num2 \<and> only_drawn g g'"
proof -
  obtain a g1 where a: "randomInt rnd 12 g = (a, g1)" by (cases "randomInt rnd 12 g")
  obtain b g2 where b: "randomInt rnd 12 g1 = (b, g2)" by (cases "randomInt rnd 12 g1")
  have "num1 = a + 1" "num2 = b + 1" "res = num1 * num2" "g' = g2"
    using assms a b by (auto simp: generateNumbers_def Let_def)
  then show ?thesis
    using randomInt_range[OF a] randomInt_range[OF b]
      only_drawn_trans[OF randomInt_only[OF a] randomInt_only[OF b]] by simp
qed

lemma generateNumbers_divide:
  assumes "generateNumbers rnd ''/'' g = ((num1, num2, res), g')"
  shows "1 \<le> res \<and> res \<le> 20 \<and> 2 \<le> num2 \<and> num2 \<le> 11 \<and> num1 = res * num2 \<and> only_drawn g g'"
proof -
  obtain a g1 where a: "randomInt rnd 20 g = (a, g1)" by (cases "randomInt rnd 20 g")
  obtain b g2 where b: "randomInt rnd 10 g1 = (b, g2)" by (cases "randomInt rnd 10 g1")
  have "res = a + 1" "num2 = b + 2" "num1 = res * num2" "g' = g2"
    using assms a b by (auto simp: generateNumbers_def Let_def)
  then show ?thesis
    using randomInt_range[OF a] randomInt_range[OF b]
      only_drawn_trans[OF randomInt_only[OF a] randomInt_only[OF b]] by simp
qed

text \<open>
  Claim C4: whatever the draws, the triple \<open>generateNumbers\<close> returns satisfies its operator
  exactly. For \<open>+\<close> both operands are in 1..20 and the result is their sum; for \<open>-\<close> the
  result is in 1..30, the second operand in 1..result and the first is their sum, so the
  difference is the result and the first operand exceeds the second, which is positive; for
  \<open>*\<close> both operands are in 1..12 and the result is their product; for \<open>/\<close> the result is in
  1..20, the divisor in 2..11 (never zero or one) and the dividend is result times divisor,
  so the division is exact. In each case the test of the engine's \<open>validateEquation\<close> for
  that operator holds.
\<close>

theorem generateNumbers_exact:
  assumes "generateNumbers rnd operation g = ((num1, num2, res), g')"
  shows "(operation = ''+'' \<longrightarrow>
            1 \<le> num1 \<and> num1 \<le> 20 \<and> 1 \<le> num2 \<and> num2 \<le> 20 \<and> res = num1 + num2) \<and>
         (operation = ''-'' \<longrightarrow>
            1 \<le> res \<and> res \<le> 30 \<and> 1 \<le> num2 \<and> num2 \<le> res \<and> num1 = res + num2 \<and>
            num1 - num2 = res \<and> 0 < num2 \<and> num2 < num1) \<and>
         (operation = ''*'' \<longrightarrow>
            1 \<le> num1 \<and> num1 \<le> 12 \<and> 1 \<le> num2 \<and> num2 \<le> 12 \<and> res = num1 * num2) \<and>
         (operation = ''/'' \<longrightarrow>
            1 \<le> res \<and> res \<le> 20 \<and> 2 \<le> num2 \<and> num2 \<le> 11 \<and> num1 = res * num2 \<and>
            real_of_int num1 / real_of_int num2 = real_of_int res) \<and>
         (operation \<in> {''+'', ''-'', ''*'', ''/''} \<longrightarrow> operatorHolds operation num1 num2 res)"
proof -
  have p: "operation = ''+'' \<longrightarrow>
            1 \<le> num1 \<and> num1 \<le> 20 \<and> 1 \<le> num2 \<and> num2 \<le> 20 \<and> res = num1 + num2"
    using generateNumbers_plus assms by blast
  have m: "operation = ''-'' \<longrightarrow>
            1 \<le> res \<and> res \<le> 30 \<and> 1 \<le> num2 \<and> num2 \<le> res \<and> num1 = res + num2 \<and>
            num1 - num2 = res \<and> 0 < num2 \<and> num2 < num1"
    using generateNumbers_minus[of rnd g num1 num2 res g'] assms by auto
  have t: "operation = ''*'' \<longrightarrow>
            1 \<le> num1 \<and> num1 \<le> 12 \<and> 1 \<le> num2 \<and> num2 \<le> 12 \<and> res = num1 * num2"
    using generateNumbers_times assms by blast
  have d: "operation = ''/'' \<longrightarrow>
            1 \<le> res \<and> res \<le> 20 \<and> 2 \<le> num2 \<and> num2 \<le> 11 \<and> num1 = res * num2 \<and>
            real_of_int num1 / real_of_int num2 = real_of_int res"
    using generateNumbers_divide[of rnd g num1 num2 res g'] assms by auto
  have h: "operation \<in> {''+'', ''-'', ''*'', ''/''} \<longrightarrow> operatorHolds operation num1 num2 res"
    using p m t d by (auto simp: operatorHolds_def)
  show ?thesis using p m t d h by blast
qed

theorem generateNumbers_exact_witness:
  "generateNumbers rnd_half ''/'' (new_PuzzleGenerator Easy) =
     ((77, 7, 11), (new_PuzzleGenerator Easy)\<lparr>drawn := 2\<rparr>) \<and>
   (2::int) \<le> 7 \<and> (7::int) \<le> 11 \<and> (77::int) = 11 * 7 \<and>
   real_of_int 77 / real_of_int 7 = real_of_int 11 \<and> operatorHolds ''/'' 77 7 11"
proof -
  have e: "generateNumbers rnd_half ''/'' (new_PuzzleGenerator Easy) =
     ((77, 7, 11), (new_PuzzleGenerator Easy)\<lparr>drawn := 2\<rparr>)"
    by code_simp
  from generateNumbers_exact[OF e] e show ?thesis by simp
qed

subsection \<open>The grid after reset\<close>

lemma set_gridCoordinates:
  "set (gridCoordinates w h) = {p. 0 \<le> fst p \<and> fst p < w \<and> 0 \<le> snd p \<and> snd p < h}"
proof -
  have "set (gridCoordinates w h) = (\<Union>y \<in> {0..h - 1}. (\<lambda>x. (x, y)) ` {0..w - 1})"
    by (simp add: gridCoordinates_def)
  also have "\<dots> = {p. 0 \<le> fst p \<and> fst p < w \<and> 0 \<le> snd p \<and> snd p < h}"
    by (auto simp: image_iff)
  finally show ?thesis .
qed

lemma in_gridCoordinates: "p \<in> set (gridCoordinates w h) \<longleftrightarrow> inGrid (w, h) p"
  by (auto simp: set_gridCoordinates inGrid_def)

lemma distinct_rows:
  "distinct ys \<Longrightarrow> distinct xs \<Longrightarrow> distinct (concat (map (\<lambda>y. map (\<lambda>x. (x, y)) xs) ys))"
proof (induction ys)
  case Nil
  then show ?case by simp
next
  case (Cons y ys)
  have "distinct (map (\<lambda>x. (x, y)) xs)"
    using Cons.prems(2) by (simp add: distinct_map inj_on_def)
  moreover have "set (map (\<lambda>x. (x, y)) xs) \<inter> set (concat (map (\<lambda>y. map (\<lambda>x. (x, y)) xs) ys)) = {}"
    using Cons.prems(1) by auto
  ultimately show ?case using Cons by simp
qed

lemma distinct_gridCoordinates: "distinct (gridCoordinates w h)"
  unfolding gridCoordinates_def by (rule distinct_rows) simp_all

lemma distinct_gridIds: "distinct (gridIds w h)"
proof -
  have "inj_on (\<lambda>p. cellIdOf (fst p) (snd p)) (set (gridCoordinates w h))"
  proof (rule inj_onI)
    fix p q
    assume p: "p \<in> set (gridCoordinates w h)" and q: "q \<in> set (gridCoordinates w h)"
      and e: "cellIdOf (fst p) (snd p) = cellIdOf (fst q) (snd q)"
    have "0 \<le> fst p" "0 \<le> snd p" "0 \<le> fst q" "0 \<le> snd q"
      using p q by (simp_all add: set_gridCoordinates)
    from cellIdOf_inj[OF this e] show "p = q" by (simp add: prod_eq_iff)
  qed
  then show ?thesis
    unfolding gridIds_def by (simp add: distinct_map distinct_gridCoordinates)
qed

lemma map_set_fresh: "k \<notin> fst ` set xs \<Longrightarrow> map_set k v xs = xs @ [(k, v)]"
  by (induction xs) auto

lemma foldl_map_set_fresh:
  "distinct (map f ps) \<Longrightarrow> set (map f ps) \<inter> fst ` set acc = {} \<Longrightarrow>
     foldl (\<lambda>cs p. map_set (f p) (v p) cs) acc ps = acc @ map (\<lambda>p. (f p, v p)) ps"
proof (induction ps arbitrary: acc)
  case Nil
  then show ?case by simp
next
  case (Cons p ps)
  have f: "f p \<notin> fst ` set acc" using Cons.prems(2) by auto
  have d: "distinct (map f ps)" using Cons.prems(1) by simp
  have i: "set (map f ps) \<inter> fst ` set (acc @ [(f p, v p)]) = {}"
    using Cons.prems by auto
  show ?case using Cons.IH[OF d i] by (simp add: map_set_fresh[OF f])
qed

lemma reset_cells:
  "gen_cells (reset g) =
     map (\<lambda>p. (cellIdOf (fst p) (snd p), emptyCell (fst p) (snd p))) (gridCoordinates (width g) (height g))"
proof -
  have d: "distinct (map (\<lambda>p. cellIdOf (fst p) (snd p)) (gridCoordinates (width g) (height g)))"
    using distinct_gridIds[of "width g" "height g"] by (simp add: gridIds_def)
  have "foldl (\<lambda>cs p. map_set (cellIdOf (fst p) (snd p)) (emptyCell (fst p) (snd p)) cs) []
          (gridCoordinates (width g) (height g)) =
        [] @ map (\<lambda>p. (cellIdOf (fst p) (snd p), emptyCell (fst p) (snd p)))
          (gridCoordinates (width g) (height g))"
    by (rule foldl_map_set_fresh[OF d]) simp
  then show ?thesis by (simp add: reset_def case_prod_unfold)
qed

lemma reset_frame [simp]:
  "gen_gridSize (reset g) = gen_gridSize g" "gen_equationCount (reset g) = gen_equationCount g"
  "usedPositions (reset g) = {}" "gen_equations (reset g) = []" "drawn (reset g) = drawn g"
  "width (reset g) = width g" "height (reset g) = height g"
  by (simp_all add: reset_def width_def height_def)

lemma map_of_reset:
  assumes "p \<in> set (gridCoordinates (width g) (height g))"
  shows "map_of (gen_cells (reset g)) (cellIdOf (fst p) (snd p)) = Some (emptyCell (fst p) (snd p))"
proof -
  have d: "distinct (map fst (gen_cells (reset g)))"
    using distinct_gridIds[of "width g" "height g"]
    by (simp add: reset_cells gridIds_def comp_def)
  have "(cellIdOf (fst p) (snd p), emptyCell (fst p) (snd p)) \<in> set (gen_cells (reset g))"
    using assms by (auto simp: reset_cells)
  with d show ?thesis by (rule map_of_is_SomeI)
qed

lemma gen_inv_reset:
  assumes "6 \<le> width g" "6 \<le> height g"
  shows "gen_inv 0 (reset g)"
proof -
  have k: "map fst (gen_cells (reset g)) = gridIds (width (reset g)) (height (reset g))"
    by (simp add: reset_cells gridIds_def comp_def)
  have e: "\<forall>p \<in> set (gridCoordinates (width (reset g)) (height (reset g))).
         cellIdOf (fst p) (snd p) \<notin> usedPositions (reset g) \<longrightarrow>
         map_of (gen_cells (reset g)) (cellIdOf (fst p) (snd p)) = Some (emptyCell (fst p) (snd p))"
    using map_of_reset[of _ g] by simp
  show ?thesis
    unfolding gen_inv_def using assms k e by simp
qed

subsection \<open>Writing a strip\<close>

lemma writeCells_spec:
  assumes "\<forall>p \<in> set ps. slotId p \<in> set (map fst (gen_cells g))" "distinct (map slotId ps)"
  shows "\<exists>g'. writeCells ident ps g = Inr g' \<and>
           usedPositions g' = usedPositions g \<union> set (map slotId ps) \<and>
           map fst (gen_cells g') = map fst (gen_cells g) \<and>
           gen_equations g' = gen_equations g \<and> gen_gridSize g' = gen_gridSize g \<and>
           gen_equationCount g' = gen_equationCount g \<and> drawn g' = drawn g \<and>
           (\<forall>k. map_of (gen_cells g') k =
                  (case List.find (\<lambda>p. slotId p = k) ps of
                     None \<Rightarrow> map_of (gen_cells g) k
                   | Some p \<Rightarrow> map_option (written ident p) (map_of (gen_cells g) k)))"
  using assms
proof (induction ps arbitrary: g)
  case Nil
  then show ?case by simp
next
  case (Cons p ps)
  let ?k = "slotId p"
  let ?g1 = "g\<lparr>usedPositions := insert ?k (usedPositions g)\<rparr>"
  obtain cell where cell: "map_of (gen_cells g) ?k = Some cell"
    using Cons.prems(1) by (metis list.set_intros(1) map_of_None_keys option.exhaust)
  let ?g2 = "?g1\<lparr>gen_cells := mutate ?k (written ident p) (gen_cells ?g1)\<rparr>"
  have step: "writeCells ident (p # ps) g = writeCells ident ps ?g2"
    using cell by (simp add: Let_def)
  have keys2: "map fst (gen_cells ?g2) = map fst (gen_cells g)" by simp
  have pre1: "\<forall>q \<in> set ps. slotId q \<in> set (map fst (gen_cells ?g2))"
    using Cons.prems(1) keys2 by simp
  have pre2: "distinct (map slotId ps)" using Cons.prems(2) by simp
  from Cons.IH[OF pre1 pre2] obtain g' where
    r: "writeCells ident ps ?g2 = Inr g'"
    and u: "usedPositions g' = usedPositions ?g2 \<union> set (map slotId ps)"
    and k: "map fst (gen_cells g') = map fst (gen_cells ?g2)"
    and f: "gen_equations g' = gen_equations ?g2" "gen_gridSize g' = gen_gridSize ?g2"
           "gen_equationCount g' = gen_equationCount ?g2" "drawn g' = drawn ?g2"
    and m: "\<forall>k. map_of (gen_cells g') k =
                  (case List.find (\<lambda>p. slotId p = k) ps of
                     None \<Rightarrow> map_of (gen_cells ?g2) k
                   | Some p \<Rightarrow> map_option (written ident p) (map_of (gen_cells ?g2) k))"
    by blast
  have notin: "?k \<notin> set (map slotId ps)" using Cons.prems(2) by simp
  have m': "map_of (gen_cells g') k' =
                  (case List.find (\<lambda>q. slotId q = k') (p # ps) of
                     None \<Rightarrow> map_of (gen_cells g) k'
                   | Some q \<Rightarrow> map_option (written ident q) (map_of (gen_cells g) k'))" for k'
  proof (cases "k' = ?k")
    case True
    have "List.find (\<lambda>q. slotId q = k') ps = None"
      unfolding find_None_iff
    proof (rule notI, elim exE conjE)
      fix x
      assume "x \<in> set ps" "slotId x = k'"
      then have "slotId p \<in> slotId ` set ps" using True by (metis image_eqI)
      with notin show False by simp
    qed
    then show ?thesis using m True by (simp add: map_of_mutate)
  next
    case False
    then have a: "map_of (gen_cells ?g2) k' = map_of (gen_cells g) k'"
      by (simp add: map_of_mutate)
    show ?thesis using m False a by (auto split: option.splits)
  qed
  show ?case
    apply (rule exI[of _ g'])
    using step r u k f m' by auto
qed

lemma length_stripCoordinates [simp]: "length (stripCoordinates hz s) = 5"
  by (simp add: stripCoordinates_def)

lemma length_stripIds [simp]: "length (stripIds hz s) = 5"
  by (simp add: stripIds_def)

lemma stripCoordinates_distinct: "distinct (stripCoordinates hz s)"
  by (cases s) (simp add: stripCoordinates_def)

lemma stripIds_distinct:
  assumes "list_all (inGrid dims) (stripCoordinates hz s)"
  shows "distinct (stripIds hz s)"
proof -
  have "inj_on (\<lambda>p. cellIdOf (fst p) (snd p)) (set (stripCoordinates hz s))"
  proof (rule inj_onI)
    fix p q
    assume p: "p \<in> set (stripCoordinates hz s)" and q: "q \<in> set (stripCoordinates hz s)"
      and e: "cellIdOf (fst p) (snd p) = cellIdOf (fst q) (snd q)"
    have "0 \<le> fst p" "0 \<le> snd p" "0 \<le> fst q" "0 \<le> snd q"
      using p q assms by (simp_all add: list_all_iff inGrid_def)
    from cellIdOf_inj[OF this e] show "p = q" by (simp add: prod_eq_iff)
  qed
  then show ?thesis
    unfolding stripIds_def by (simp add: distinct_map stripCoordinates_distinct)
qed

lemma stripIds_in_grid:
  assumes "list_all (inGrid (w, h)) (stripCoordinates hz s)"
  shows "set (stripIds hz s) \<subseteq> set (gridIds w h)"
  using assms by (auto simp: stripIds_def gridIds_def list_all_iff in_gridCoordinates)

lemma find_distinct_nth:
  assumes "distinct (map f ps)" "i < length ps"
  shows "List.find (\<lambda>p. f p = f (ps ! i)) ps = Some (ps ! i)"
  using assms
proof (induction ps arbitrary: i)
  case Nil
  then show ?case by simp
next
  case (Cons p ps)
  show ?case
  proof (cases i)
    case 0
    then show ?thesis by simp
  next
    case (Suc j)
    then have "f (ps ! j) \<in> set (map f ps)" using Cons.prems(2) by simp
    then have "f p \<noteq> f (ps ! j)" using Cons.prems(1) by auto
    then show ?thesis using Suc Cons by simp
  qed
qed

subsection \<open>Committing an equation\<close>

lemma equation_ok_cong:
  assumes "\<And>i. i < 5 \<Longrightarrow> map_of cs' (eq_cells e ! i) = map_of cs (eq_cells e ! i)"
  shows "equation_ok dims cs' e = equation_ok dims cs e"
proof -
  have n: "numberCell cs' i (eq_cells e ! j) n = numberCell cs i (eq_cells e ! j) n"
    if "j < 5" for i j n
    using assms[OF that] by (simp add: numberCell_def)
  have s: "symbolCell cs' i (eq_cells e ! j) t v = symbolCell cs i (eq_cells e ! j) t v"
    if "j < 5" for i j t v
    using assms[OF that] by (simp add: symbolCell_def)
  have b: "isBlank cs' (eq_cells e ! j) = isBlank cs (eq_cells e ! j)" if "j < 5" for j
    using assms[OF that] by (simp add: isBlank_def)
  show ?thesis
    unfolding equation_ok_def by (simp add: n s b)
qed

lemma knownIds_mono: "n \<le> n' \<Longrightarrow> b \<le> b' \<Longrightarrow> knownIds n b \<subseteq> knownIds n' b'"
  unfolding knownIds_def by (rule Un_mono) (use le_trans in blast, use less_le_trans in blast)

lemma slots_ids:
  assumes "slots_ok hz s op n1 n2 r ps"
  shows "map slotId ps = stripIds hz s" "length ps = 5"
proof -
  have c: "map (\<lambda>p. (slot_x p, slot_y p)) ps = stripCoordinates hz s"
    using assms by (simp add: slots_ok_def)
  have "map slotId ps = map (\<lambda>q. cellIdOf (fst q) (snd q)) (map (\<lambda>p. (slot_x p, slot_y p)) ps)"
    by (simp add: slotId_def comp_def)
  then show "map slotId ps = stripIds hz s" by (simp add: c stripIds_def)
  show "length ps = 5" using arg_cong[OF c, of length] by simp
qed

lemma written_emptyCell:
  "written ident p (emptyCell x y) =
     \<lparr>cell_id = cellIdOf x y, cell_type = slot_type p, cell_value = slot_value p,
      position = (x, y), isFixed = slot_fixed p, isCorrect = None, belongsToEquation = [ident]\<rparr>"
  by (simp add: written_def emptyCell_def)

lemma gen_invD:
  assumes "gen_inv bound g"
  shows "6 \<le> width g" "6 \<le> height g"
    "map fst (gen_cells g) = gridIds (width g) (height g)"
    "\<And>e. e \<in> set (gen_equations g) \<Longrightarrow> equation_ok (gen_gridSize g) (gen_cells g) e"
    "distinct (map eq_id (gen_equations g))"
    "usedPositions g = (\<Union>e \<in> set (gen_equations g). set (eq_cells e))"
    "\<And>p. p \<in> set (gridCoordinates (width g) (height g)) \<Longrightarrow>
         cellIdOf (fst p) (snd p) \<notin> usedPositions g \<Longrightarrow>
         map_of (gen_cells g) (cellIdOf (fst p) (snd p)) = Some (emptyCell (fst p) (snd p))"
    "\<And>e. e \<in> set (gen_equations g) \<Longrightarrow> eq_id e \<in> knownIds (length (gen_equations g)) bound"
proof -
  note i = assms[unfolded gen_inv_def]
  note r1 = i[THEN conjunct2]
  note r2 = r1[THEN conjunct2]
  note r3 = r2[THEN conjunct2]
  note r4 = r3[THEN conjunct2]
  note r5 = r4[THEN conjunct2]
  note r6 = r5[THEN conjunct2]
  show "6 \<le> width g" by (rule i[THEN conjunct1])
  show "6 \<le> height g" by (rule r1[THEN conjunct1])
  show "map fst (gen_cells g) = gridIds (width g) (height g)" by (rule r2[THEN conjunct1])
  show "distinct (map eq_id (gen_equations g))" by (rule r4[THEN conjunct1])
  show "usedPositions g = (\<Union>e \<in> set (gen_equations g). set (eq_cells e))"
    by (rule r5[THEN conjunct1])
  show "equation_ok (gen_gridSize g) (gen_cells g) e" if "e \<in> set (gen_equations g)" for e
    using r3[THEN conjunct1] that by (rule bspec)
  show "map_of (gen_cells g) (cellIdOf (fst p) (snd p)) = Some (emptyCell (fst p) (snd p))"
    if "p \<in> set (gridCoordinates (width g) (height g))" "cellIdOf (fst p) (snd p) \<notin> usedPositions g" for p
    using bspec[OF r6[THEN conjunct1] that(1)] that(2) by (rule mp)
  show "eq_id e \<in> knownIds (length (gen_equations g)) bound" if "e \<in> set (gen_equations g)" for e
    using r6[THEN conjunct2] that by (rule bspec)
qed

lemma commit_preserves:
  assumes inv: "gen_inv bound g"
    and slots: "slots_ok hz (x, y) op n1 n2 r ps"
    and grid: "list_all (inGrid (gen_gridSize g)) (stripCoordinates hz (x, y))"
    and free: "set (stripIds hz (x, y)) \<inter> usedPositions g = {}"
    and op: "op \<in> {''+'', ''-'', ''*'', ''/''}" "0 \<le> n1" "0 \<le> n2" "0 \<le> r" "operatorHolds op n1 n2 r"
    and fresh: "ident \<notin> eq_id ` set (gen_equations g)"
    and known: "ident \<in> knownIds (Suc (length (gen_equations g))) bound'" "bound \<le> bound'"
  shows "\<exists>g'. commitEquation ident ps (expressionOf n1 op n2 r) r hz x y g = Inr g' \<and>
           gen_inv bound' g' \<and>
           length (gen_equations g') = Suc (length (gen_equations g)) \<and>
           isHorizontal (last (gen_equations g')) = hz \<and>
           butlast (gen_equations g') = gen_equations g \<and>
           gen_gridSize g' = gen_gridSize g \<and> gen_equationCount g' = gen_equationCount g \<and>
           drawn g' = drawn g"
proof -
  let ?ids = "stripIds hz (x, y)"
  let ?cs = "stripCoordinates hz (x, y)"
  let ?dims = "gen_gridSize g"
  have ids: "map slotId ps = ?ids" and len: "length ps = 5" using slots_ids[OF slots] by simp_all
  have dims: "?dims = (width g, height g)" by (simp add: width_def height_def)
  have keys: "map fst (gen_cells g) = gridIds (width g) (height g)"
    by (rule gen_invD(3)[OF inv])
  have dist: "distinct ?ids" using stripIds_distinct[OF grid] .
  have sub: "set ?ids \<subseteq> set (map fst (gen_cells g))"
    using stripIds_in_grid[of "width g" "height g" hz "(x, y)"] grid keys dims by simp
  have pre1: "\<forall>p \<in> set ps. slotId p \<in> set (map fst (gen_cells g))"
    using sub ids by (metis image_eqI set_map subsetD)
  have pre2: "distinct (map slotId ps)" using dist ids by simp
  from writeCells_spec[OF pre1 pre2, of ident] obtain g1 where
    w: "writeCells ident ps g = Inr g1"
    and u1: "usedPositions g1 = usedPositions g \<union> set ?ids"
    and k1: "map fst (gen_cells g1) = map fst (gen_cells g)"
    and f1: "gen_equations g1 = gen_equations g" "gen_gridSize g1 = gen_gridSize g"
            "gen_equationCount g1 = gen_equationCount g" "drawn g1 = drawn g"
    and m1: "\<forall>k. map_of (gen_cells g1) k =
                  (case List.find (\<lambda>p. slotId p = k) ps of
                     None \<Rightarrow> map_of (gen_cells g) k
                   | Some p \<Rightarrow> map_option (written ident p) (map_of (gen_cells g) k))"
    unfolding ids by blast
  let ?e = "\<lparr>eq_id = ident, eq_cells = ?ids, expression = expressionOf n1 op n2 r,
             eq_result = r, isHorizontal = hz, startPosition = (x, y),
             eqIsComplete = False, eqIsValid = False\<rparr>"
  let ?g' = "g1\<lparr>gen_equations := gen_equations g1 @ [?e]\<rparr>"
  have res: "commitEquation ident ps (expressionOf n1 op n2 r) r hz x y g = Inr ?g'"
    using w ids by (simp add: commitEquation_def)
  \<comment> \<open>cells outside the strip are untouched\<close>
  have outside: "map_of (gen_cells g1) k = map_of (gen_cells g) k" if "k \<notin> set ?ids" for k
  proof -
    have "List.find (\<lambda>p. slotId p = k) ps = None"
      unfolding find_None_iff
    proof (rule notI, elim exE conjE)
      fix q assume "q \<in> set ps" "slotId q = k"
      then have "k \<in> set (map slotId ps)" by (metis image_eqI set_map)
      with that ids show False by simp
    qed
    with m1 show ?thesis by simp
  qed
  \<comment> \<open>cells of the strip are written over empty cells\<close>
  have inside: "map_of (gen_cells g1) (?ids ! i) =
      Some (written ident (ps ! i) (emptyCell (fst (?cs ! i)) (snd (?cs ! i))))" if "i < 5" for i
  proof -
    have idi: "?ids ! i = slotId (ps ! i)" using ids that len by (metis nth_map)
    have "List.find (\<lambda>p. slotId p = slotId (ps ! i)) ps = Some (ps ! i)"
      using find_distinct_nth[OF pre2] that len by simp
    then have a: "map_of (gen_cells g1) (?ids ! i) =
        map_option (written ident (ps ! i)) (map_of (gen_cells g) (?ids ! i))"
      using m1 idi by simp
    have ci: "?cs ! i \<in> set ?cs" using that by simp
    then have "inGrid (width g, height g) (?cs ! i)" using grid dims by (simp add: list_all_iff)
    then have ing: "?cs ! i \<in> set (gridCoordinates (width g) (height g))"
      by (simp add: in_gridCoordinates)
    have idc: "?ids ! i = cellIdOf (fst (?cs ! i)) (snd (?cs ! i))"
      using that by (simp add: stripIds_def)
    have "?ids ! i \<in> set ?ids" using that by simp
    then have "cellIdOf (fst (?cs ! i)) (snd (?cs ! i)) \<notin> usedPositions g"
      using free idc by auto
    then have "map_of (gen_cells g) (?ids ! i) = Some (emptyCell (fst (?cs ! i)) (snd (?cs ! i)))"
      using gen_invD(7)[OF inv ing] idc by simp
    with a show ?thesis by simp
  qed
  have inside_cell: "map_of (gen_cells g1) (?ids ! i) =
      Some \<lparr>cell_id = ?ids ! i, cell_type = slot_type (ps ! i), cell_value = slot_value (ps ! i),
            position = ?cs ! i, isFixed = slot_fixed (ps ! i), isCorrect = None,
            belongsToEquation = [ident]\<rparr>" if "i < 5" for i
    using inside[OF that] that by (simp add: written_emptyCell stripIds_def)
  \<comment> \<open>the new equation\<close>
  have occ: "occupiesStrip ?dims ?e" using grid by (simp add: occupiesStrip_def)
  have sl: "numberSlot (ps ! 0) n1" "symbolSlot (ps ! 1) TOperator op" "numberSlot (ps ! 2) n2"
    "symbolSlot (ps ! 3) TEquals ''=''" "numberSlot (ps ! 4) r"
    "2 \<le> length (filter (\<lambda>p. \<not> slot_fixed p) [ps ! 0, ps ! 2, ps ! 4])"
    using slots by (simp_all add: slots_ok_def)
  have c0: "numberCell (gen_cells g1) ident (?ids ! 0) n1"
    using sl(1) by (simp add: numberCell_def inside_cell numberSlot_def)
  have c1: "symbolCell (gen_cells g1) ident (?ids ! 1) TOperator op"
    using sl(2) by (simp add: symbolCell_def inside_cell symbolSlot_def)
  have c2: "numberCell (gen_cells g1) ident (?ids ! 2) n2"
    using sl(3) by (simp add: numberCell_def inside_cell numberSlot_def)
  have c3: "symbolCell (gen_cells g1) ident (?ids ! 3) TEquals ''=''"
    using sl(4) by (simp add: symbolCell_def inside_cell symbolSlot_def)
  have c4: "numberCell (gen_cells g1) ident (?ids ! 4) r"
    using sl(5) by (simp add: numberCell_def inside_cell numberSlot_def)
  have bl: "isBlank (gen_cells g1) (?ids ! i) = (\<not> slot_fixed (ps ! i))" if "i < 5" for i
    using inside_cell[OF that] by (simp add: isBlank_def)
  have c5: "2 \<le> length (filter (isBlank (gen_cells g1)) [?ids ! 0, ?ids ! 2, ?ids ! 4])"
    using sl(6) by (auto simp: bl split: if_splits)
  have "op \<in> {''+'', ''-'', ''*'', ''/''} \<and> 0 \<le> n1 \<and> 0 \<le> n2 \<and> 0 \<le> r \<and>
         operatorHolds op n1 n2 r \<and>
         expression ?e = expressionOf n1 op n2 r \<and>
         numberCell (gen_cells g1) (eq_id ?e) (eq_cells ?e ! 0) n1 \<and>
         symbolCell (gen_cells g1) (eq_id ?e) (eq_cells ?e ! 1) TOperator op \<and>
         numberCell (gen_cells g1) (eq_id ?e) (eq_cells ?e ! 2) n2 \<and>
         symbolCell (gen_cells g1) (eq_id ?e) (eq_cells ?e ! 3) TEquals ''='' \<and>
         numberCell (gen_cells g1) (eq_id ?e) (eq_cells ?e ! 4) r \<and>
         2 \<le> length (filter (isBlank (gen_cells g1)) [eq_cells ?e ! 0, eq_cells ?e ! 2, eq_cells ?e ! 4])"
    using op c0 c1 c2 c3 c4 c5 by simp
  then have new_ok: "equation_ok ?dims (gen_cells g1) ?e"
    unfolding equation_ok_def using occ by blast
  \<comment> \<open>the old equations\<close>
  have old_ok: "equation_ok ?dims (gen_cells g1) e0" if e0: "e0 \<in> set (gen_equations g)" for e0
  proof -
    have ok: "equation_ok ?dims (gen_cells g) e0" by (rule gen_invD(4)[OF inv e0])
    then have l5: "length (eq_cells e0) = 5" by (simp add: equation_ok_def occupiesStrip_def)
    have used: "set (eq_cells e0) \<subseteq> usedPositions g" using e0 unfolding gen_invD(6)[OF inv] by blast
    have "map_of (gen_cells g1) (eq_cells e0 ! i) = map_of (gen_cells g) (eq_cells e0 ! i)"
      if "i < 5" for i
    proof (rule outside)
      have "eq_cells e0 ! i \<in> set (eq_cells e0)" using that l5 by simp
      then have "eq_cells e0 ! i \<in> usedPositions g" using used by blast
      then show "eq_cells e0 ! i \<notin> set ?ids" using free by blast
    qed
    from equation_ok_cong[of "gen_cells g1" e0 "gen_cells g" ?dims, OF this] ok show ?thesis by simp
  qed
  have all_ok: "\<forall>e0 \<in> set (gen_equations ?g'). equation_ok (gen_gridSize ?g') (gen_cells ?g') e0"
    by (simp add: f1 new_ok old_ok ball_Un)
  have d: "distinct (map eq_id (gen_equations ?g'))"
    using gen_invD(5)[OF inv] fresh f1 by simp
  have us: "usedPositions ?g' = (\<Union>e0 \<in> set (gen_equations ?g'). set (eq_cells e0))"
  proof -
    have "usedPositions g = (\<Union>e0 \<in> set (gen_equations g). set (eq_cells e0))"
      by (rule gen_invD(6)[OF inv])
    then show ?thesis by (simp add: u1 f1 Un_commute)
  qed
  have em: "\<forall>p \<in> set (gridCoordinates (width ?g') (height ?g')).
         cellIdOf (fst p) (snd p) \<notin> usedPositions ?g' \<longrightarrow>
         map_of (gen_cells ?g') (cellIdOf (fst p) (snd p)) = Some (emptyCell (fst p) (snd p))"
  proof (intro ballI impI)
    fix p
    assume p: "p \<in> set (gridCoordinates (width ?g') (height ?g'))"
      and n: "cellIdOf (fst p) (snd p) \<notin> usedPositions ?g'"
    have p': "p \<in> set (gridCoordinates (width g) (height g))"
      using p f1 by (simp add: width_def height_def)
    have n1: "cellIdOf (fst p) (snd p) \<notin> usedPositions g" and n2: "cellIdOf (fst p) (snd p) \<notin> set ?ids"
      using n u1 by simp_all
    have "map_of (gen_cells g) (cellIdOf (fst p) (snd p)) = Some (emptyCell (fst p) (snd p))"
      by (rule gen_invD(7)[OF inv p' n1])
    with outside[OF n2] show "map_of (gen_cells ?g') (cellIdOf (fst p) (snd p)) = Some (emptyCell (fst p) (snd p))"
      by simp
  qed
  have kn: "\<forall>e0 \<in> set (gen_equations ?g'). eq_id e0 \<in> knownIds (length (gen_equations ?g')) bound'"
  proof
    fix e0 assume "e0 \<in> set (gen_equations ?g')"
    then consider "e0 \<in> set (gen_equations g)" | "e0 = ?e" using f1 by auto
    then show "eq_id e0 \<in> knownIds (length (gen_equations ?g')) bound'"
    proof cases
      case 1
      then have "eq_id e0 \<in> knownIds (length (gen_equations g)) bound"
        by (rule gen_invD(8)[OF inv])
      then show ?thesis
        using knownIds_mono[of "length (gen_equations g)" "length (gen_equations ?g')" bound bound']
          known(2) f1 by auto
    next
      case 2
      then show ?thesis using known(1) f1 by simp
    qed
  qed
  have wh: "6 \<le> width ?g'" "6 \<le> height ?g'"
    using gen_invD(1,2)[OF inv] f1 by (simp_all add: width_def height_def)
  have ky: "map fst (gen_cells ?g') = gridIds (width ?g') (height ?g')"
    using keys k1 f1 by (simp add: width_def height_def)
  have "gen_inv bound' ?g'"
    unfolding gen_inv_def by (intro conjI) (fact wh ky all_ok d us em kn)+
  then show ?thesis using res f1 by simp
qed

subsection \<open>Creating an equation\<close>

lemma applyHint_horizontal:
  "slots_ok True (x, y) op n1 n2 r
     (applyHint h n1 n2 r
        [mkSlot x y TNumber None False,
         mkSlot (x + 1) y TOperator (Some (StrV op)) True,
         mkSlot (x + 2) y TNumber None False,
         mkSlot (x + 3) y TEquals (Some (StrV ''='')) True,
         mkSlot (x + 4) y TNumber None False])"
proof -
  consider "h = 0" | "h = 1" | "h = 2" | "h \<noteq> 0 \<and> h \<noteq> 1 \<and> h \<noteq> 2" by blast
  then show ?thesis
    by cases
       (simp_all add: applyHint_def giveSlot_def mkSlot_def slots_ok_def numberSlot_def
          symbolSlot_def stripCoordinates_def)
qed

lemma applyHint_vertical:
  "slots_ok False (x, y) op n1 n2 r
     (applyHint h n1 n2 r
        [mkSlot x y TNumber None False,
         mkSlot x (y + 1) TOperator (Some (StrV op)) True,
         mkSlot x (y + 2) TNumber None False,
         mkSlot x (y + 3) TEquals (Some (StrV ''='')) True,
         mkSlot x (y + 4) TNumber None False])"
proof -
  consider "h = 0" | "h = 1" | "h = 2" | "h \<noteq> 0 \<and> h \<noteq> 1 \<and> h \<noteq> 2" by blast
  then show ?thesis
    by cases
       (simp_all add: applyHint_def giveSlot_def mkSlot_def slots_ok_def numberSlot_def
          symbolSlot_def stripCoordinates_def)
qed

lemma canPlaceHorizontal_strip:
  assumes "canPlaceHorizontalEquation g x y" "0 \<le> x" "0 \<le> y" "y < height g"
  shows "list_all (inGrid (gen_gridSize g)) (stripCoordinates True (x, y))"
    and "set (stripIds True (x, y)) \<inter> usedPositions g = {}"
  using assms
  by (simp_all add: canPlaceHorizontalEquation_def stripIds_def stripCoordinates_def inGrid_def
        width_def height_def)

lemma canPlaceVertical_strip:
  assumes "canPlaceVerticalEquation g x y" "0 \<le> x" "0 \<le> y" "x < width g"
  shows "list_all (inGrid (gen_gridSize g)) (stripCoordinates False (x, y))"
    and "set (stripIds False (x, y)) \<inter> usedPositions g = {}"
  using assms
  by (simp_all add: canPlaceVerticalEquation_def stripIds_def stripCoordinates_def inGrid_def
        width_def height_def)

lemma gen_inv_only_drawn:
  assumes "only_drawn g g'" "gen_inv b g"
  shows "gen_inv b g'"
  using assms(2) unfolding gen_inv_def only_drawn_fields[OF assms(1)] .

lemma canPlace_only_drawn:
  assumes "only_drawn g g'"
  shows "canPlaceHorizontalEquation g' x y = canPlaceHorizontalEquation g x y"
    "canPlaceVerticalEquation g' x y = canPlaceVerticalEquation g x y"
  unfolding canPlaceHorizontalEquation_def canPlaceVerticalEquation_def
    only_drawn_fields[OF assms] by simp_all

lemma eq_id_fresh:
  assumes "gen_inv b g"
  shows "''eq-'' @ show_nat (length (gen_equations g) + 1) \<notin> eq_id ` set (gen_equations g)"
proof
  assume "''eq-'' @ show_nat (length (gen_equations g) + 1) \<in> eq_id ` set (gen_equations g)"
  then obtain e where e: "e \<in> set (gen_equations g)"
    "eq_id e = ''eq-'' @ show_nat (length (gen_equations g) + 1)" by auto
  from gen_invD(8)[OF assms e(1)] e(2)
  have "''eq-'' @ show_nat (length (gen_equations g) + 1) \<in> knownIds (length (gen_equations g)) b"
    by simp
  then show False
    unfolding knownIds_def by (auto dest!: show_nat_inj)
qed

lemma simple_id_fresh:
  assumes "gen_inv i g"
  shows "''simple-'' @ show_nat i \<notin> eq_id ` set (gen_equations g)"
proof
  assume "''simple-'' @ show_nat i \<in> eq_id ` set (gen_equations g)"
  then obtain e where e: "e \<in> set (gen_equations g)" "eq_id e = ''simple-'' @ show_nat i" by auto
  from gen_invD(8)[OF assms e(1)] e(2)
  have "''simple-'' @ show_nat i \<in> knownIds (length (gen_equations g)) i" by simp
  then show False
    unfolding knownIds_def by (auto dest!: show_nat_inj)
qed

lemma id_known:
  "''eq-'' @ show_nat (n + 1) \<in> knownIds (Suc n) b"
  "''simple-'' @ show_nat i \<in> knownIds n (Suc i)"
  unfolding knownIds_def by auto

lemma generateNumbers_holds:
  assumes "operation \<in> {''+'', ''-'', ''*'', ''/''}"
    and "generateNumbers rnd operation g = ((num1, num2, res), g')"
  shows "operatorHolds operation num1 num2 res \<and> 0 \<le> num1 \<and> 0 \<le> num2 \<and> 0 \<le> res \<and>
         only_drawn g g'"
proof -
  consider "operation = ''+''" | "operation = ''-''" | "operation = ''*''" | "operation = ''/''"
    using assms(1) by auto
  then show ?thesis
  proof cases
    case 1
    with generateNumbers_plus[of rnd g num1 num2 res g'] assms(2) show ?thesis
      by (simp add: operatorHolds_def)
  next
    case 2
    with generateNumbers_minus[of rnd g num1 num2 res g'] assms(2) show ?thesis
      by (simp add: operatorHolds_def)
  next
    case 3
    with generateNumbers_times[of rnd g num1 num2 res g'] assms(2) show ?thesis
      by (simp add: operatorHolds_def)
  next
    case 4
    with generateNumbers_divide[of rnd g num1 num2 res g'] assms(2) show ?thesis
      by (simp add: operatorHolds_def)
  qed
qed

lemma chooseHint_only: "chooseHint rnd p g = (h, g') \<Longrightarrow> only_drawn g g'"
  unfolding chooseHint_def
  by (auto split: prod.splits if_splits
        dest: nextRandom_only randomInt_only intro: only_drawn_trans)

lemma grown_refl [simp]: "grown g g"
  by (simp add: grown_def)

lemma grown_trans: "grown g g1 \<Longrightarrow> grown g1 g2 \<Longrightarrow> grown g g2"
  by (simp add: grown_def)

lemma grown_only_drawn: "only_drawn g g' \<Longrightarrow> grown g g'"
  by (simp add: grown_def only_drawn_fields)

lemma grown_fields:
  assumes "grown g g'"
  shows "width g' = width g" "height g' = height g" "gen_equationCount g' = gen_equationCount g"
    "gen_gridSize g' = gen_gridSize g"
  using assms by (simp_all add: grown_def width_def height_def)

lemma createHorizontalEquation_ok:
  assumes inv: "gen_inv b g" and can: "canPlaceHorizontalEquation g x y"
    and pos: "0 \<le> x" "0 \<le> y" "y < height g"
  shows "\<exists>g'. createHorizontalEquation rnd x y g = Inr g' \<and> gen_inv b g' \<and> grown g g' \<and>
           length (gen_equations g') = Suc (length (gen_equations g)) \<and>
           isHorizontal (last (gen_equations g')) \<and>
           butlast (gen_equations g') = gen_equations g"
proof -
  obtain op g1 where o: "getRandomOperation rnd g = (op, g1)" by (cases "getRandomOperation rnd g")
  obtain n1 n2 r g2 where n: "generateNumbers rnd op g1 = ((n1, n2, r), g2)"
    by (cases "generateNumbers rnd op g1") auto
  obtain h g3 where c: "chooseHint rnd (4 / 10) g2 = (h, g3)" by (cases "chooseHint rnd (4 / 10) g2")
  have ops: "op \<in> {''+'', ''-'', ''*'', ''/''}" and d1: "only_drawn g g1"
    using getRandomOperation_spec[OF o] by simp_all
  have num: "operatorHolds op n1 n2 r" "0 \<le> n1" "0 \<le> n2" "0 \<le> r" and d2: "only_drawn g1 g2"
    using generateNumbers_holds[OF ops n] by simp_all
  have d: "only_drawn g g3"
    using only_drawn_trans[OF only_drawn_trans[OF d1 d2] chooseHint_only[OF c]] .
  note f = only_drawn_fields[OF d]
  have inv3: "gen_inv b g3" using d inv by (rule gen_inv_only_drawn)
  have can3: "canPlaceHorizontalEquation g3 x y" using can canPlace_only_drawn(1)[OF d] by simp
  have y3: "y < height g3" using pos(3) f by simp
  let ?ps = "applyHint h n1 n2 r
        [mkSlot x y TNumber None False,
         mkSlot (x + 1) y TOperator (Some (StrV op)) True,
         mkSlot (x + 2) y TNumber None False,
         mkSlot (x + 3) y TEquals (Some (StrV ''='')) True,
         mkSlot (x + 4) y TNumber None False]"
  let ?id = "''eq-'' @ show_nat (length (gen_equations g) + 1)"
  have fresh: "?id \<notin> eq_id ` set (gen_equations g3)"
    using eq_id_fresh[OF inv3] f by simp
  have known: "?id \<in> knownIds (Suc (length (gen_equations g3))) b"
    using id_known(1)[of "length (gen_equations g)" b] f by simp
  from commit_preserves[OF inv3 applyHint_horizontal canPlaceHorizontal_strip(1)[OF can3 pos(1,2) y3]
      canPlaceHorizontal_strip(2)[OF can3 pos(1,2) y3] ops num(2,3,4,1) fresh known order_refl]
  obtain g' where g': "commitEquation ?id ?ps (expressionOf n1 op n2 r) r True x y g3 = Inr g'"
    "gen_inv b g'" "length (gen_equations g') = Suc (length (gen_equations g3))"
    "isHorizontal (last (gen_equations g')) = True"
    "gen_gridSize g' = gen_gridSize g3" "gen_equationCount g' = gen_equationCount g3"
    "butlast (gen_equations g') = gen_equations g3"
    by blast
  have res: "createHorizontalEquation rnd x y g = Inr g'"
    using o n c g'(1) by (simp add: createHorizontalEquation_def Let_def)
  have "grown g g'" using g'(3,5,6) f by (simp add: grown_def)
  then show ?thesis using res g'(2,3,4,7) f by simp
qed

lemma createVerticalEquation_ok:
  assumes inv: "gen_inv b g" and can: "canPlaceVerticalEquation g x y"
    and pos: "0 \<le> x" "0 \<le> y" "x < width g"
  shows "\<exists>g'. createVerticalEquation rnd x y g = Inr g' \<and> gen_inv b g' \<and> grown g g' \<and>
           length (gen_equations g') = Suc (length (gen_equations g)) \<and>
           \<not> isHorizontal (last (gen_equations g'))"
proof -
  obtain op g1 where o: "getRandomOperation rnd g = (op, g1)" by (cases "getRandomOperation rnd g")
  obtain n1 n2 r g2 where n: "generateNumbers rnd op g1 = ((n1, n2, r), g2)"
    by (cases "generateNumbers rnd op g1") auto
  obtain h g3 where c: "chooseHint rnd (4 / 10) g2 = (h, g3)" by (cases "chooseHint rnd (4 / 10) g2")
  have ops: "op \<in> {''+'', ''-'', ''*'', ''/''}" and d1: "only_drawn g g1"
    using getRandomOperation_spec[OF o] by simp_all
  have num: "operatorHolds op n1 n2 r" "0 \<le> n1" "0 \<le> n2" "0 \<le> r" and d2: "only_drawn g1 g2"
    using generateNumbers_holds[OF ops n] by simp_all
  have d: "only_drawn g g3"
    using only_drawn_trans[OF only_drawn_trans[OF d1 d2] chooseHint_only[OF c]] .
  note f = only_drawn_fields[OF d]
  have inv3: "gen_inv b g3" using d inv by (rule gen_inv_only_drawn)
  have can3: "canPlaceVerticalEquation g3 x y" using can canPlace_only_drawn(2)[OF d] by simp
  have x3: "x < width g3" using pos(3) f by simp
  let ?ps = "applyHint h n1 n2 r
        [mkSlot x y TNumber None False,
         mkSlot x (y + 1) TOperator (Some (StrV op)) True,
         mkSlot x (y + 2) TNumber None False,
         mkSlot x (y + 3) TEquals (Some (StrV ''='')) True,
         mkSlot x (y + 4) TNumber None False]"
  let ?id = "''eq-'' @ show_nat (length (gen_equations g) + 1)"
  have fresh: "?id \<notin> eq_id ` set (gen_equations g3)"
    using eq_id_fresh[OF inv3] f by simp
  have known: "?id \<in> knownIds (Suc (length (gen_equations g3))) b"
    using id_known(1)[of "length (gen_equations g)" b] f by simp
  from commit_preserves[OF inv3 applyHint_vertical canPlaceVertical_strip(1)[OF can3 pos(1,2) x3]
      canPlaceVertical_strip(2)[OF can3 pos(1,2) x3] ops num(2,3,4,1) fresh known order_refl]
  obtain g' where g': "commitEquation ?id ?ps (expressionOf n1 op n2 r) r False x y g3 = Inr g'"
    "gen_inv b g'" "length (gen_equations g') = Suc (length (gen_equations g3))"
    "isHorizontal (last (gen_equations g')) = False"
    "gen_gridSize g' = gen_gridSize g3" "gen_equationCount g' = gen_equationCount g3"
    by blast
  have res: "createVerticalEquation rnd x y g = Inr g'"
    using o n c g'(1) by (simp add: createVerticalEquation_def Let_def)
  have "grown g g'" using g'(3,5,6) f by (simp add: grown_def)
  then show ?thesis using res g'(2,3,4) f by simp
qed

lemma createSimpleEquation_ok:
  assumes inv: "gen_inv i g" and can: "canPlaceHorizontalEquation g x y"
    and pos: "0 \<le> x" "0 \<le> y" "y < height g"
    and ops: "op \<in> {''+'', ''-'', ''*'', ''/''}"
    and num: "operatorHolds op n1 n2 r" "0 \<le> n1" "0 \<le> n2" "0 \<le> r"
  shows "\<exists>g'. createSimpleEquation rnd x y (expressionOf n1 op n2 r) (''simple-'' @ show_nat i) g = Inr g' \<and>
           gen_inv (Suc i) g' \<and> grown g g' \<and>
           length (gen_equations g') = Suc (length (gen_equations g))"
proof -
  obtain h g1 where c: "chooseHint rnd (5 / 10) g = (h, g1)" by (cases "chooseHint rnd (5 / 10) g")
  have d: "only_drawn g g1" using chooseHint_only[OF c] .
  note f = only_drawn_fields[OF d]
  have inv1: "gen_inv i g1" using d inv by (rule gen_inv_only_drawn)
  have can1: "canPlaceHorizontalEquation g1 x y" using can canPlace_only_drawn(1)[OF d] by simp
  have y1: "y < height g1" using pos(3) f by simp
  let ?ps = "applyHint h n1 n2 r
        [mkSlot x y TNumber None False,
         mkSlot (x + 1) y TOperator (Some (StrV op)) True,
         mkSlot (x + 2) y TNumber None False,
         mkSlot (x + 3) y TEquals (Some (StrV ''='')) True,
         mkSlot (x + 4) y TNumber None False]"
  let ?id = "''simple-'' @ show_nat i"
  have fresh: "?id \<notin> eq_id ` set (gen_equations g1)"
    using simple_id_fresh[OF inv1] by simp
  have known: "?id \<in> knownIds (Suc (length (gen_equations g1))) (Suc i)"
    by (rule id_known(2))
  from commit_preserves[OF inv1 applyHint_horizontal canPlaceHorizontal_strip(1)[OF can1 pos(1,2) y1]
      canPlaceHorizontal_strip(2)[OF can1 pos(1,2) y1] ops num(2,3,4,1) fresh known le_SucI[OF order_refl]]
  obtain g' where g': "commitEquation ?id ?ps (expressionOf n1 op n2 r) r True x y g1 = Inr g'"
    "gen_inv (Suc i) g'" "length (gen_equations g') = Suc (length (gen_equations g1))"
    "gen_gridSize g' = gen_gridSize g1" "gen_equationCount g' = gen_equationCount g1"
    by blast
  have parts: "split_on CHR '' '' (expressionOf n1 op n2 r) =
           [show_nat (nat n1), op, show_nat (nat n2), ''='', show_nat (nat r)]"
    by (rule split_expression[OF ops num(2,3,4)])
  have res: "createSimpleEquation rnd x y (expressionOf n1 op n2 r) ?id g = Inr g'"
    using c g'(1) num(2,3,4)
    by (simp add: createSimpleEquation_def Let_def parts nth_opt_def parseInt_show_nat)
  have "grown g g'" using g'(3,4,5) f by (simp add: grown_def)
  then show ?thesis using res g'(2,3) f by simp
qed

subsection \<open>The loops\<close>

lemma gen_inv_bound_mono:
  assumes "gen_inv b g" "b \<le> b'"
  shows "gen_inv b' g"
proof -
  have "\<forall>e \<in> set (gen_equations g). eq_id e \<in> knownIds (length (gen_equations g)) b'"
    using gen_invD(8)[OF assms(1)] knownIds_mono[OF order_refl assms(2)] by blast
  then show ?thesis using assms(1) unfolding gen_inv_def by blast
qed

lemma horizontalLoop_ok:
  "gen_inv b g \<Longrightarrow>
     \<exists>g'. horizontalLoop rnd t left g = Inr g' \<and> gen_inv b g' \<and> grown g g'"
proof (induction left arbitrary: g)
  case 0
  then show ?case by simp
next
  case (Suc left)
  show ?case
  proof (cases "horizontalCount g < t")
    case False
    then show ?thesis using Suc.prems by simp
  next
    case True
    obtain x g1 where x: "randomInt rnd (max 1 (width g - 4)) g = (x, g1)"
      by (cases "randomInt rnd (max 1 (width g - 4)) g")
    obtain y g2 where y: "randomInt rnd (height g) g1 = (y, g2)"
      by (cases "randomInt rnd (height g) g1")
    have d: "only_drawn g g2" using only_drawn_trans[OF randomInt_only[OF x] randomInt_only[OF y]] .
    have inv2: "gen_inv b g2" using d Suc.prems by (rule gen_inv_only_drawn)
    have h6: "6 \<le> height g" using gen_invD(2)[OF Suc.prems] .
    have pos: "0 \<le> x" "0 \<le> y" "y < height g2"
      using randomInt_range[OF x] randomInt_range[OF y] h6 only_drawn_fields[OF d] by simp_all
    show ?thesis
    proof (cases "canPlaceHorizontalEquation g2 x y")
      case False
      from Suc.IH[OF inv2] obtain g' where
        "horizontalLoop rnd t left g2 = Inr g'" "gen_inv b g'" "grown g2 g'" by blast
      then show ?thesis
        using True x y False grown_trans[OF grown_only_drawn[OF d]] by simp
    next
      case can: True
      from createHorizontalEquation_ok[OF inv2 can pos, of rnd] obtain g3 where
        g3: "createHorizontalEquation rnd x y g2 = Inr g3" "gen_inv b g3" "grown g2 g3" by blast
      from Suc.IH[OF g3(2)] obtain g' where
        "horizontalLoop rnd t left g3 = Inr g'" "gen_inv b g'" "grown g3 g'" by blast
      then show ?thesis
        using True x y can g3(1) grown_trans[OF grown_trans[OF grown_only_drawn[OF d] g3(3)]]
        by simp
    qed
  qed
qed

lemma horizontalLoop_first:
  assumes inv: "gen_inv b g" and e: "usedPositions g = {}" "gen_equations g = []" and t: "0 < t"
  shows "\<exists>g'. horizontalLoop rnd t (Suc left) g = Inr g' \<and> gen_inv b g' \<and> grown g g' \<and>
           1 \<le> length (gen_equations g')"
proof -
  obtain x g1 where x: "randomInt rnd (max 1 (width g - 4)) g = (x, g1)"
    by (cases "randomInt rnd (max 1 (width g - 4)) g")
  obtain y g2 where y: "randomInt rnd (height g) g1 = (y, g2)"
    by (cases "randomInt rnd (height g) g1")
  have d: "only_drawn g g2" using only_drawn_trans[OF randomInt_only[OF x] randomInt_only[OF y]] .
  note f = only_drawn_fields[OF d]
  have inv2: "gen_inv b g2" using d inv by (rule gen_inv_only_drawn)
  have wh: "6 \<le> width g" "6 \<le> height g" using gen_invD(1,2)[OF inv] .
  have pos: "0 \<le> x" "0 \<le> y" "y < height g2"
    using randomInt_range[OF x] randomInt_range[OF y] wh f by simp_all
  have "x < max 1 (width g - 4)" using randomInt_range(2)[OF x] by simp
  then have "x + 4 < width g2" using wh f by simp
  then have can: "canPlaceHorizontalEquation g2 x y"
    using e f by (simp add: canPlaceHorizontalEquation_def)
  from createHorizontalEquation_ok[OF inv2 can pos, of rnd] obtain g3 where
    g3: "createHorizontalEquation rnd x y g2 = Inr g3" "gen_inv b g3" "grown g2 g3"
    "length (gen_equations g3) = Suc (length (gen_equations g2))" by blast
  from horizontalLoop_ok[OF g3(2)] obtain g' where
    g': "horizontalLoop rnd t left g3 = Inr g'" "gen_inv b g'" "grown g3 g'" by blast
  have c: "horizontalCount g < t" using e t by (simp add: horizontalCount_def)
  have "1 \<le> length (gen_equations g')" using g3(4) g'(3) by (simp add: grown_def)
  then show ?thesis
    using c x y can g3(1) g'(1,2) grown_trans[OF grown_trans[OF grown_only_drawn[OF d] g3(3)] g'(3)]
    by simp
qed

lemma verticalLoop_ok:
  "gen_inv b g \<Longrightarrow>
     \<exists>g'. verticalLoop rnd t left g = Inr g' \<and> gen_inv b g' \<and> grown g g'"
proof (induction left arbitrary: g)
  case 0
  then show ?case by simp
next
  case (Suc left)
  show ?case
  proof (cases "verticalCount g < t")
    case False
    then show ?thesis using Suc.prems by simp
  next
    case True
    obtain x g1 where x: "randomInt rnd (width g) g = (x, g1)"
      by (cases "randomInt rnd (width g) g")
    obtain y g2 where y: "randomInt rnd (max 1 (height g - 4)) g1 = (y, g2)"
      by (cases "randomInt rnd (max 1 (height g - 4)) g1")
    have d: "only_drawn g g2" using only_drawn_trans[OF randomInt_only[OF x] randomInt_only[OF y]] .
    have inv2: "gen_inv b g2" using d Suc.prems by (rule gen_inv_only_drawn)
    have w6: "6 \<le> width g" using gen_invD(1)[OF Suc.prems] .
    have pos: "0 \<le> x" "0 \<le> y" "x < width g2"
      using randomInt_range[OF x] randomInt_range[OF y] w6 only_drawn_fields[OF d] by simp_all
    show ?thesis
    proof (cases "canPlaceVerticalEquation g2 x y")
      case False
      from Suc.IH[OF inv2] obtain g' where
        "verticalLoop rnd t left g2 = Inr g'" "gen_inv b g'" "grown g2 g'" by blast
      then show ?thesis
        using True x y False grown_trans[OF grown_only_drawn[OF d]] by simp
    next
      case can: True
      from createVerticalEquation_ok[OF inv2 can pos, of rnd] obtain g3 where
        g3: "createVerticalEquation rnd x y g2 = Inr g3" "gen_inv b g3" "grown g2 g3" by blast
      from Suc.IH[OF g3(2)] obtain g' where
        "verticalLoop rnd t left g3 = Inr g'" "gen_inv b g'" "grown g3 g'" by blast
      then show ?thesis
        using True x y can g3(1) grown_trans[OF grown_trans[OF grown_only_drawn[OF d] g3(3)]]
        by simp
    qed
  qed
qed

lemma addRandomLoop_ok:
  "gen_inv b g \<Longrightarrow>
     \<exists>g'. addRandomLoop rnd left g = Inr g' \<and> gen_inv b g' \<and> grown g g'"
proof (induction left arbitrary: g)
  case 0
  then show ?case by simp
next
  case (Suc left)
  obtain u g1 where u: "nextRandom rnd g = (u, g1)" by (cases "nextRandom rnd g")
  have wh: "6 \<le> width g" "6 \<le> height g" using gen_invD(1,2)[OF Suc.prems] .
  show ?case
  proof (cases "random_less u (6 / 10)")
    case True
    obtain x g2 where x: "randomInt rnd (width g - 6) g1 = (x, g2)"
      by (cases "randomInt rnd (width g - 6) g1")
    obtain y g3 where y: "randomInt rnd (height g) g2 = (y, g3)"
      by (cases "randomInt rnd (height g) g2")
    have d: "only_drawn g g3"
      using only_drawn_trans[OF only_drawn_trans[OF nextRandom_only[OF u] randomInt_only[OF x]]
          randomInt_only[OF y]] .
    have inv3: "gen_inv b g3" using d Suc.prems by (rule gen_inv_only_drawn)
    have pos: "0 \<le> x" "0 \<le> y" "y < height g3"
      using randomInt_range[OF x] randomInt_range[OF y] wh only_drawn_fields[OF d] by simp_all
    show ?thesis
    proof (cases "canPlaceHorizontalEquation g3 x y")
      case False
      from Suc.IH[OF inv3] obtain g' where
        "addRandomLoop rnd left g3 = Inr g'" "gen_inv b g'" "grown g3 g'" by blast
      then show ?thesis
        using True u x y False grown_trans[OF grown_only_drawn[OF d]] by simp
    next
      case can: True
      from createHorizontalEquation_ok[OF inv3 can pos, of rnd] obtain g4 where
        g4: "createHorizontalEquation rnd x y g3 = Inr g4" "gen_inv b g4" "grown g3 g4" by blast
      then show ?thesis
        using True u x y can grown_trans[OF grown_only_drawn[OF d] g4(3)] by simp
    qed
  next
    case False
    obtain x g2 where x: "randomInt rnd (width g) g1 = (x, g2)"
      by (cases "randomInt rnd (width g) g1")
    obtain y g3 where y: "randomInt rnd (height g - 6) g2 = (y, g3)"
      by (cases "randomInt rnd (height g - 6) g2")
    have d: "only_drawn g g3"
      using only_drawn_trans[OF only_drawn_trans[OF nextRandom_only[OF u] randomInt_only[OF x]]
          randomInt_only[OF y]] .
    have inv3: "gen_inv b g3" using d Suc.prems by (rule gen_inv_only_drawn)
    have pos: "0 \<le> x" "0 \<le> y" "x < width g3"
      using randomInt_range[OF x] randomInt_range[OF y] wh only_drawn_fields[OF d] by simp_all
    show ?thesis
    proof (cases "canPlaceVerticalEquation g3 x y")
      case nc: False
      from Suc.IH[OF inv3] obtain g' where
        "addRandomLoop rnd left g3 = Inr g'" "gen_inv b g'" "grown g3 g'" by blast
      then show ?thesis
        using False u x y nc grown_trans[OF grown_only_drawn[OF d]] by simp
    next
      case can: True
      from createVerticalEquation_ok[OF inv3 can pos, of rnd] obtain g4 where
        g4: "createVerticalEquation rnd x y g3 = Inr g4" "gen_inv b g4" "grown g3 g4" by blast
      then show ?thesis
        using False u x y can grown_trans[OF grown_only_drawn[OF d] g4(3)] by simp
    qed
  qed
qed

lemma topUpLoop_ok:
  "gen_inv b g \<Longrightarrow>
     \<exists>g'. topUpLoop rnd left g = Inr g' \<and> gen_inv b g' \<and> grown g g'"
proof (induction left arbitrary: g)
  case 0
  then show ?case by simp
next
  case (Suc left)
  show ?case
  proof (cases "int (length (gen_equations g)) < gen_equationCount g")
    case False
    then show ?thesis using Suc.prems by simp
  next
    case True
    from addRandomLoop_ok[OF Suc.prems, of rnd 50] obtain g1 where
      g1: "addRandomEquation rnd g = Inr g1" "gen_inv b g1" "grown g g1"
      by (auto simp: addRandomEquation_def)
    from Suc.IH[OF g1(2)] obtain g' where
      "topUpLoop rnd left g1 = Inr g'" "gen_inv b g'" "grown g1 g'" by blast
    then show ?thesis using True g1(1) grown_trans[OF g1(3)] by simp
  qed
qed

lemma placeSimpleLoop_ok:
  assumes ops: "op \<in> {''+'', ''-'', ''*'', ''/''}"
    and num: "operatorHolds op n1 n2 r" "0 \<le> n1" "0 \<le> n2" "0 \<le> r"
  shows "gen_inv i g \<Longrightarrow>
     \<exists>g'. placeSimpleLoop rnd (expressionOf n1 op n2 r) (''simple-'' @ show_nat i) left g = Inr g' \<and>
          gen_inv (Suc i) g' \<and> grown g g'"
proof (induction left arbitrary: g)
  case 0
  then show ?case using gen_inv_bound_mono[of i g "Suc i"] by simp
next
  case (Suc left)
  obtain x g1 where x: "randomInt rnd (max 1 (width g - 4)) g = (x, g1)"
    by (cases "randomInt rnd (max 1 (width g - 4)) g")
  obtain y g2 where y: "randomInt rnd (height g) g1 = (y, g2)"
    by (cases "randomInt rnd (height g) g1")
  have d: "only_drawn g g2" using only_drawn_trans[OF randomInt_only[OF x] randomInt_only[OF y]] .
  have inv2: "gen_inv i g2" using d Suc.prems by (rule gen_inv_only_drawn)
  have h6: "6 \<le> height g" using gen_invD(2)[OF Suc.prems] .
  have pos: "0 \<le> x" "0 \<le> y" "y < height g2"
    using randomInt_range[OF x] randomInt_range[OF y] h6 only_drawn_fields[OF d] by simp_all
  show ?case
  proof (cases "canPlaceHorizontalEquation g2 x y")
    case False
    from Suc.IH[OF inv2] obtain g' where
      "placeSimpleLoop rnd (expressionOf n1 op n2 r) (''simple-'' @ show_nat i) left g2 = Inr g'"
      "gen_inv (Suc i) g'" "grown g2 g'" by blast
    then show ?thesis
      using x y False grown_trans[OF grown_only_drawn[OF d]] by simp
  next
    case can: True
    from createSimpleEquation_ok[OF inv2 can pos ops num, of rnd] obtain g3 where
      g3: "createSimpleEquation rnd x y (expressionOf n1 op n2 r) (''simple-'' @ show_nat i) g2 = Inr g3"
      "gen_inv (Suc i) g3" "grown g2 g3" by blast
    then show ?thesis
      using x y can grown_trans[OF grown_only_drawn[OF d] g3(3)] by simp
  qed
qed

lemma simpleNumbers_holds:
  assumes "op \<in> {''+'', ''-'', ''*''}" "simpleNumbers rnd op g = ((n1, n2, r), g')"
  shows "operatorHolds op n1 n2 r \<and> 0 \<le> n1 \<and> 0 \<le> n2 \<and> 0 \<le> r \<and> only_drawn g g'"
proof -
  consider "op = ''+''" | "op = ''-''" | "op = ''*''" using assms(1) by auto
  then show ?thesis
  proof cases
    case 1
    obtain a g1 where a: "randomInt rnd 10 g = (a, g1)" by (cases "randomInt rnd 10 g")
    obtain c g2 where c: "randomInt rnd 10 g1 = (c, g2)" by (cases "randomInt rnd 10 g1")
    have "n1 = a + 1" "n2 = c + 1" "r = n1 + n2" "g' = g2"
      using assms(2) 1 a c by (simp_all add: simpleNumbers_def Let_def)
    then show ?thesis
      using 1 randomInt_range[OF a] randomInt_range[OF c]
        only_drawn_trans[OF randomInt_only[OF a] randomInt_only[OF c]]
      by (simp add: operatorHolds_def)
  next
    case 2
    obtain a g1 where a: "randomInt rnd 15 g = (a, g1)" by (cases "randomInt rnd 15 g")
    obtain c g2 where c: "randomInt rnd (a + 1) g1 = (c, g2)" by (cases "randomInt rnd (a + 1) g1")
    have e: "r = a + 1" "n2 = c + 1" "n1 = r + n2" "g' = g2"
      using assms(2) 2 a c by (simp_all add: simpleNumbers_def Let_def)
    have "0 \<le> a" using randomInt_range[OF a] by simp
    moreover from this have "0 \<le> c" using randomInt_range[OF c] by simp
    ultimately show ?thesis
      using 2 e only_drawn_trans[OF randomInt_only[OF a] randomInt_only[OF c]]
      by (simp add: operatorHolds_def)
  next
    case 3
    obtain a g1 where a: "randomInt rnd 5 g = (a, g1)" by (cases "randomInt rnd 5 g")
    obtain c g2 where c: "randomInt rnd 5 g1 = (c, g2)" by (cases "randomInt rnd 5 g1")
    have "n1 = a + 1" "n2 = c + 1" "r = n1 * n2" "g' = g2"
      using assms(2) 3 a c by (auto simp: simpleNumbers_def Let_def)
    then show ?thesis
      using 3 randomInt_range[OF a] randomInt_range[OF c]
        only_drawn_trans[OF randomInt_only[OF a] randomInt_only[OF c]]
      by (simp add: operatorHolds_def)
  qed
qed

lemma fillOne_ok:
  assumes "gen_inv i g"
  shows "\<exists>g'. fillOne rnd i g = Inr g' \<and> gen_inv (Suc i) g' \<and> grown g g'"
proof -
  obtain k g1 where k: "randomInt rnd 3 g = (k, g1)" by (cases "randomInt rnd 3 g")
  let ?op = "[''+'', ''-'', ''*''] ! nat k"
  have "0 \<le> k" "k < 3" using randomInt_range[OF k] by simp_all
  then have "nat k < 3" by simp
  then have "nat k = 0 \<or> nat k = 1 \<or> nat k = 2" by arith
  then have op3: "?op \<in> {''+'', ''-'', ''*''}" by auto
  then have ops: "?op \<in> {''+'', ''-'', ''*'', ''/''}" by blast
  obtain n1 n2 r g2 where n: "simpleNumbers rnd ?op g1 = ((n1, n2, r), g2)"
    by (cases "simpleNumbers rnd ?op g1") auto
  have num: "operatorHolds ?op n1 n2 r" "0 \<le> n1" "0 \<le> n2" "0 \<le> r" and d2: "only_drawn g1 g2"
    using simpleNumbers_holds[OF op3 n] by simp_all
  have d: "only_drawn g g2" using only_drawn_trans[OF randomInt_only[OF k] d2] .
  have inv2: "gen_inv i g2" using d assms by (rule gen_inv_only_drawn)
  from placeSimpleLoop_ok[OF ops num inv2, of rnd 20] obtain g' where
    g': "placeSimpleLoop rnd (expressionOf n1 ?op n2 r) (''simple-'' @ show_nat i) 20 g2 = Inr g'"
    "gen_inv (Suc i) g'" "grown g2 g'" by blast
  have "fillOne rnd i g = Inr g'" using k n g'(1) by (simp add: fillOne_def Let_def)
  then show ?thesis using g'(2) grown_trans[OF grown_only_drawn[OF d] g'(3)] by simp
qed

lemma fillLoop_ok:
  "gen_inv lo g \<Longrightarrow>
     \<exists>g' b. fillLoop rnd [lo..<lo + n] g = Inr g' \<and> gen_inv b g' \<and> grown g g'"
proof (induction n arbitrary: lo g)
  case 0
  then show ?case by auto
next
  case (Suc n)
  from fillOne_ok[OF Suc.prems, of rnd] obtain g1 where
    g1: "fillOne rnd lo g = Inr g1" "gen_inv (Suc lo) g1" "grown g g1" by blast
  from Suc.IH[OF g1(2)] obtain g' b where
    g': "fillLoop rnd [Suc lo..<Suc lo + n] g1 = Inr g'" "gen_inv b g'" "grown g1 g'" by blast
  have "[lo..<lo + Suc n] = lo # [Suc lo..<Suc lo + n]" by (simp add: upt_conv_Cons)
  then show ?case using g1(1) g' grown_trans[OF g1(3) g'(3)] by auto
qed

subsection \<open>The whole generation\<close>

lemma target_positive:
  assumes "0 < c" "2 \<le> h"
  shows "0 < min \<lceil>real_of_int c * (6 / 10)\<rceil> \<lfloor>real_of_int h * (8 / 10)\<rfloor>"
proof -
  have "0 < real_of_int c * (6 / 10)" using assms(1) by simp
  then have a: "0 < \<lceil>real_of_int c * (6 / 10)\<rceil>" by (simp only: zero_less_ceiling)
  have "2 \<le> real_of_int h" using assms(2) by simp
  then have "1 \<le> real_of_int h * (8 / 10)" by simp
  then have b: "0 < \<lfloor>real_of_int h * (8 / 10)\<rfloor>" by (simp only: zero_less_floor)
  show ?thesis using a b by simp
qed

lemma generateBody_ok:
  assumes inv: "gen_inv 0 g" and e: "usedPositions g = {}" "gen_equations g = []"
    and c: "0 < gen_equationCount g"
  shows "\<exists>g' b. generateBody rnd g = Inr g' \<and> gen_inv b g' \<and> grown g g' \<and>
           1 \<le> length (gen_equations g')"
proof -
  have h: "2 \<le> height g" using gen_invD(2)[OF inv] by simp
  from horizontalLoop_first[OF inv e target_positive[OF c h], of rnd 49] obtain g1 where
    g1: "generateHorizontalEquations rnd g = Inr g1" "gen_inv 0 g1" "grown g g1"
    "1 \<le> length (gen_equations g1)"
    by (auto simp: generateHorizontalEquations_def Let_def eval_nat_numeral)
  from verticalLoop_ok[OF g1(2), of rnd _ 50] obtain g2 where
    g2: "generateVerticalEquations rnd g1 = Inr g2" "gen_inv 0 g2" "grown g1 g2"
    by (auto simp: generateVerticalEquations_def Let_def)
  from topUpLoop_ok[OF g2(2), of rnd 50] obtain g3 where
    g3: "topUpLoop rnd 50 g2 = Inr g3" "gen_inv 0 g3" "grown g2 g3" by blast
  have gr3: "grown g g3" using grown_trans[OF grown_trans[OF g1(3) g2(3)] g3(3)] .
  have l3: "1 \<le> length (gen_equations g3)" using g1(4) g2(3) g3(3) by (simp add: grown_def)
  show ?thesis
  proof (cases "int (length (gen_equations g3)) < gen_equationCount g3")
    case False
    then have "generateBody rnd g = Inr g3" using g1(1) g2(1) g3(1) by (simp add: generateBody_def)
    then show ?thesis using g3(2) gr3 l3 by blast
  next
    case True
    from fillLoop_ok[OF g3(2), of rnd "nat (gen_equationCount g3 - int (length (gen_equations g3)))"]
    obtain g4 b where
      g4: "fillWithSimpleEquations rnd g3 = Inr g4" "gen_inv b g4" "grown g3 g4"
      by (auto simp: fillWithSimpleEquations_def Let_def)
    have "generateBody rnd g = Inr g4"
      using g1(1) g2(1) g3(1) True g4(1) by (simp add: generateBody_def)
    moreover have "1 \<le> length (gen_equations g4)" using l3 g4(3) by (simp add: grown_def)
    ultimately show ?thesis using g4(2) grown_trans[OF gr3 g4(3)] by blast
  qed
qed

lemma new_PuzzleGenerator_dims:
  "6 \<le> width (new_PuzzleGenerator d)" "6 \<le> height (new_PuzzleGenerator d)"
  "0 < gen_equationCount (new_PuzzleGenerator d)"
  by (cases d; simp add: new_PuzzleGenerator_def DIFFICULTY_CONFIG_def width_def height_def)+

lemma generatePuzzle_ok:
  "\<exists>g' b. generatePuzzle rnd (new_PuzzleGenerator d) = Inr (boardOf g', g') \<and> gen_inv b g' \<and>
          1 \<le> length (gen_equations g') \<and>
          gen_gridSize g' = cfgGridSize (DIFFICULTY_CONFIG d)"
proof -
  let ?g = "new_PuzzleGenerator d"
  have inv: "gen_inv 0 (reset ?g)" using new_PuzzleGenerator_dims(1,2) by (rule gen_inv_reset)
  have c: "0 < gen_equationCount (reset ?g)" using new_PuzzleGenerator_dims(3)[of d] by simp
  from generateBody_ok[OF inv _ _ c, of rnd] obtain g' b where
    g': "generateBody rnd (reset ?g) = Inr g'" "gen_inv b g'" "grown (reset ?g) g'"
    "1 \<le> length (gen_equations g')" by auto
  have "generatePuzzle rnd ?g = Inr (boardOf g', g')" using g'(1) by (simp add: generatePuzzle_def)
  moreover have "gen_gridSize g' = cfgGridSize (DIFFICULTY_CONFIG d)"
    using g'(3) by (simp add: grown_def new_PuzzleGenerator_def)
  ultimately show ?thesis using g'(2,4) by blast
qed

lemma equationMap_distinct:
  assumes "distinct (map eq_id eqs)"
  shows "equationMap eqs = map (\<lambda>e. (eq_id e, e)) eqs"
  unfolding equationMap_def
  using foldl_map_set_fresh[of eq_id eqs "[]" "\<lambda>e. e"] assms by simp

lemma equation_ok_cells:
  assumes ok: "equation_ok dims cs e" and k: "k \<in> set (eq_cells e)"
  shows "\<exists>c. map_of cs k = Some c \<and> belongsToEquation c = [eq_id e] \<and> cell_id c = k \<and>
             cell_type c \<noteq> TEmpty"
proof -
  have l: "length (eq_cells e) = 5" using ok by (simp add: equation_ok_def occupiesStrip_def)
  from k obtain i where i: "i < 5" "k = eq_cells e ! i" using l by (metis in_set_conv_nth)
  then have "i = 0 \<or> i = 1 \<or> i = 2 \<or> i = 3 \<or> i = 4" by arith
  moreover from ok obtain op n1 n2 r where
    "numberCell cs (eq_id e) (eq_cells e ! 0) n1"
    "symbolCell cs (eq_id e) (eq_cells e ! 1) TOperator op"
    "numberCell cs (eq_id e) (eq_cells e ! 2) n2"
    "symbolCell cs (eq_id e) (eq_cells e ! 3) TEquals ''=''"
    "numberCell cs (eq_id e) (eq_cells e ! 4) r"
    unfolding equation_ok_def by blast
  ultimately show ?thesis
    using i(2) by (auto simp: numberCell_def symbolCell_def split: option.splits)
qed

subsection \<open>The board handed out\<close>

lemma board_equations:
  assumes "gen_inv bd g"
  shows "equations (boardOf g) = map (\<lambda>e. (eq_id e, e)) (gen_equations g)"
  using equationMap_distinct[OF gen_invD(5)[OF assms]] by (simp add: boardOf_def)

lemma board_claimed:
  assumes "gen_inv bd g"
  shows "claimedIds (boardOf g) = concat (map eq_cells (gen_equations g))"
    and "set (claimedIds (boardOf g)) = usedPositions g"
proof -
  show a: "claimedIds (boardOf g) = concat (map eq_cells (gen_equations g))"
    by (simp add: claimedIds_def board_equations[OF assms] comp_def)
  show "set (claimedIds (boardOf g)) = usedPositions g"
    unfolding a gen_invD(6)[OF assms] by auto
qed

lemma shared_cell_same_equation:
  assumes inv: "gen_inv bd g"
    and e: "e1 \<in> set (gen_equations g)" "e2 \<in> set (gen_equations g)"
    and k: "k \<in> set (eq_cells e1)" "k \<in> set (eq_cells e2)"
  shows "e1 = e2"
proof -
  from equation_ok_cells[OF gen_invD(4)[OF inv e(1)] k(1)]
    equation_ok_cells[OF gen_invD(4)[OF inv e(2)] k(2)]
  have "eq_id e1 = eq_id e2" by auto
  moreover have "inj_on eq_id (set (gen_equations g))"
    using gen_invD(5)[OF inv] by (simp add: distinct_map)
  ultimately show ?thesis using e by (simp add: inj_on_def)
qed

lemma board_stripsWritten:
  assumes inv: "gen_inv bd g"
  shows "stripsWritten (boardOf g)"
proof -
  have "occupiesStrip (gen_gridSize g) e \<and>
        list_all (\<lambda>c. case map_of (gen_cells g) c of
                         None \<Rightarrow> False
                       | Some cell \<Rightarrow> belongsToEquation cell = [eq_id e] \<and> cell_type cell \<noteq> TEmpty)
                 (eq_cells e)" if e: "e \<in> set (gen_equations g)" for e
  proof
    show "occupiesStrip (gen_gridSize g) e"
      using gen_invD(4)[OF inv e] by (simp add: equation_ok_def)
    show "list_all (\<lambda>c. case map_of (gen_cells g) c of
                         None \<Rightarrow> False
                       | Some cell \<Rightarrow> belongsToEquation cell = [eq_id e] \<and> cell_type cell \<noteq> TEmpty)
                 (eq_cells e)"
      unfolding list_all_iff using equation_ok_cells[OF gen_invD(4)[OF inv e]] by fastforce
  qed
  then show ?thesis
    unfolding stripsWritten_def board_equations[OF inv]
    by (simp add: list_all_iff boardOf_def)
qed

lemma board_distinct:
  assumes inv: "gen_inv bd g"
  shows "distinct (claimedIds (boardOf g))"
  unfolding board_claimed(1)[OF inv]
proof (rule distinct_concat)
  have ne: "eq_cells e \<noteq> []" if "e \<in> set (gen_equations g)" for e
  proof -
    have "occupiesStrip (gen_gridSize g) e"
      using gen_invD(4)[OF inv that] by (simp add: equation_ok_def)
    then have "length (eq_cells e) = 5" by (simp add: occupiesStrip_def)
    then show ?thesis by auto
  qed
  have "inj_on eq_cells (set (gen_equations g))"
  proof (rule inj_onI)
    fix e1 e2
    assume a: "e1 \<in> set (gen_equations g)" "e2 \<in> set (gen_equations g)" "eq_cells e1 = eq_cells e2"
    obtain k where "k \<in> set (eq_cells e1)" using ne[OF a(1)] by (cases "eq_cells e1") auto
    then show "e1 = e2" using shared_cell_same_equation[OF inv a(1,2)] a(3) by simp
  qed
  moreover have "distinct (gen_equations g)" using gen_invD(5)[OF inv] by (simp add: distinct_map)
  ultimately show "distinct (map eq_cells (gen_equations g))" by (simp add: distinct_map)
next
  fix ys assume "ys \<in> set (map eq_cells (gen_equations g))"
  then obtain e where e: "e \<in> set (gen_equations g)" "ys = eq_cells e" by auto
  have o: "occupiesStrip (gen_gridSize g) e" using gen_invD(4)[OF inv e(1)] by (simp add: equation_ok_def)
  then have "list_all (inGrid (gen_gridSize g)) (stripCoordinates (isHorizontal e) (startPosition e))"
    "eq_cells e = stripIds (isHorizontal e) (startPosition e)"
    by (simp_all add: occupiesStrip_def)
  then show "distinct ys" using stripIds_distinct e(2) by metis
next
  fix ys zs
  assume "ys \<in> set (map eq_cells (gen_equations g))" "zs \<in> set (map eq_cells (gen_equations g))"
    "ys \<noteq> zs"
  then obtain e1 e2 where e: "e1 \<in> set (gen_equations g)" "ys = eq_cells e1"
    "e2 \<in> set (gen_equations g)" "zs = eq_cells e2" "e1 \<noteq> e2" by auto
  show "set ys \<inter> set zs = {}"
    using shared_cell_same_equation[OF inv e(1,3)] e(2,4,5) by blast
qed

lemma board_cell_cases:
  assumes inv: "gen_inv bd g" and m: "(k, cell) \<in> set (gen_cells g)"
  shows "(\<exists>e \<in> set (gen_equations g). k \<in> set (eq_cells e) \<and> belongsToEquation cell = [eq_id e] \<and>
            cell_id cell = k) \<or>
         (k \<notin> usedPositions g \<and> (\<exists>x y. k = cellIdOf x y \<and> cell = emptyCell x y))"
proof -
  have keys: "map fst (gen_cells g) = gridIds (width g) (height g)" using gen_invD(3)[OF inv] .
  then have d: "distinct (map fst (gen_cells g))" by (simp add: distinct_gridIds)
  have mo: "map_of (gen_cells g) k = Some cell" using d m by (rule map_of_is_SomeI)
  have "k \<in> set (gridIds (width g) (height g))" using m keys by (metis image_eqI fst_conv set_map)
  then obtain p where p: "p \<in> set (gridCoordinates (width g) (height g))"
    "k = cellIdOf (fst p) (snd p)" by (auto simp: gridIds_def)
  show ?thesis
  proof (cases "k \<in> usedPositions g")
    case True
    then obtain e where e: "e \<in> set (gen_equations g)" "k \<in> set (eq_cells e)"
      unfolding gen_invD(6)[OF inv] by auto
    from equation_ok_cells[OF gen_invD(4)[OF inv e(1)] e(2)] mo
    have "belongsToEquation cell = [eq_id e] \<and> cell_id cell = k" by auto
    with e show ?thesis by blast
  next
    case False
    then have "map_of (gen_cells g) k = Some (emptyCell (fst p) (snd p))"
      using gen_invD(7)[OF inv p(1)] p(2) by simp
    with mo have "cell = emptyCell (fst p) (snd p)" by simp
    with False p(2) show ?thesis by blast
  qed
qed

lemma board_othersUntouched:
  assumes inv: "gen_inv bd g"
  shows "othersUntouched (boardOf g)"
  unfolding othersUntouched_def list_all_iff board_claimed(2)[OF inv]
proof
  fix kc assume "kc \<in> set (cells (boardOf g))"
  then have m: "(fst kc, snd kc) \<in> set (gen_cells g)" by (simp add: boardOf_def)
  from board_cell_cases[OF inv m]
  have "fst kc \<in> usedPositions g \<or>
        snd kc = emptyCell (fst (position (snd kc))) (snd (position (snd kc)))"
  proof
    assume "\<exists>e \<in> set (gen_equations g). fst kc \<in> set (eq_cells e) \<and>
        belongsToEquation (snd kc) = [eq_id e] \<and> cell_id (snd kc) = fst kc"
    then show ?thesis unfolding gen_invD(6)[OF inv] by auto
  next
    assume "fst kc \<notin> usedPositions g \<and> (\<exists>x y. fst kc = cellIdOf x y \<and> snd kc = emptyCell x y)"
    then obtain x y where "snd kc = emptyCell x y" by blast
    then show ?thesis by (simp add: emptyCell_def)
  qed
  then show "case kc of (k, cell) \<Rightarrow> k \<in> usedPositions g \<or>
        cell = emptyCell (fst (position cell)) (snd (position cell))"
    by (simp add: case_prod_unfold)
qed

lemma board_referencesResolve:
  assumes inv: "gen_inv bd g"
  shows "referencesResolve (boardOf g)"
proof -
  have eqs: "equations (boardOf g) = map (\<lambda>e. (eq_id e, e)) (gen_equations g)"
    by (rule board_equations[OF inv])
  have look: "map_of (equations (boardOf g)) (eq_id e) = Some e" if "e \<in> set (gen_equations g)" for e
  proof -
    have "distinct (map fst (equations (boardOf g)))"
      unfolding eqs using gen_invD(5)[OF inv] by (simp add: comp_def)
    moreover have "(eq_id e, e) \<in> set (equations (boardOf g))" unfolding eqs using that by auto
    ultimately show ?thesis by (rule map_of_is_SomeI)
  qed
  have a: "list_all (\<lambda>(k, e).
         k = eq_id e \<and>
         list_all (\<lambda>c. case map_of (cells (boardOf g)) c of
                          None \<Rightarrow> False
                        | Some cell \<Rightarrow> eq_id e \<in> set (belongsToEquation cell))
                  (eq_cells e))
        (equations (boardOf g))"
    unfolding eqs list_all_iff
  proof
    fix ke assume "ke \<in> set (map (\<lambda>e. (eq_id e, e)) (gen_equations g))"
    then obtain e where e: "e \<in> set (gen_equations g)" "ke = (eq_id e, e)" by auto
    have "\<forall>c \<in> set (eq_cells e). case map_of (gen_cells g) c of
                          None \<Rightarrow> False
                        | Some cell \<Rightarrow> eq_id e \<in> set (belongsToEquation cell)"
      using equation_ok_cells[OF gen_invD(4)[OF inv e(1)]] by fastforce
    then show "case ke of (k, e) \<Rightarrow> k = eq_id e \<and>
         (\<forall>c \<in> set (eq_cells e). case map_of (cells (boardOf g)) c of
                          None \<Rightarrow> False
                        | Some cell \<Rightarrow> eq_id e \<in> set (belongsToEquation cell))"
      using e(2) by (simp add: boardOf_def)
  qed
  have b: "list_all (\<lambda>(k, cell).
         k = cell_id cell \<and>
         list_all (\<lambda>i. case map_of (equations (boardOf g)) i of
                          None \<Rightarrow> False
                        | Some e \<Rightarrow> k \<in> set (eq_cells e))
                  (belongsToEquation cell))
        (cells (boardOf g))"
    unfolding list_all_iff
  proof
    fix kc assume "kc \<in> set (cells (boardOf g))"
    then have m: "(fst kc, snd kc) \<in> set (gen_cells g)" by (simp add: boardOf_def)
    from board_cell_cases[OF inv m]
    have "fst kc = cell_id (snd kc) \<and>
          (\<forall>i \<in> set (belongsToEquation (snd kc)). case map_of (equations (boardOf g)) i of
                          None \<Rightarrow> False
                        | Some e \<Rightarrow> fst kc \<in> set (eq_cells e))"
    proof
      assume "\<exists>e \<in> set (gen_equations g). fst kc \<in> set (eq_cells e) \<and>
        belongsToEquation (snd kc) = [eq_id e] \<and> cell_id (snd kc) = fst kc"
      then obtain e where e: "e \<in> set (gen_equations g)" "fst kc \<in> set (eq_cells e)"
        "belongsToEquation (snd kc) = [eq_id e]" "cell_id (snd kc) = fst kc" by blast
      then show ?thesis using look[OF e(1)] by simp
    next
      assume "fst kc \<notin> usedPositions g \<and> (\<exists>x y. fst kc = cellIdOf x y \<and> snd kc = emptyCell x y)"
      then obtain x y where "fst kc = cellIdOf x y" "snd kc = emptyCell x y" by blast
      then show ?thesis by (simp add: emptyCell_def)
    qed
    then show "case kc of (k, cell) \<Rightarrow> k = cell_id cell \<and>
         (\<forall>i \<in> set (belongsToEquation cell). case map_of (equations (boardOf g)) i of
                          None \<Rightarrow> False
                        | Some e \<Rightarrow> k \<in> set (eq_cells e))"
      by (simp add: case_prod_unfold)
  qed
  show ?thesis unfolding referencesResolve_def using a b by simp
qed

text \<open>
  Claim C6: whatever the draws and the difficulty, \<open>generatePuzzle\<close> returns a board in
  which every equation lies on five consecutive cells along its orientation inside the
  grid, each of the five written for that equation alone; the cells claimed by the
  equations, listed equation after equation, are pairwise different, so no two equations
  claim the same cell; and every cell outside the equations is still as \<open>reset\<close> made it,
  so that a commitment has written its five cells and nothing else. The loops call the
  \<open>create...\<close> methods only after \<open>canPlace...\<close> has returned true, which is what keeps
  the strips inside the grid and apart.
\<close>

theorem generated_strips_in_grid_and_apart:
  "\<exists>b g. generatePuzzle rnd (new_PuzzleGenerator d) = Inr (b, g) \<and>
         gridSize b = cfgGridSize (DIFFICULTY_CONFIG d) \<and>
         stripsWritten b \<and> distinct (claimedIds b) \<and> othersUntouched b"
proof -
  from generatePuzzle_ok[of rnd d] obtain g' bd where
    g: "generatePuzzle rnd (new_PuzzleGenerator d) = Inr (boardOf g', g')" "gen_inv bd g'"
    "gen_gridSize g' = cfgGridSize (DIFFICULTY_CONFIG d)" by blast
  have "gridSize (boardOf g') = cfgGridSize (DIFFICULTY_CONFIG d)"
    using g(3) by (simp add: boardOf_def)
  then show ?thesis
    using g(1) board_stripsWritten[OF g(2)] board_distinct[OF g(2)] board_othersUntouched[OF g(2)]
    by blast
qed

lemma generatePuzzle_board:
  "\<exists>b g. generatePuzzle rnd (new_PuzzleGenerator d) = Inr (b, g) \<and>
         equations b \<noteq> [] \<and> referencesResolve b"
proof -
  from generatePuzzle_ok[of rnd d] obtain g' bd where
    g: "generatePuzzle rnd (new_PuzzleGenerator d) = Inr (boardOf g', g')" "gen_inv bd g'"
    "1 \<le> length (gen_equations g')" by blast
  have "equations (boardOf g') \<noteq> []"
    using g(3) unfolding board_equations[OF g(2)] by auto
  then show ?thesis using g(1) board_referencesResolve[OF g(2)] by blast
qed

subsection \<open>The earlier generator on the easy grid\<close>

lemma canPlace_v1_canPlace:
  "canPlaceHorizontalEquation_v1 g x y \<Longrightarrow> canPlaceHorizontalEquation g x y"
  "canPlaceVerticalEquation_v1 g x y \<Longrightarrow> canPlaceVerticalEquation g x y"
  by (simp_all add: canPlaceHorizontalEquation_v1_def canPlaceHorizontalEquation_def
        canPlaceVerticalEquation_v1_def canPlaceVerticalEquation_def)

lemma canPlace_v1_only_drawn:
  assumes "only_drawn g g'"
  shows "canPlaceHorizontalEquation_v1 g' x y = canPlaceHorizontalEquation_v1 g x y"
    "canPlaceVerticalEquation_v1 g' x y = canPlaceVerticalEquation_v1 g x y"
  unfolding canPlaceHorizontalEquation_v1_def canPlaceVerticalEquation_v1_def
    only_drawn_fields[OF assms] by simp_all

lemma easy_rows_only_drawn:
  assumes "only_drawn g g'" "easy_rows g"
  shows "easy_rows g'"
  using assms(2) gen_inv_only_drawn[OF assms(1)]
  unfolding easy_rows_def only_drawn_fields[OF assms(1)] by blast

lemma easy_rows_dims:
  assumes "easy_rows g"
  shows "width g = 8" "height g = 6" "gen_equationCount g = 10" "gen_inv 0 g"
  using assms by (simp_all add: easy_rows_def width_def height_def)

lemma mid_cell:
  assumes "0 \<le> x" "x \<le> 3"
  shows "cellIdOf 3 y \<in> set (stripIds True (x, y))"
proof -
  have "x = 0 \<or> x = 1 \<or> x = 2 \<or> x = 3" using assms by arith
  then show ?thesis by (auto simp: stripIds_def stripCoordinates_def)
qed

lemma easy_rows_bound:
  assumes e: "easy_rows g"
  shows "length (gen_equations g) \<le> 6"
proof -
  have inv: "gen_inv 0 g" and dims: "gen_gridSize g = (8, 6)"
    and hz: "list_all isHorizontal (gen_equations g)"
    using e by (simp_all add: easy_rows_def)
  let ?row = "\<lambda>e. snd (startPosition e)"
  have strip: "0 \<le> ?row e1 \<and> ?row e1 < 6 \<and>
               cellIdOf 3 (?row e1) \<in> set (eq_cells e1)" if e1: "e1 \<in> set (gen_equations g)" for e1
  proof -
    have o: "occupiesStrip (8, 6) e1"
      using gen_invD(4)[OF inv e1] dims by (simp add: equation_ok_def)
    have h: "isHorizontal e1" using hz e1 by (simp add: list_all_iff)
    obtain x y where p: "startPosition e1 = (x, y)" by (cases "startPosition e1")
    have g: "list_all (inGrid (8, 6)) (stripCoordinates True (x, y))"
      and c: "eq_cells e1 = stripIds True (x, y)"
      using o h p by (simp_all add: occupiesStrip_def)
    have "0 \<le> x" "x \<le> 3" "0 \<le> y" "y < 6"
      using g by (simp_all add: stripCoordinates_def inGrid_def)
    then show ?thesis using mid_cell[of x y] c p by simp
  qed
  have inj: "inj_on ?row (set (gen_equations g))"
  proof (rule inj_onI)
    fix e1 e2
    assume a: "e1 \<in> set (gen_equations g)" "e2 \<in> set (gen_equations g)" "?row e1 = ?row e2"
    show "e1 = e2"
      using shared_cell_same_equation[OF inv a(1,2), of "cellIdOf 3 (?row e1)"]
        strip[OF a(1)] strip[OF a(2)] a(3) by simp
  qed
  have "distinct (gen_equations g)" using gen_invD(5)[OF inv] by (simp add: distinct_map)
  then have "length (gen_equations g) = card (set (gen_equations g))"
    by (simp add: distinct_card)
  also have "\<dots> = card (?row ` set (gen_equations g))" using inj by (simp add: card_image)
  also have "\<dots> \<le> card {0..<6::int}"
    by (rule card_mono) (use strip in auto)
  finally show ?thesis by simp
qed

lemma easy_rows_create:
  assumes e: "easy_rows g" and can: "canPlaceHorizontalEquation_v1 g x y"
    and pos: "0 \<le> x" "0 \<le> y" "y < height g"
  shows "\<exists>g'. createHorizontalEquation rnd x y g = Inr g' \<and> easy_rows g'"
proof -
  have inv: "gen_inv 0 g" using e by (simp add: easy_rows_def)
  from createHorizontalEquation_ok[OF inv canPlace_v1_canPlace(1)[OF can] pos, of rnd]
  obtain g' where g': "createHorizontalEquation rnd x y g = Inr g'" "gen_inv 0 g'" "grown g g'"
    "length (gen_equations g') = Suc (length (gen_equations g))"
    "isHorizontal (last (gen_equations g'))" "butlast (gen_equations g') = gen_equations g"
    by blast
  have "gen_equations g' \<noteq> []" using g'(4) by auto
  then have eq: "gen_equations g' = gen_equations g @ [last (gen_equations g')]"
    using g'(6) by (metis append_butlast_last_id)
  have hz: "list_all isHorizontal (gen_equations g)" using e by (simp add: easy_rows_def)
  have "list_all isHorizontal (gen_equations g')"
    by (subst eq) (simp add: hz g'(5))
  then have "easy_rows g'"
    using e g'(2,3) by (simp add: easy_rows_def grown_def)
  with g'(1) show ?thesis by blast
qed

lemma no_vertical_v1:
  assumes "height g = 6" "0 \<le> y"
  shows "\<not> canPlaceVerticalEquation_v1 g x y"
  using assms by (simp add: canPlaceVerticalEquation_v1_def)

lemma horizontalLoop_v1_ok:
  "easy_rows g \<Longrightarrow> \<exists>g'. horizontalLoop_v1 rnd t left g = Inr g' \<and> easy_rows g'"
proof (induction left arbitrary: g)
  case 0
  then show ?case by simp
next
  case (Suc left)
  show ?case
  proof (cases "horizontalCount g < t")
    case False
    then show ?thesis using Suc.prems by simp
  next
    case True
    obtain x g1 where x: "randomInt rnd (width g - 6) g = (x, g1)"
      by (cases "randomInt rnd (width g - 6) g")
    obtain y g2 where y: "randomInt rnd (height g) g1 = (y, g2)"
      by (cases "randomInt rnd (height g) g1")
    have d: "only_drawn g g2" using only_drawn_trans[OF randomInt_only[OF x] randomInt_only[OF y]] .
    have e2: "easy_rows g2" using d Suc.prems by (rule easy_rows_only_drawn)
    have pos: "0 \<le> x" "0 \<le> y" "y < height g2"
      using randomInt_range[OF x] randomInt_range[OF y] easy_rows_dims[OF Suc.prems]
        only_drawn_fields[OF d] by simp_all
    show ?thesis
    proof (cases "canPlaceHorizontalEquation_v1 g2 x y")
      case False
      from Suc.IH[OF e2] show ?thesis using True x y False by simp
    next
      case can: True
      from easy_rows_create[OF e2 can pos, of rnd] obtain g3 where
        g3: "createHorizontalEquation rnd x y g2 = Inr g3" "easy_rows g3" by blast
      from Suc.IH[OF g3(2)] show ?thesis using True x y can g3(1) by simp
    qed
  qed
qed

lemma verticalLoop_v1_ok:
  "easy_rows g \<Longrightarrow> \<exists>g'. verticalLoop_v1 rnd t left g = Inr g' \<and> easy_rows g'"
proof (induction left arbitrary: g)
  case 0
  then show ?case by simp
next
  case (Suc left)
  show ?case
  proof (cases "verticalCount g < t")
    case False
    then show ?thesis using Suc.prems by simp
  next
    case True
    obtain x g1 where x: "randomInt rnd (width g) g = (x, g1)"
      by (cases "randomInt rnd (width g) g")
    obtain y g2 where y: "randomInt rnd (height g - 6) g1 = (y, g2)"
      by (cases "randomInt rnd (height g - 6) g1")
    have d: "only_drawn g g2" using only_drawn_trans[OF randomInt_only[OF x] randomInt_only[OF y]] .
    have e2: "easy_rows g2" using d Suc.prems by (rule easy_rows_only_drawn)
    have "0 \<le> y" using randomInt_range(1)[OF y] easy_rows_dims[OF Suc.prems] by simp
    then have "\<not> canPlaceVerticalEquation_v1 g2 x y"
      using no_vertical_v1 easy_rows_dims(2)[OF e2] by blast
    with Suc.IH[OF e2] show ?thesis using True x y by simp
  qed
qed

lemma addRandomLoop_v1_ok:
  "easy_rows g \<Longrightarrow> \<exists>g'. addRandomLoop_v1 rnd left g = Inr g' \<and> easy_rows g'"
proof (induction left arbitrary: g)
  case 0
  then show ?case by simp
next
  case (Suc left)
  obtain u g1 where u: "nextRandom rnd g = (u, g1)" by (cases "nextRandom rnd g")
  note dm = easy_rows_dims[OF Suc.prems]
  show ?case
  proof (cases "random_less u (6 / 10)")
    case True
    obtain x g2 where x: "randomInt rnd (width g - 6) g1 = (x, g2)"
      by (cases "randomInt rnd (width g - 6) g1")
    obtain y g3 where y: "randomInt rnd (height g) g2 = (y, g3)"
      by (cases "randomInt rnd (height g) g2")
    have d: "only_drawn g g3"
      using only_drawn_trans[OF only_drawn_trans[OF nextRandom_only[OF u] randomInt_only[OF x]]
          randomInt_only[OF y]] .
    have e3: "easy_rows g3" using d Suc.prems by (rule easy_rows_only_drawn)
    have pos: "0 \<le> x" "0 \<le> y" "y < height g3"
      using randomInt_range[OF x] randomInt_range[OF y] dm only_drawn_fields[OF d] by simp_all
    show ?thesis
    proof (cases "canPlaceHorizontalEquation_v1 g3 x y")
      case False
      from Suc.IH[OF e3] show ?thesis using True u x y False by simp
    next
      case can: True
      from easy_rows_create[OF e3 can pos, of rnd] show ?thesis using True u x y can by simp
    qed
  next
    case False
    obtain x g2 where x: "randomInt rnd (width g) g1 = (x, g2)"
      by (cases "randomInt rnd (width g) g1")
    obtain y g3 where y: "randomInt rnd (height g - 6) g2 = (y, g3)"
      by (cases "randomInt rnd (height g - 6) g2")
    have d: "only_drawn g g3"
      using only_drawn_trans[OF only_drawn_trans[OF nextRandom_only[OF u] randomInt_only[OF x]]
          randomInt_only[OF y]] .
    have e3: "easy_rows g3" using d Suc.prems by (rule easy_rows_only_drawn)
    have "0 \<le> y" using randomInt_range(1)[OF y] dm by simp
    then have "\<not> canPlaceVerticalEquation_v1 g3 x y"
      using no_vertical_v1 easy_rows_dims(2)[OF e3] by blast
    with Suc.IH[OF e3] show ?thesis using False u x y by simp
  qed
qed

lemma set_evens: "set (evens xs) \<subseteq> set xs"
  by (induction xs rule: evens.induct) auto

lemma intersectionInner_ok:
  "\<forall>c \<in> set cids. map_of (gen_cells g) c \<noteq> None \<Longrightarrow>
     \<exists>found. intersectionInner g cids = Inr (found, g)"
  by (induction cids)
     (auto simp: Let_def createVerticalEquationWithIntersection_def split: option.splits)

lemma intersectionLoop_ok:
  assumes inv: "gen_inv b g"
  shows "set eqs \<subseteq> set (gen_equations g) \<Longrightarrow> intersectionLoop m n eqs g = Inr g"
proof (induction eqs arbitrary: n)
  case Nil
  show ?case by simp
next
  case (Cons e eqs)
  have e: "e \<in> set (gen_equations g)" using Cons.prems by simp
  have "\<forall>c \<in> set (evens (eq_cells e)). map_of (gen_cells g) c \<noteq> None"
    using equation_ok_cells[OF gen_invD(4)[OF inv e]] set_evens[of "eq_cells e"] by fastforce
  from intersectionInner_ok[OF this] obtain found where
    f: "intersectionInner g (evens (eq_cells e)) = Inr (found, g)" by blast
  have r: "\<And>n. intersectionLoop m n eqs g = Inr g" using Cons.IH Cons.prems by simp
  show ?case using f r by simp
qed

lemma addIntersectionChallenges_ok:
  "gen_inv b g \<Longrightarrow> addIntersectionChallenges g = Inr g"
  unfolding addIntersectionChallenges_def by (rule intersectionLoop_ok) simp_all

lemma topUpWhile_v1_never:
  assumes "topUpWhile_v1 rnd g = Some y"
  shows "\<not> easy_rows g"
proof (rule topUpWhile_v1.raw_induct[where P = "\<lambda>rnd g y. \<not> easy_rows g", OF _ assms])
  fix f rnd g y
  assume ih: "\<And>rnd g y. f rnd g = Some y \<Longrightarrow> \<not> easy_rows g"
    and st: "(if int (length (gen_equations g)) < gen_equationCount g
              then case addRandomEquation_v1 rnd g of Inl e \<Rightarrow> Some (Inl e) | Inr g1 \<Rightarrow> f rnd g1
              else Some (Inr g)) = Some y"
  show "\<not> easy_rows g"
  proof
    assume e: "easy_rows g"
    have "int (length (gen_equations g)) < gen_equationCount g"
      using easy_rows_bound[OF e] easy_rows_dims(3)[OF e] by simp
    moreover from addRandomLoop_v1_ok[OF e, of rnd 50] obtain g1 where
      g1: "addRandomEquation_v1 rnd g = Inr g1" "easy_rows g1"
      by (auto simp: addRandomEquation_v1_def)
    ultimately have "f rnd g1 = Some y" using st by simp
    from ih[OF this] g1(2) show False by simp
  qed
qed

lemma easy_rows_reset: "easy_rows (reset (new_PuzzleGenerator Easy))"
proof -
  have "gen_inv 0 (reset (new_PuzzleGenerator Easy))"
    using new_PuzzleGenerator_dims(1,2) by (rule gen_inv_reset)
  then show ?thesis
    by (simp add: easy_rows_def new_PuzzleGenerator_def DIFFICULTY_CONFIG_def)
qed

text \<open>
  Claim C5 says that generation terminates for every difficulty and every sequence of draws,
  all retry loops being bounded, with a board of at least one equation and no dangling
  reference. The later \<open>generatePuzzle\<close> does (\<open>generatePuzzle_board\<close>: its loops count
  their attempts, it always returns, the board has an equation and every reference
  resolves). The earlier \<open>generatePuzzle\<close> does not: its top-up loop
  \<open>while (this.equations.length < this.equationCount)\<close> has no bound, and on the easy grid
  (8 by 6, 10 equations wanted) it never ends, whatever the draws. There \<open>canPlace...\<close>
  asks for seven free cells in line, so no vertical strip fits the six rows and a row takes
  one horizontal strip at most: six equations at most, fewer than ten. No exception ends it
  either: the value is \<open>None\<close>.
\<close>

theorem earlier_generatePuzzle_never_returns_on_easy:
  "generatePuzzle_v1 rnd (new_PuzzleGenerator Easy) = None"
proof -
  from horizontalLoop_v1_ok[OF easy_rows_reset, of rnd _ 100] obtain g1 where
    g1: "generateHorizontalEquations_v1 rnd (reset (new_PuzzleGenerator Easy)) = Inr g1"
    "easy_rows g1" by (auto simp: generateHorizontalEquations_v1_def)
  from verticalLoop_v1_ok[OF g1(2), of rnd _ 100] obtain g2 where
    g2: "generateVerticalEquations_v1 rnd g1 = Inr g2" "easy_rows g2"
    by (auto simp: generateVerticalEquations_v1_def)
  have g3: "addIntersectionChallenges g2 = Inr g2"
    using easy_rows_dims(4)[OF g2(2)] by (rule addIntersectionChallenges_ok)
  have "topUpWhile_v1 rnd g2 = None"
    using topUpWhile_v1_never[of rnd g2] g2(2) by (cases "topUpWhile_v1 rnd g2") auto
  then show ?thesis using g1(1) g2(1) g3 by (simp add: generatePuzzle_v1_def)
qed

subsection \<open>Running a plan of placements\<close>

lemma fixed_mutate_value:
  "map_option isFixed (map_of (mutate k (\<lambda>c. c\<lparr>cell_value := v\<rparr>) cs) cid) =
   map_option isFixed (map_of cs cid)"
  by (simp add: map_of_mutate option.map_comp comp_def)

lemma same_grid_refl [simp]: "same_grid s s"
  by (simp add: same_grid_def)

lemma same_grid_trans: "same_grid a b \<Longrightarrow> same_grid b c \<Longrightarrow> same_grid a c"
  by (simp add: same_grid_def)

lemma same_grid_checkEquations: "same_grid (checkEquations s) s"
  unfolding same_grid_def
  using strip_eq_value(2,3)[OF checkEquations_board(1)[of s]]
  by (simp add: checkEquations_board(2) split_beta)

lemma same_grid_checkGameCompletion: "same_grid (checkGameCompletion s) s"
  by (simp add: same_grid_def)

lemma place_step:
  assumes n: "\<not> isComplete s"
    and t: "find_tile tid (availableNumbers s) = Some tile" "\<not> isUsed tile"
    and c: "map_of (cells (board s)) cid = Some cell" "\<not> isFixed cell" "cell_type cell = TNumber"
  shows "\<exists>s'. placeTile now tid cid (Some s) = (True, Some s') \<and> same_grid s' s \<and>
           (\<forall>k. valueOf (cells (board s')) k =
                  (if k = cid then Some (NumV (tile_value tile)) else valueOf (cells (board s)) k)) \<and>
           (\<forall>t'. t' \<noteq> tid \<longrightarrow>
                  find_tile t' (availableNumbers s') = find_tile t' (availableNumbers s)) \<and>
           (isComplete s' \<longleftrightarrow> solved s') \<and> (allEquationsValid s' \<longleftrightarrow> solved s')"
proof -
  let ?x = "pushMove \<lparr>move_type = MPlace, tileId = tid, cellId = cid, timestamp = now\<rparr>
              (setCellValue cid (Some (NumV (tile_value tile))) (setTileUsed tid True s))"
  let ?s' = "checkGameCompletion (checkEquations ?x)"
  have p: "placeTile now tid cid (Some s) = (True, Some ?s')"
    using n t c by (simp add: placeTile_def Let_def)
  have key: "cid \<in> set (map fst (cells (board s)))"
    using c(1) by (metis map_of_None_keys option.distinct(1))
  have gx: "same_grid ?x s"
    unfolding same_grid_def by (simp add: type_mutate_value fixed_mutate_value)
  have g: "same_grid ?s' s"
    using same_grid_trans[OF same_grid_checkGameCompletion
        same_grid_trans[OF same_grid_checkEquations gx]] .
  have v: "valueOf (cells (board ?s')) k =
        (if k = cid then Some (NumV (tile_value tile)) else valueOf (cells (board s)) k)" for k
    using key by (simp add: valueOf_mutate)
  have tl: "find_tile t' (availableNumbers ?s') = find_tile t' (availableNumbers s)"
    if "t' \<noteq> tid" for t'
    using that by (simp add: find_tile_set_used)
  show ?thesis
    using p g v tl place_completion[OF p] flags_after_place[OF p] by blast
qed

lemma placeAll_run:
  assumes solve: "\<And>s'. same_grid s' s0 \<Longrightarrow>
                    (\<forall>k. valueOf (cells (board s')) k = goal k) \<Longrightarrow> solved s'"
    and unsolved: "\<And>s' cid. same_grid s' s0 \<Longrightarrow> cid \<in> blanks \<Longrightarrow>
                    valueOf (cells (board s')) cid = None \<Longrightarrow> \<not> solved s'"
    and blank: "\<And>cid. cid \<in> blanks \<Longrightarrow>
                    \<exists>cell. map_of (cells (board s0)) cid = Some cell \<and> \<not> isFixed cell \<and>
                           cell_type cell = TNumber"
  shows "same_grid s s0 \<Longrightarrow> \<not> isComplete s \<Longrightarrow> plan \<noteq> [] \<Longrightarrow>
         distinct (map fst plan) \<Longrightarrow> distinct (map snd plan) \<Longrightarrow>
         set (map snd plan) \<subseteq> blanks \<Longrightarrow>
         (\<forall>(tid, cid) \<in> set plan.
             \<exists>tile. find_tile tid (availableNumbers s) = Some tile \<and> \<not> isUsed tile \<and>
                    goal cid = Some (NumV (tile_value tile)) \<and>
                    valueOf (cells (board s)) cid = None) \<Longrightarrow>
         (\<forall>k. k \<notin> set (map snd plan) \<longrightarrow> valueOf (cells (board s)) k = goal k) \<Longrightarrow>
         \<exists>s'. placeAll plan (Some s) = (True, Some s') \<and> same_grid s' s0 \<and>
              solved s' \<and> allEquationsValid s' \<and> isComplete s' \<and>
              (\<forall>t'. t' \<notin> set (map fst plan) \<longrightarrow>
                     find_tile t' (availableNumbers s') = find_tile t' (availableNumbers s))"
proof (induction plan arbitrary: s)
  case Nil
  then show ?case by simp
next
  case (Cons p plan)
  obtain tid cid where p: "p = (tid, cid)" by (cases p)
  from Cons.prems(7) p obtain tile where
    tile: "find_tile tid (availableNumbers s) = Some tile" "\<not> isUsed tile"
      "goal cid = Some (NumV (tile_value tile))" by auto
  have cb: "cid \<in> blanks" using Cons.prems(6) p by simp
  from blank[OF cb] obtain cell0 where
    c0: "map_of (cells (board s0)) cid = Some cell0" "\<not> isFixed cell0" "cell_type cell0 = TNumber"
    by blast
  have sg: "same_grid s s0" by (rule Cons.prems(1))
  then have ty: "map_option cell_type (map_of (cells (board s)) cid) = Some TNumber"
    and fx: "map_option isFixed (map_of (cells (board s)) cid) = Some False"
    using c0 by (simp_all add: same_grid_def)
  then obtain cell where c: "map_of (cells (board s)) cid = Some cell" "\<not> isFixed cell"
    "cell_type cell = TNumber" by (cases "map_of (cells (board s)) cid") auto
  from place_step[OF Cons.prems(2) tile(1,2) c, of 0] obtain s1 where
    s1: "placeTile 0 tid cid (Some s) = (True, Some s1)" "same_grid s1 s"
      "\<And>k. valueOf (cells (board s1)) k =
                  (if k = cid then Some (NumV (tile_value tile)) else valueOf (cells (board s)) k)"
      "\<And>t'. t' \<noteq> tid \<Longrightarrow> find_tile t' (availableNumbers s1) = find_tile t' (availableNumbers s)"
      "isComplete s1 \<longleftrightarrow> solved s1" "allEquationsValid s1 \<longleftrightarrow> solved s1"
    by blast
  have sg1: "same_grid s1 s0" using same_grid_trans[OF s1(2) sg] .
  have notin: "tid \<notin> set (map fst plan)" "cid \<notin> set (map snd plan)"
    using Cons.prems(4,5) p by simp_all
  show ?case
  proof (cases "plan = []")
    case True
    have "valueOf (cells (board s1)) k = goal k" for k
      using s1(3)[of k] tile(3) Cons.prems(8) p True by simp
    then have "solved s1" using solve[OF sg1] by blast
    then show ?thesis using True p s1 sg1 by simp
  next
    case False
    then obtain tid2 cid2 where q: "(tid2, cid2) \<in> set plan" by (cases plan) auto
    then have ne2: "cid2 \<noteq> cid" using notin(2) by force
    have "valueOf (cells (board s)) cid2 = None" using Cons.prems(7) q by auto
    then have "valueOf (cells (board s1)) cid2 = None" using s1(3)[of cid2] ne2 by simp
    moreover have "cid2 \<in> blanks" using Cons.prems(6) q by force
    ultimately have "\<not> solved s1" using unsolved[OF sg1] by blast
    then have n1: "\<not> isComplete s1" using s1(5) by simp
    have d: "distinct (map fst plan)" "distinct (map snd plan)" "set (map snd plan) \<subseteq> blanks"
      using Cons.prems(4,5,6) by simp_all
    have t1: "\<forall>(tid', cid') \<in> set plan.
             \<exists>tile. find_tile tid' (availableNumbers s1) = Some tile \<and> \<not> isUsed tile \<and>
                    goal cid' = Some (NumV (tile_value tile)) \<and>
                    valueOf (cells (board s1)) cid' = None"
    proof (clarify)
      fix tid' cid' assume m: "(tid', cid') \<in> set plan"
      then have "tid' \<noteq> tid" "cid' \<noteq> cid" using notin by force+
      moreover from Cons.prems(7) m obtain tile' where
        "find_tile tid' (availableNumbers s) = Some tile' \<and> \<not> isUsed tile' \<and>
         goal cid' = Some (NumV (tile_value tile')) \<and> valueOf (cells (board s)) cid' = None"
        by auto
      ultimately show "\<exists>tile. find_tile tid' (availableNumbers s1) = Some tile \<and> \<not> isUsed tile \<and>
                    goal cid' = Some (NumV (tile_value tile)) \<and>
                    valueOf (cells (board s1)) cid' = None"
        using s1(3)[of cid'] s1(4)[of tid'] by auto
    qed
    have v1: "\<forall>k. k \<notin> set (map snd plan) \<longrightarrow> valueOf (cells (board s1)) k = goal k"
      using s1(3) tile(3) Cons.prems(8) p by auto
    from Cons.IH[OF sg1 n1 False d t1 v1] obtain s' where
      s': "placeAll plan (Some s1) = (True, Some s')" "same_grid s' s0" "solved s'"
        "allEquationsValid s'" "isComplete s'"
        "\<And>t'. t' \<notin> set (map fst plan) \<Longrightarrow>
               find_tile t' (availableNumbers s') = find_tile t' (availableNumbers s1)"
      by blast
    have "\<forall>t'. t' \<notin> set (map fst (p # plan)) \<longrightarrow>
               find_tile t' (availableNumbers s') = find_tile t' (availableNumbers s)"
      using s'(6) s1(4) p by auto
    then show ?thesis using p s1(1) s'(1,2,3,4,5) by auto
  qed
qed

subsection \<open>The numbers a generated board needs\<close>

lemma indexOf_nth:
  "distinct xs \<Longrightarrow> i < length xs \<Longrightarrow> indexOf xs (xs ! i) = int i"
proof (induction xs arbitrary: i)
  case Nil
  then show ?case by simp
next
  case (Cons x xs)
  show ?case
  proof (cases i)
    case 0
    then show ?thesis by simp
  next
    case (Suc j)
    then have j: "j < length xs" using Cons.prems(2) by simp
    have "xs ! j \<in> set xs" using j by simp
    then have "x \<noteq> xs ! j" using Cons.prems(1) by auto
    moreover have "indexOf xs (xs ! j) = int j" using Cons.IH[OF _ j] Cons.prems(1) by simp
    ultimately show ?thesis using Suc by (simp add: Let_def)
  qed
qed

lemma board_lookup:
  assumes inv: "gen_inv bd g" and e: "e \<in> set (gen_equations g)"
  shows "map_of (equations (boardOf g)) (eq_id e) = Some e"
proof -
  have eqs: "equations (boardOf g) = map (\<lambda>e. (eq_id e, e)) (gen_equations g)"
    by (rule board_equations[OF inv])
  have "distinct (map fst (equations (boardOf g)))"
    unfolding eqs using gen_invD(5)[OF inv] by (simp add: comp_def)
  moreover have "(eq_id e, e) \<in> set (equations (boardOf g))" unfolding eqs using e by auto
  ultimately show ?thesis by (rule map_of_is_SomeI)
qed

lemma board_cells [simp]: "cells (boardOf g) = gen_cells g"
  by (simp add: boardOf_def)

text \<open>A number cell of an equation: what it holds in the end, and what is derived for it.\<close>

lemma number_cell_wanted:
  assumes inv: "gen_inv bd g" and e: "e \<in> set (gen_equations g)"
    and m: "regex_match (expression e) = Some (n1, c, n2, r)"
    and i: "i < 5" "(i = 0 \<and> n = n1) \<or> (i = 2 \<and> n = n2) \<or> (i = 4 \<and> n = r)"
    and nc: "numberCell (gen_cells g) (eq_id e) (eq_cells e ! i) n"
  shows "wanted (boardOf g) (eq_cells e ! i) = Some (NumV n)"
    and "\<exists>cell. map_of (gen_cells g) (eq_cells e ! i) = Some cell \<and> cell_type cell = TNumber \<and>
           (\<not> isFixed cell \<longrightarrow> neededOfCell (boardOf g) cell = [n] \<and> cell_value cell = None)"
proof -
  let ?k = "eq_cells e ! i"
  from nc obtain cell where cell: "map_of (gen_cells g) ?k = Some cell" "cell_id cell = ?k"
    "cell_type cell = TNumber" "belongsToEquation cell = [eq_id e]"
    "isFixed cell \<Longrightarrow> cell_value cell = Some (NumV n)"
    "\<not> isFixed cell \<Longrightarrow> cell_value cell = None"
    by (auto simp: numberCell_def split: option.splits if_splits)
  have o: "occupiesStrip (gen_gridSize g) e"
    using gen_invD(4)[OF inv e] by (simp add: equation_ok_def)
  then have l: "length (eq_cells e) = 5" by (simp add: occupiesStrip_def)
  have "list_all (inGrid (gen_gridSize g)) (stripCoordinates (isHorizontal e) (startPosition e))"
    "eq_cells e = stripIds (isHorizontal e) (startPosition e)"
    using o by (simp_all add: occupiesStrip_def)
  then have d: "distinct (eq_cells e)" using stripIds_distinct by (metis prod.collapse)
  have ix: "indexOf (eq_cells e) ?k = int i" using d i(1) l by (simp add: indexOf_nth)
  have nd: "neededOfCell (boardOf g) cell = [n]" if "\<not> isFixed cell"
    using that cell(2,3,4) board_lookup[OF inv e] m ix i(2)
    by (auto simp: neededOfCell_def Let_def)
  show "wanted (boardOf g) ?k = Some (NumV n)"
    using cell(1,3,5) nd by (cases "isFixed cell") (simp_all add: wanted_def)
  show "\<exists>cell. map_of (gen_cells g) ?k = Some cell \<and> cell_type cell = TNumber \<and>
           (\<not> isFixed cell \<longrightarrow> neededOfCell (boardOf g) cell = [n] \<and> cell_value cell = None)"
    using cell(1,3,6) nd by blast
qed

lemma symbol_cell_wanted:
  assumes "symbolCell (gen_cells g) ident k t v" "t \<noteq> TNumber"
  shows "wanted (boardOf g) k = Some (StrV v)"
    and "\<exists>cell. map_of (gen_cells g) k = Some cell \<and> cell_type cell \<noteq> TNumber"
  using assms by (auto simp: symbolCell_def wanted_def split: option.splits)

text \<open>The five cells of an equation of a generated board, once solved.\<close>

lemma equation_wanted:
  assumes inv: "gen_inv bd g" and e: "e \<in> set (gen_equations g)"
  shows "\<exists>op n1 n2 r.
           op \<in> {''+'', ''-'', ''*'', ''/''} \<and> operatorHolds op n1 n2 r \<and>
           length (eq_cells e) = 5 \<and>
           wanted (boardOf g) (eq_cells e ! 0) = Some (NumV n1) \<and>
           wanted (boardOf g) (eq_cells e ! 1) = Some (StrV op) \<and>
           wanted (boardOf g) (eq_cells e ! 2) = Some (NumV n2) \<and>
           wanted (boardOf g) (eq_cells e ! 3) = Some (StrV ''='') \<and>
           wanted (boardOf g) (eq_cells e ! 4) = Some (NumV r)"
proof -
  from gen_invD(4)[OF inv e] obtain op n1 n2 r where
    h: "occupiesStrip (gen_gridSize g) e" "op \<in> {''+'', ''-'', ''*'', ''/''}"
      "0 \<le> n1" "0 \<le> n2" "0 \<le> r" "operatorHolds op n1 n2 r"
      "expression e = expressionOf n1 op n2 r"
      "numberCell (gen_cells g) (eq_id e) (eq_cells e ! 0) n1"
      "symbolCell (gen_cells g) (eq_id e) (eq_cells e ! 1) TOperator op"
      "numberCell (gen_cells g) (eq_id e) (eq_cells e ! 2) n2"
      "symbolCell (gen_cells g) (eq_id e) (eq_cells e ! 3) TEquals ''=''"
      "numberCell (gen_cells g) (eq_id e) (eq_cells e ! 4) r"
    unfolding equation_ok_def by blast
  from regex_match_expression[OF h(2,3,4,5)] obtain c where
    m: "regex_match (expression e) = Some (n1, c, n2, r)" using h(7) by auto
  have l: "length (eq_cells e) = 5" using h(1) by (simp add: occupiesStrip_def)
  show ?thesis
    using h(2,6) l
      number_cell_wanted(1)[OF inv e m _ _ h(8)]
      symbol_cell_wanted(1)[OF h(9)]
      number_cell_wanted(1)[OF inv e m _ _ h(10)]
      symbol_cell_wanted(1)[OF h(11)]
      number_cell_wanted(1)[OF inv e m _ _ h(12)]
    by auto
qed

text \<open>A blank cell of a generated board.\<close>

lemma blank_cell:
  assumes inv: "gen_inv bd g" and m: "(k, cell) \<in> set (gen_cells g)"
    and b: "cell_type cell = TNumber" "\<not> isFixed cell"
  shows "\<exists>v e. neededOfCell (boardOf g) cell = [v] \<and> wanted (boardOf g) k = Some (NumV v) \<and>
           cell_value cell = None \<and> e \<in> set (gen_equations g) \<and> k \<in> set (eq_cells e)"
proof -
  have keys: "distinct (map fst (gen_cells g))"
    using gen_invD(3)[OF inv] by (simp add: distinct_gridIds)
  have mo: "map_of (gen_cells g) k = Some cell" using keys m by (rule map_of_is_SomeI)
  from board_cell_cases[OF inv m] b(1) obtain e where
    e: "e \<in> set (gen_equations g)" "k \<in> set (eq_cells e)"
    by (auto simp: emptyCell_def)
  from gen_invD(4)[OF inv e(1)] obtain op n1 n2 r where
    h: "occupiesStrip (gen_gridSize g) e" "op \<in> {''+'', ''-'', ''*'', ''/''}"
      "0 \<le> n1" "0 \<le> n2" "0 \<le> r"
      "expression e = expressionOf n1 op n2 r"
      "numberCell (gen_cells g) (eq_id e) (eq_cells e ! 0) n1"
      "symbolCell (gen_cells g) (eq_id e) (eq_cells e ! 1) TOperator op"
      "numberCell (gen_cells g) (eq_id e) (eq_cells e ! 2) n2"
      "symbolCell (gen_cells g) (eq_id e) (eq_cells e ! 3) TEquals ''=''"
      "numberCell (gen_cells g) (eq_id e) (eq_cells e ! 4) r"
    unfolding equation_ok_def by blast
  from regex_match_expression[OF h(2,3,4,5)] obtain c where
    rm: "regex_match (expression e) = Some (n1, c, n2, r)" using h(6) by auto
  have l: "length (eq_cells e) = 5" using h(1) by (simp add: occupiesStrip_def)
  from e(2) obtain i where i: "i < 5" "k = eq_cells e ! i" using l by (metis in_set_conv_nth)
  then consider "i = 0" | "i = 1" | "i = 2" | "i = 3" | "i = 4" by arith
  then have "\<exists>v. neededOfCell (boardOf g) cell = [v] \<and> wanted (boardOf g) k = Some (NumV v) \<and>
           cell_value cell = None"
  proof cases
    case 1
    from number_cell_wanted[OF inv e(1) rm _ _ h(7)] mo b(2) i(2) 1 show ?thesis by auto
  next
    case 2
    from symbol_cell_wanted(2)[OF h(8)] mo b(1) i(2) 2 show ?thesis by auto
  next
    case 3
    from number_cell_wanted[OF inv e(1) rm _ _ h(9)] mo b(2) i(2) 3 show ?thesis by auto
  next
    case 4
    from symbol_cell_wanted(2)[OF h(10)] mo b(1) i(2) 4 show ?thesis by auto
  next
    case 5
    from number_cell_wanted[OF inv e(1) rm _ _ h(11)] mo b(2) i(2) 5 show ?thesis by auto
  qed
  then show ?thesis using e by blast
qed

lemma valueOf_Some:
  "valueOf cs k = Some v \<Longrightarrow> \<exists>c. map_of cs k = Some c \<and> cell_value c = Some v"
  by (auto simp: valueOf_def split: option.splits)

lemma operatorHolds_validate:
  assumes "op \<in> {''+'', ''-'', ''*'', ''/''}" "operatorHolds op n1 n2 r"
    and "valueAt cs eq 0 = Some (NumV n1)" "valueAt cs eq 1 = Some (StrV op)"
    and "valueAt cs eq 2 = Some (NumV n2)" "valueAt cs eq 4 = Some (NumV r)"
  shows "validateEquation cs eq"
  using assms(1,2) unfolding validateEquation_def assms(3-6) operatorHolds_def by auto

lemma solved_when_wanted:
  assumes inv: "gen_inv bd g" and sg: "same_grid s' s0" and b0: "board s0 = boardOf g"
    and v: "\<forall>k. valueOf (cells (board s')) k = wanted (boardOf g) k"
  shows "solved s'"
proof -
  let ?cs = "cells (board s')"
  have eqs: "map (\<lambda>(k, eq). (k, unflag eq)) (equations (board s')) =
             map (\<lambda>e. (eq_id e, unflag e)) (gen_equations g)"
    using sg unfolding same_grid_def b0 board_equations[OF inv] by (simp add: comp_def)
  have "isEquationComplete ?cs e \<and> validateEquation ?cs e" if e: "e \<in> set (gen_equations g)" for e
  proof -
    from equation_wanted[OF inv e] obtain op n1 n2 r where
      h: "op \<in> {''+'', ''-'', ''*'', ''/''}" "operatorHolds op n1 n2 r" "length (eq_cells e) = 5"
        "wanted (boardOf g) (eq_cells e ! 0) = Some (NumV n1)"
        "wanted (boardOf g) (eq_cells e ! 1) = Some (StrV op)"
        "wanted (boardOf g) (eq_cells e ! 2) = Some (NumV n2)"
        "wanted (boardOf g) (eq_cells e ! 3) = Some (StrV ''='')"
        "wanted (boardOf g) (eq_cells e ! 4) = Some (NumV r)"
      by blast
    have va: "valueAt ?cs e i = wanted (boardOf g) (eq_cells e ! i)" if "i < 5" for i
      using that h(3) v by (simp add: valueAt_valueOf nth_opt_def)
    have "\<exists>w. valueOf ?cs cid = Some w" if "cid \<in> set (eq_cells e)" for cid
    proof -
      from that obtain i where i: "i < 5" "cid = eq_cells e ! i" using h(3) by (metis in_set_conv_nth)
      then have "i = 0 \<or> i = 1 \<or> i = 2 \<or> i = 3 \<or> i = 4" by arith
      then show ?thesis using i(2) v h(4-8) by auto
    qed
    then have "isEquationComplete ?cs e"
      unfolding isEquationComplete_def list_all_iff using valueOf_Some by fastforce
    moreover have "validateEquation ?cs e"
      using operatorHolds_validate[OF h(1,2), of ?cs e] va h(4,5,6,8) by simp
    ultimately show ?thesis by simp
  qed
  then show ?thesis
    unfolding solved_unflag eqs by (simp add: list_all_iff)
qed

lemma blank_in_cells:
  assumes "cid \<in> set (blankCells b)"
  shows "\<exists>cell. (cid, cell) \<in> set (cells b) \<and> cell_type cell = TNumber \<and> \<not> isFixed cell"
  using assms by (auto simp: blankCells_def)

lemma board_keys_distinct:
  assumes "gen_inv bd g"
  shows "distinct (map fst (gen_cells g))"
  using gen_invD(3)[OF assms] by (simp add: distinct_gridIds)

lemma unsolved_when_blank_empty:
  assumes inv: "gen_inv bd g" and sg: "same_grid s' s0" and b0: "board s0 = boardOf g"
    and c: "cid \<in> set (blankCells (boardOf g))"
    and v: "valueOf (cells (board s')) cid = None"
  shows "\<not> solved s'"
proof
  assume sv: "solved s'"
  let ?cs = "cells (board s')"
  from blank_in_cells[OF c] obtain cell where
    cell: "(cid, cell) \<in> set (gen_cells g)" "cell_type cell = TNumber" "\<not> isFixed cell" by auto
  from blank_cell[OF inv cell] obtain e where e: "e \<in> set (gen_equations g)" "cid \<in> set (eq_cells e)"
    by blast
  have mo: "map_of (gen_cells g) cid = Some cell"
    using board_keys_distinct[OF inv] cell(1) by (rule map_of_is_SomeI)
  have "map_option cell_type (map_of ?cs cid) = Some TNumber"
    using sg mo cell(2) unfolding same_grid_def b0 by simp
  then obtain c' where c': "map_of ?cs cid = Some c'" "cell_type c' = TNumber"
    by (cases "map_of ?cs cid") auto
  then have "cell_value c' = None" using v by (simp add: valueOf_def)
  then have "\<not> (case map_of ?cs cid of None \<Rightarrow> False
              | Some c \<Rightarrow> cell_value c \<noteq> None \<or> cell_type c = TOperator \<or> cell_type c = TEquals)"
    using c' by simp
  then have nc: "\<not> isEquationComplete ?cs e"
    using e(2) unfolding isEquationComplete_def list_all_iff by blast
  have eqs: "map (\<lambda>(k, eq). (k, unflag eq)) (equations (board s')) =
             map (\<lambda>e. (eq_id e, unflag e)) (gen_equations g)"
    using sg unfolding same_grid_def b0 board_equations[OF inv] by (simp add: comp_def)
  have "isEquationComplete ?cs e"
    using sv e(1) unfolding solved_unflag eqs by (auto simp: list_all_iff)
  with nc show False by simp
qed

lemma blank_exists:
  assumes inv: "gen_inv bd g" and c: "cid \<in> set (blankCells (boardOf g))"
  shows "\<exists>cell. map_of (gen_cells g) cid = Some cell \<and> \<not> isFixed cell \<and> cell_type cell = TNumber"
    and "valueOf (gen_cells g) cid = None"
proof -
  from blank_in_cells[OF c] obtain cell where
    cell: "(cid, cell) \<in> set (gen_cells g)" "cell_type cell = TNumber" "\<not> isFixed cell" by auto
  have mo: "map_of (gen_cells g) cid = Some cell"
    using board_keys_distinct[OF inv] cell(1) by (rule map_of_is_SomeI)
  then show "\<exists>cell. map_of (gen_cells g) cid = Some cell \<and> \<not> isFixed cell \<and> cell_type cell = TNumber"
    using cell by blast
  from blank_cell[OF inv cell] have "cell_value cell = None" by blast
  then show "valueOf (gen_cells g) cid = None" using mo by (simp add: valueOf_def)
qed

lemma not_blank_wanted:
  assumes inv: "gen_inv bd g" and c: "cid \<notin> set (blankCells (boardOf g))"
  shows "wanted (boardOf g) cid = valueOf (gen_cells g) cid"
proof (cases "map_of (gen_cells g) cid")
  case None
  then show ?thesis by (simp add: wanted_def valueOf_def)
next
  case (Some cell)
  then have "(cid, cell) \<in> set (gen_cells g)" by (rule map_of_SomeD)
  then have "\<not> (cell_type cell = TNumber \<and> \<not> isFixed cell)"
    using c by (force simp: blankCells_def)
  then show ?thesis using Some by (auto simp: wanted_def valueOf_def)
qed

lemma distinct_blankCells:
  assumes "gen_inv bd g"
  shows "distinct (blankCells (boardOf g))"
  unfolding blankCells_def board_cells
  using board_keys_distinct[OF assms] by (rule distinct_map_filter)

lemma needed_of_cells:
  assumes inv: "gen_inv bd g"
  shows "set xs \<subseteq> set (gen_cells g) \<Longrightarrow>
     map (wanted (boardOf g))
       (map fst (filter (\<lambda>(k, cell). cell_type cell = TNumber \<and> \<not> isFixed cell) xs)) =
     map (\<lambda>v. Some (NumV v)) (concat (map (\<lambda>(k, cell). neededOfCell (boardOf g) cell) xs))"
proof (induction xs)
  case Nil
  show ?case by simp
next
  case (Cons p xs)
  obtain k cell where p: "p = (k, cell)" by (cases p)
  have m: "(k, cell) \<in> set (gen_cells g)" using Cons.prems p by simp
  have ih: "map (wanted (boardOf g))
       (map fst (filter (\<lambda>(k, cell). cell_type cell = TNumber \<and> \<not> isFixed cell) xs)) =
     map (\<lambda>v. Some (NumV v)) (concat (map (\<lambda>(k, cell). neededOfCell (boardOf g) cell) xs))"
    using Cons.IH Cons.prems by simp
  show ?case
  proof (cases "cell_type cell = TNumber \<and> \<not> isFixed cell")
    case True
    from blank_cell[OF inv m] True obtain v where
      "neededOfCell (boardOf g) cell = [v]" "wanted (boardOf g) k = Some (NumV v)" by blast
    then show ?thesis using True p ih by simp
  next
    case False
    then have "neededOfCell (boardOf g) cell = []" by (auto simp: neededOfCell_def)
    then show ?thesis using False p ih by simp
  qed
qed

lemma needed_wanted:
  assumes inv: "gen_inv bd g"
  shows "map (wanted (boardOf g)) (blankCells (boardOf g)) =
         map (\<lambda>v. Some (NumV v)) (neededNumbers (boardOf g))"
  using needed_of_cells[OF inv, of "gen_cells g"]
  by (simp add: blankCells_def neededNumbers_def)

subsection \<open>The hand\<close>

lemma shuffleLoop_positions:
  "i < length xs \<or> i = 0 \<Longrightarrow>
     \<exists>q. length q = length xs \<and> distinct q \<and> (\<forall>c \<in> set q. c < length xs) \<and>
         length (fst (shuffleLoop rnd i xs g)) = length xs \<and>
         (\<forall>m < length xs. fst (shuffleLoop rnd i xs g) ! (q ! m) = xs ! m)"
proof (induction i arbitrary: xs g)
  case 0
  have "length [0..<length xs] = length xs \<and> distinct [0..<length xs] \<and>
        (\<forall>c \<in> set [0..<length xs]. c < length xs) \<and>
        (\<forall>m < length xs. xs ! ([0..<length xs] ! m) = xs ! m)" by simp
  then show ?case by (intro exI[of _ "[0..<length xs]"]) simp
next
  case (Suc i)
  then have a: "Suc i < length xs" by simp
  obtain j g1 where j: "randomInt rnd (int (Suc i) + 1) g = (j, g1)"
    by (cases "randomInt rnd (int (Suc i) + 1) g")
  have "0 \<le> j" "j < int (Suc i) + 1" using randomInt_range[OF j] by simp_all
  then have b: "nat j < length xs" using a by simp
  let ?a = "Suc i" and ?b = "nat j"
  let ?xs' = "xs[?a := xs ! ?b, ?b := xs ! ?a]"
  let ?ys = "fst (shuffleLoop rnd i ?xs' g1)"
  have ys: "fst (shuffleLoop rnd (Suc i) xs g) = ?ys" using j by simp
  have "i < length ?xs' \<or> i = 0" using a by simp
  from Suc.IH[OF this, of g1] obtain q' where
    q': "length q' = length xs" "distinct q'" "\<forall>c \<in> set q'. c < length xs"
      "length ?ys = length xs" "\<And>m. m < length xs \<Longrightarrow> ?ys ! (q' ! m) = ?xs' ! m"
    by auto
  let ?q = "q'[?a := q' ! ?b, ?b := q' ! ?a]"
  have l: "length ?q = length xs" using q'(1) by simp
  have d: "distinct ?q" using q'(1,2) a b by (simp add: distinct_swap)
  have s: "\<forall>c \<in> set ?q. c < length xs" using q'(1,3) a b by (simp add: set_swap)
  have v: "?ys ! (?q ! m) = xs ! m" if m: "m < length xs" for m
  proof -
    consider "m = ?b" | "m \<noteq> ?b" "m = ?a" | "m \<noteq> ?b" "m \<noteq> ?a" by blast
    then show ?thesis
    proof cases
      case 1
      then have "?q ! m = q' ! ?a" using q'(1) b by simp
      moreover have "?xs' ! ?a = xs ! ?b" using a b by (simp add: nth_list_update)
      ultimately show ?thesis using q'(5)[OF a] 1 by simp
    next
      case 2
      then have "?q ! m = q' ! ?b" using q'(1) a by simp
      moreover have "?xs' ! ?b = xs ! ?a" using a b by simp
      ultimately show ?thesis using q'(5)[OF b] 2 by simp
    next
      case 3
      then have "?q ! m = q' ! m" by simp
      moreover have "?xs' ! m = xs ! m" using 3 by simp
      ultimately show ?thesis using q'(5)[OF m] by simp
    qed
  qed
  show ?case
    unfolding ys using l d s q'(4) v by blast
qed

lemma shuffleArray_positions:
  "\<exists>q. length q = length xs \<and> distinct q \<and> (\<forall>c \<in> set q. c < length xs) \<and>
       length (fst (shuffleArray rnd xs g)) = length xs \<and>
       (\<forall>m < length xs. fst (shuffleArray rnd xs g) ! (q ! m) = xs ! m)"
  unfolding shuffleArray_def
  by (rule shuffleLoop_positions) (cases xs; simp)

lemma hand_positions:
  assumes "generateAvailableNumbers rnd b g = (hand, g')"
  shows "\<exists>idx. length idx = length (neededNumbers b) \<and> distinct idx \<and>
           (\<forall>c \<in> set idx. c < length hand) \<and> map ((!) hand) idx = neededNumbers b"
proof -
  let ?needed = "neededNumbers b"
  obtain extra g1 where r: "redHerrings rnd (nat \<lceil>real (length ?needed) * (2 / 10)\<rceil>) g = (extra, g1)"
    by (cases "redHerrings rnd (nat \<lceil>real (length ?needed) * (2 / 10)\<rceil>) g")
  have h: "hand = fst (shuffleArray rnd (?needed @ extra) g1)"
    using assms r by (simp add: generateAvailableNumbers_def Let_def)
  from shuffleArray_positions[of "?needed @ extra" rnd g1] obtain q where
    q: "length q = length (?needed @ extra)" "distinct q" "\<forall>c \<in> set q. c < length (?needed @ extra)"
      "length hand = length (?needed @ extra)"
      "\<And>m. m < length (?needed @ extra) \<Longrightarrow> hand ! (q ! m) = (?needed @ extra) ! m"
    unfolding h by blast
  let ?idx = "take (length ?needed) q"
  have l: "length ?idx = length ?needed" using q(1) by simp
  have d: "distinct ?idx" using q(2) by (rule distinct_take)
  have s: "\<forall>c \<in> set ?idx. c < length hand" using q(3,4) by (auto dest: in_set_takeD)
  have "map ((!) hand) ?idx = ?needed"
  proof (rule nth_equalityI)
    show "length (map ((!) hand) ?idx) = length ?needed" using l by simp
    fix m assume "m < length (map ((!) hand) ?idx)"
    then have m: "m < length ?needed" using l by simp
    then have "hand ! (q ! m) = ?needed ! m" using q(5)[of m] by (simp add: nth_append)
    then show "map ((!) hand) ?idx ! m = ?needed ! m" using m l by simp
  qed
  then show ?thesis using l d s by blast
qed

lemma find_tile_newGame:
  assumes "i < length hand"
  shows "find_tile (''tile-'' @ show_nat i) (availableNumbers (newGame d b hand)) =
           Some \<lparr>tile_id = ''tile-'' @ show_nat i, tile_value = hand ! i, isUsed = False\<rparr>"
proof -
  let ?f = "\<lambda>(index, v). \<lparr>tile_id = ''tile-'' @ show_nat index, tile_value = v, isUsed = False\<rparr>"
  let ?ts = "map ?f (enumerate 0 hand)"
  have n: "?ts ! j = \<lparr>tile_id = ''tile-'' @ show_nat j, tile_value = hand ! j, isUsed = False\<rparr>"
    if "j < length hand" for j
    using that by (simp add: nth_enumerate_eq)
  have "List.find (\<lambda>t. tile_id t = ''tile-'' @ show_nat i) ?ts = Some (?ts ! i)"
    unfolding find_Some_iff
  proof (intro exI[of _ i] conjI allI impI)
    show "i < length ?ts" using assms by simp
    show "tile_id (?ts ! i) = ''tile-'' @ show_nat i" using n[OF assms] by simp
    show "?ts ! i = ?ts ! i" ..
    fix j assume "j < i"
    then have "tile_id (?ts ! j) = ''tile-'' @ show_nat j" using n[of j] assms by simp
    then show "tile_id (?ts ! j) \<noteq> ''tile-'' @ show_nat i"
      using \<open>j < i\<close> show_nat_inj[of j i] by auto
  qed
  then show ?thesis using n[OF assms] by (simp add: find_tile_def newGame_def)
qed

lemma some_blank:
  assumes inv: "gen_inv bd g" and e: "e \<in> set (gen_equations g)"
  shows "blankCells (boardOf g) \<noteq> []"
proof -
  from gen_invD(4)[OF inv e] obtain n1 n2 r where
    h: "numberCell (gen_cells g) (eq_id e) (eq_cells e ! 0) n1"
      "numberCell (gen_cells g) (eq_id e) (eq_cells e ! 2) n2"
      "numberCell (gen_cells g) (eq_id e) (eq_cells e ! 4) r"
      "2 \<le> length (filter (isBlank (gen_cells g)) [eq_cells e ! 0, eq_cells e ! 2, eq_cells e ! 4])"
    unfolding equation_ok_def by blast
  from h(4) obtain k where k: "k \<in> {eq_cells e ! 0, eq_cells e ! 2, eq_cells e ! 4}"
    "isBlank (gen_cells g) k"
    by (auto split: if_splits)
  then obtain n where "numberCell (gen_cells g) (eq_id e) k n" using h(1,2,3) by auto
  with k(2) obtain cell where "map_of (gen_cells g) k = Some cell" "cell_type cell = TNumber"
    "\<not> isFixed cell"
    by (auto simp: numberCell_def isBlank_def split: option.splits)
  then have "(k, cell) \<in> set (filter (\<lambda>(k, cell). cell_type cell = TNumber \<and> \<not> isFixed cell)
                 (gen_cells g))"
    by (auto dest: map_of_SomeD)
  then have "filter (\<lambda>(k, cell). cell_type cell = TNumber \<and> \<not> isFixed cell) (gen_cells g) \<noteq> []"
    by (metis empty_iff list.set(1))
  then show ?thesis unfolding blankCells_def board_cells by simp
qed

subsection \<open>The needed tiles solve the game\<close>

lemma newGame_frame [simp]:
  "board (newGame d b hand) = b" "\<not> isComplete (newGame d b hand)"
  by (simp_all add: newGame_def)

text \<open>
  Claim C2: whatever the draws and the difficulty, \<open>startNewGame\<close> returns a game that the
  needed tiles solve. There is a plan of placements, one for each blank cell in the order in
  which \<open>generateAvailableNumbers\<close> visits them, each with a tile of its own whose value is the
  number derived for that cell; the tile values of the plan are the needed numbers, in
  order, so no decoy is among them. Carried out in that order, every \<open>placeTile\<close> of the plan
  returns true, and afterwards every equation is complete and valid, on the cells and by
  its flags, and the game is complete.
\<close>

theorem needed_tiles_solve_generated_game:
  "\<exists>s plan s'.
     startNewGame rnd d = Inr s \<and>
     map snd plan = blankCells (board s) \<and>
     distinct (map fst plan) \<and>
     map (tileValue s) (map fst plan) = map Some (neededNumbers (board s)) \<and>
     placeAll plan (Some s) = (True, Some s') \<and>
     solved s' \<and> allEquationsValid s' \<and> isComplete s'"
proof -
  from generatePuzzle_ok[of rnd d] obtain g bd where
    g: "generatePuzzle rnd (new_PuzzleGenerator d) = Inr (boardOf g, g)" "gen_inv bd g"
    "1 \<le> length (gen_equations g)" by blast
  let ?b = "boardOf g"
  obtain hand g1 where hd: "generateAvailableNumbers rnd ?b g = (hand, g1)"
    by (cases "generateAvailableNumbers rnd ?b g")
  let ?s = "newGame d ?b hand"
  have st: "startNewGame rnd d = Inr ?s" using g(1) hd by (simp add: startNewGame_def)
  from hand_positions[OF hd] obtain idx where
    idx: "length idx = length (neededNumbers ?b)" "distinct idx" "\<forall>c \<in> set idx. c < length hand"
      "map ((!) hand) idx = neededNumbers ?b" by blast
  let ?blanks = "blankCells ?b"
  let ?tids = "map (\<lambda>i. ''tile-'' @ show_nat i) idx"
  let ?plan = "zip ?tids ?blanks"
  have nw: "map (wanted ?b) ?blanks = map (\<lambda>v. Some (NumV v)) (neededNumbers ?b)"
    by (rule needed_wanted[OF g(2)])
  have lb: "length ?blanks = length (neededNumbers ?b)"
    using arg_cong[OF nw, of length] by simp
  have lt: "length ?tids = length ?blanks" using idx(1) lb by simp
  have fstp: "map fst ?plan = ?tids" and sndp: "map snd ?plan = ?blanks"
    using lt by simp_all
  have dt: "distinct ?tids"
    using idx(2) show_nat_inj by (auto simp: distinct_map inj_on_def)
  have db: "distinct ?blanks" by (rule distinct_blankCells[OF g(2)])
  obtain e where e: "e \<in> set (gen_equations g)" using g(3) by (cases "gen_equations g") auto
  have "?blanks \<noteq> []" by (rule some_blank[OF g(2) e])
  then have pne: "?plan \<noteq> []" using lt by (cases ?tids; cases ?blanks) auto
  have tv: "find_tile (?tids ! m) (availableNumbers ?s) =
              Some \<lparr>tile_id = ?tids ! m, tile_value = neededNumbers ?b ! m, isUsed = False\<rparr>"
    if m: "m < length idx" for m
  proof -
    have "idx ! m < length hand" using idx(3) m by simp
    from find_tile_newGame[OF this, of d ?b]
    have "find_tile (?tids ! m) (availableNumbers ?s) =
            Some \<lparr>tile_id = ?tids ! m, tile_value = hand ! (idx ! m), isUsed = False\<rparr>"
      using m by simp
    moreover have "hand ! (idx ! m) = neededNumbers ?b ! m"
      using arg_cong[OF idx(4), of "\<lambda>xs. xs ! m"] m by simp
    ultimately show ?thesis by simp
  qed
  have tiles: "\<forall>(tid, cid) \<in> set ?plan.
             \<exists>tile. find_tile tid (availableNumbers ?s) = Some tile \<and> \<not> isUsed tile \<and>
                    wanted ?b cid = Some (NumV (tile_value tile)) \<and>
                    valueOf (cells (board ?s)) cid = None"
  proof (clarify)
    fix tid cid assume "(tid, cid) \<in> set ?plan"
    then obtain m where m: "m < length idx" "tid = ?tids ! m" "cid = ?blanks ! m"
      using lt by (auto simp: in_set_zip)
    have cb: "cid \<in> set ?blanks" using m lt by simp
    have "wanted ?b cid = Some (NumV (neededNumbers ?b ! m))"
      using arg_cong[OF nw, of "\<lambda>xs. xs ! m"] m lt lb by simp
    moreover have "valueOf (cells (board ?s)) cid = None"
      using blank_exists(2)[OF g(2) cb] by simp
    ultimately show "\<exists>tile. find_tile tid (availableNumbers ?s) = Some tile \<and> \<not> isUsed tile \<and>
                    wanted ?b cid = Some (NumV (tile_value tile)) \<and>
                    valueOf (cells (board ?s)) cid = None"
      using tv[OF m(1)] m(2) by simp
  qed
  have others: "\<forall>k. k \<notin> set (map snd ?plan) \<longrightarrow> valueOf (cells (board ?s)) k = wanted ?b k"
    unfolding sndp using not_blank_wanted[OF g(2)] by simp
  have b0: "board ?s = ?b" by simp
  have blank: "\<exists>cell. map_of (cells (board ?s)) cid = Some cell \<and> \<not> isFixed cell \<and>
                 cell_type cell = TNumber" if "cid \<in> set ?blanks" for cid
    using blank_exists(1)[OF g(2) that] by simp
  have solve: "solved s'"
    if "same_grid s' ?s" "\<forall>k. valueOf (cells (board s')) k = wanted ?b k" for s'
    using solved_when_wanted[OF g(2) that(1) b0 that(2)] .
  have unsolved: "\<not> solved s'"
    if "same_grid s' ?s" "cid \<in> set ?blanks" "valueOf (cells (board s')) cid = None" for s' cid
    using unsolved_when_blank_empty[OF g(2) that(1) b0 that(2,3)] .
  have "\<exists>s'. placeAll ?plan (Some ?s) = (True, Some s') \<and> same_grid s' ?s \<and>
              solved s' \<and> allEquationsValid s' \<and> isComplete s' \<and>
              (\<forall>t'. t' \<notin> set (map fst ?plan) \<longrightarrow>
                     find_tile t' (availableNumbers s') = find_tile t' (availableNumbers ?s))"
    apply (rule placeAll_run[where ?s0.0 = ?s and goal = "wanted ?b" and blanks = "set ?blanks"])
    subgoal using solve by blast
    subgoal using unsolved by blast
    subgoal using blank by blast
    subgoal by (rule same_grid_refl)
    subgoal by (rule newGame_frame(2))
    subgoal by (rule pne)
    subgoal unfolding fstp by (rule dt)
    subgoal unfolding sndp by (rule db)
    subgoal unfolding sndp by simp
    subgoal by (rule tiles)
    subgoal by (rule others)
    done
  then obtain s' where
    s': "placeAll ?plan (Some ?s) = (True, Some s')" "solved s'" "allEquationsValid s'"
      "isComplete s'"
    by blast
  have vals: "map (tileValue ?s) (map fst ?plan) = map Some (neededNumbers ?b)"
    unfolding fstp
  proof (rule nth_equalityI)
    show "length (map (tileValue ?s) ?tids) = length (map Some (neededNumbers ?b))"
      using idx(1) by simp
    fix m assume "m < length (map (tileValue ?s) ?tids)"
    then have m: "m < length idx" by simp
    show "map (tileValue ?s) ?tids ! m = map Some (neededNumbers ?b) ! m"
      using tv[OF m] m idx(1) by (simp add: tileValue_def)
  qed
  have "startNewGame rnd d = Inr ?s \<and>
     map snd ?plan = blankCells (board ?s) \<and>
     distinct (map fst ?plan) \<and>
     map (tileValue ?s) (map fst ?plan) = map Some (neededNumbers (board ?s)) \<and>
     placeAll ?plan (Some ?s) = (True, Some s') \<and>
     solved s' \<and> allEquationsValid s' \<and> isComplete s'"
    using st sndp dt s' vals unfolding fstp b0 by simp
  then show ?thesis by blast
qed


end
